(* ===== verification/Prelude.thy ===== *)
theory Prelude
  imports Main "HOL-Library.Word"
begin

text \<open>
  Shared vocabulary of the development: the machine integer types of the C sources, the
  ways in which QEMU stops a run (\<open>hw_error\<close>, \<open>cpu_abort\<close>, a failed \<open>assert\<close>, an array
  access outside its bounds, a loop that does not end) as values of one error type, the
  sequencing of fallible steps, and the lemmas on bits, words and lists the components
  share.
\<close>

unbundle bit_operations_syntax

section \<open>Types\<close>

type_synonym u8 = "8 word"
type_synonym u16 = "16 word"
type_synonym u32 = "32 word"
type_synonym u64 = "64 word"

text \<open>
  Every way out of the emulator that is not a normal return. \<open>out_of_bounds\<close> is C's
  undefined behaviour of an array index outside the array, \<open>no_termination\<close> a loop of the
  source that never ends.
\<close>

datatype qemu_error =
    hw_error string
  | cpu_abort string
  | assert_failed string
  | aborted string
  | out_of_bounds string
  | no_termination string

type_synonym 'a res = "qemu_error + 'a"

definition bindE :: "'e + 'a \<Rightarrow> ('a \<Rightarrow> 'e + 'b) \<Rightarrow> 'e + 'b" where
  "bindE m f = (case m of Inl e \<Rightarrow> Inl e | Inr x \<Rightarrow> f x)"

named_theorems word_bits \<open>facts about single bits and masks of machine words\<close>

section \<open>Fallible steps\<close>

lemma bindE_simps [simp]:
  "bindE (Inl e) f = Inl e"
  "bindE (Inr x) f = f x"
  by (simp_all add: bindE_def)

lemma bindE_Inr_iff: "bindE m f = Inr y \<longleftrightarrow> (\<exists>x. m = Inr x \<and> f x = Inr y)"
  by (cases m) auto

lemma bindE_InrE [elim!]:
  assumes "bindE m f = Inr y"
  obtains x where "m = Inr x" and "f x = Inr y"
  using assms by (auto simp: bindE_Inr_iff)

lemma bindE_Inr [simp]: "bindE m Inr = m"
  by (cases m) auto

lemma bindE_assoc: "bindE (bindE m f) g = bindE m (\<lambda>x. bindE (f x) g)"
  by (cases m) auto

lemma bindE_ext: "(\<And>x. m = Inr x \<Longrightarrow> f x = g x) \<Longrightarrow> bindE m f = bindE m g"
  by (cases m) auto

text \<open>A \<open>for\<close> loop over a list whose body may fail.\<close>

primrec foldE :: "('a \<Rightarrow> 's \<Rightarrow> 's res) \<Rightarrow> 'a list \<Rightarrow> 's \<Rightarrow> 's res" where
  "foldE f [] s = Inr s"
| "foldE f (x # xs) s = bindE (f x s) (foldE f xs)"

lemma foldE_Nil [simp]: "foldE f [] = Inr"
  by (rule ext) simp

lemma foldE_append: "foldE f (xs @ ys) s = bindE (foldE f xs s) (foldE f ys)"
  by (induction xs arbitrary: s) (auto simp: bindE_assoc intro: bindE_ext)

section \<open>Bits of words\<close>

lemma bit_2_power [word_bits]:
  fixes j :: nat
  shows "bit ((2 ^ i)::'a::len word) j \<longleftrightarrow> j = i \<and> j < LENGTH('a)"
  by (auto simp: bit_exp_iff)

lemma and_2_power_eq_0_iff [word_bits]:
  fixes w :: "'a::len word"
  shows "w AND 2 ^ n = 0 \<longleftrightarrow> \<not> bit w n"
proof
  assume "w AND 2 ^ n = 0"
  then have "\<not> bit (w AND 2 ^ n) n" by simp
  then show "\<not> bit w n"
    by (auto simp: bit_and_iff bit_2_power dest: bit_imp_le_length)
next
  assume "\<not> bit w n"
  then show "w AND 2 ^ n = 0"
    by (intro bit_eqI) (auto simp: bit_and_iff bit_2_power)
qed

lemma xor_eq_0_iff_eq [word_bits]:
  fixes a b :: "'a::len word"
  shows "a XOR b = 0 \<longleftrightarrow> a = b"
proof
  assume *: "a XOR b = 0"
  show "a = b"
  proof (rule bit_eqI)
    fix n
    have "\<not> bit (a XOR b) n" using * by simp
    then show "bit a n \<longleftrightarrow> bit b n" by (simp add: bit_xor_iff)
  qed
qed simp

text \<open>Equality of words by their 32 bits, each a goal for the simplifier.\<close>

lemma u32_eqI:
  fixes x y :: u32
  assumes "\<forall>n\<in>set [0, 1, 2, 3, 4, 5, 6, 7, 8, 9, 10, 11, 12, 13, 14, 15, 16, 17, 18, 19, 20, 21, 22, 23, 24, 25,
    26, 27, 28, 29, 30, 31]. bit x n = bit y n"
  shows "x = y"
proof (rule bit_word_eqI)
  fix n
  assume "n < LENGTH(32)"
  then have "n \<in> set [0..<32]" by simp
  also have "[0..<32] = [0, 1, 2, 3, 4, 5, 6, 7, 8, 9, 10, 11, 12, 13, 14, 15, 16, 17, 18, 19, 20, 21, 22, 23, 24, 25,
    26, 27, 28, 29, 30, 31]" by code_simp
  finally show "bit x n = bit y n" using assms by blast
qed

lemma small_bit:
  fixes x :: "'a::len word"
  assumes "unat x < 2 ^ k" and "k \<le> n"
  shows "\<not> bit x n"
proof -
  have "take_bit k (unat x) = unat x" using assms(1) by (rule take_bit_nat_eq_self)
  then have "\<not> bit (unat x) n" using assms(2) by (metis bit_take_bit_iff not_le)
  then show ?thesis by (auto simp: bit_unsigned_iff dest: bit_imp_le_length)
qed

section \<open>Blocks of registers\<close>

text \<open>
  What a block of plain storage registers promises to its users: an offset that names a
  register reads that word and a write replaces that word only.
\<close>

locale register_file =
  fixes rd :: "'s \<Rightarrow> 'a \<Rightarrow> 'v res"
    and wr :: "'s \<Rightarrow> 'a \<Rightarrow> 'v \<Rightarrow> 's res"
    and regs :: "'s \<Rightarrow> 'v list"
    and index :: "'a \<Rightarrow> nat option"
  assumes index_bound: "index a = Some i \<Longrightarrow> i < length (regs s)"
    and index_inj: "index a = Some i \<Longrightarrow> index b = Some i \<Longrightarrow> a = b"
    and read_index: "index a = Some i \<Longrightarrow> rd s a = Inr (regs s ! i)"
    and write_index: "index a = Some i \<Longrightarrow> \<exists>t. wr s a v = Inr t \<and> regs t = (regs s)[i := v]"
    and write_other: "index a = None \<Longrightarrow> \<exists>e. wr s a v = Inl e"
begin

lemma write_indexE:
  assumes "wr s a v = Inr t"
  obtains i where "index a = Some i" and "regs t = (regs s)[i := v]"
  using assms write_index [of a _ s v] write_other [of a s v] by (cases "index a") auto

lemma read_after_write:
  assumes "wr s a v = Inr t" and "index b = Some j"
  shows "rd t b = (if b = a then Inr v else rd s b)"
proof -
  obtain i where i: "index a = Some i" and t: "regs t = (regs s)[i := v]"
    using assms(1) by (rule write_indexE)
  show ?thesis
  proof (cases "b = a")
    case True
    then show ?thesis using i t assms(2) index_bound [OF i, of s] by (simp add: read_index)
  next
    case False
    then have "i \<noteq> j" using i assms(2) index_inj by blast
    then show ?thesis using t assms(2) False by (simp add: read_index)
  qed
qed

end

end
