(* ===== verification/Irq.thy ===== *)
theory Irq
  imports Prelude
begin

text \<open>
  The interrupt and GPIO line infrastructure of QEMU: \<open>hw/irq.h\<close>, \<open>hw/irq.c\<close> and the
  GPIO functions of \<open>hw/qdev.c\<close>. A line is a handler and a line number; driving it calls
  the handler synchronously, which changes the state of the device at the other end. That
  state is the type variable \<open>'w\<close> (everything the handler can reach): a C handler
  \<open>void h(void *opaque, int n, int level)\<close> is a function of the line number, the level and
  \<open>'w\<close>, with its \<open>opaque\<close> argument already applied. A handler that can stop the run has a
  sum type for \<open>'w\<close>.
\<close>

section \<open>Lines (hw/irq.c)\<close>

type_synonym 'w qemu_irq_handler = "int \<Rightarrow> int \<Rightarrow> 'w \<Rightarrow> 'w"

datatype 'w IRQState = IRQState (handler: "'w qemu_irq_handler") (line: int)

text \<open>A \<open>qemu_irq\<close> is a pointer to an \<open>IRQState\<close>; \<open>None\<close> is the null pointer.\<close>

type_synonym 'w qemu_irq = "'w IRQState option"

definition qemu_set_irq :: "'w qemu_irq \<Rightarrow> int \<Rightarrow> 'w \<Rightarrow> 'w" where
  "qemu_set_irq irq level w =
     (case irq of
        None \<Rightarrow> w
      | Some p \<Rightarrow> handler p (line p) level w)"

definition qemu_irq_raise :: "'w qemu_irq \<Rightarrow> 'w \<Rightarrow> 'w" where
  "qemu_irq_raise irq w = qemu_set_irq irq 1 w"

definition qemu_irq_lower :: "'w qemu_irq \<Rightarrow> 'w \<Rightarrow> 'w" where
  "qemu_irq_lower irq w = qemu_set_irq irq 0 w"

definition qemu_irq_pulse :: "'w qemu_irq \<Rightarrow> 'w \<Rightarrow> 'w" where
  "qemu_irq_pulse irq w = qemu_set_irq irq 0 (qemu_set_irq irq 1 w)"

definition qemu_allocate_irqs :: "'w qemu_irq_handler \<Rightarrow> nat \<Rightarrow> 'w qemu_irq list" where
  "qemu_allocate_irqs h n = map (\<lambda>i. Some (IRQState h (int i))) [0..<n]"

text \<open>
  \<open>qemu_notirq\<close> and \<open>qemu_splitirq\<close> call through their \<open>opaque\<close> line without a null
  check, so they take lines that are not null.
\<close>

definition qemu_notirq :: "'w IRQState \<Rightarrow> 'w qemu_irq_handler" where
  "qemu_notirq irq n level w = handler irq (line irq) (if level = 0 then 1 else 0) w"

definition qemu_irq_invert :: "'w IRQState \<Rightarrow> 'w \<Rightarrow> 'w qemu_irq \<times> 'w" where
  "qemu_irq_invert irq w =
     (let w' = qemu_irq_raise (Some irq) w
      in (qemu_allocate_irqs (qemu_notirq irq) 1 ! 0, w'))"

definition qemu_splitirq :: "'w IRQState \<times> 'w IRQState \<Rightarrow> 'w qemu_irq_handler" where
  "qemu_splitirq irqs n level w =
     (let w' = handler (fst irqs) (line (fst irqs)) level w
      in handler (snd irqs) (line (snd irqs)) level w')"

definition qemu_irq_split :: "'w IRQState \<Rightarrow> 'w IRQState \<Rightarrow> 'w qemu_irq" where
  "qemu_irq_split irq1 irq2 = qemu_allocate_irqs (qemu_splitirq (irq1, irq2)) 1 ! 0"

text \<open>
  The target of a proxy is a pointer that may be set later, so it is read from the state
  when the line is driven.
\<close>

definition proxy_irq_handler :: "('w \<Rightarrow> 'w qemu_irq list option) \<Rightarrow> 'w qemu_irq_handler" where
  "proxy_irq_handler target n level w =
     (case target w of
        None \<Rightarrow> w
      | Some irqs \<Rightarrow> qemu_set_irq (irqs ! nat n) level w)"

definition qemu_irq_proxy :: "('w \<Rightarrow> 'w qemu_irq list option) \<Rightarrow> nat \<Rightarrow> 'w qemu_irq list" where
  "qemu_irq_proxy target n = qemu_allocate_irqs (proxy_irq_handler target) n"

section \<open>Device pins (hw/qdev.c)\<close>

text \<open>
  The part of \<open>DeviceState\<close> that holds the pins of a device. The array of output lines
  belongs to the device's own state and \<open>dev->gpio_out\<close> points to it, so the record holds
  its size only and \<open>qdev_connect_gpio_out\<close> takes the array and returns it changed.
\<close>

record 'i qdev_gpio =
  num_gpio_in :: nat
  gpio_in :: "'i qemu_irq list"
  num_gpio_out :: nat

definition qdev_init_gpio_in ::
  "'i qdev_gpio \<Rightarrow> 'i qemu_irq_handler \<Rightarrow> nat \<Rightarrow> 'i qdev_gpio res" where
  "qdev_init_gpio_in dev h n =
     (if num_gpio_in dev \<noteq> 0 then Inl (assert_failed ''dev->num_gpio_in == 0'')
      else Inr (dev\<lparr>num_gpio_in := n, gpio_in := qemu_allocate_irqs h n\<rparr>))"

definition qdev_init_gpio_out :: "'i qdev_gpio \<Rightarrow> nat \<Rightarrow> 'i qdev_gpio res" where
  "qdev_init_gpio_out dev n =
     (if num_gpio_out dev \<noteq> 0 then Inl (assert_failed ''dev->num_gpio_out == 0'')
      else Inr (dev\<lparr>num_gpio_out := n\<rparr>))"

definition qdev_get_gpio_in :: "'i qdev_gpio \<Rightarrow> int \<Rightarrow> 'i qemu_irq res" where
  "qdev_get_gpio_in dev n =
     (if 0 \<le> n \<and> n < int (num_gpio_in dev) then Inr (gpio_in dev ! nat n)
      else Inl (assert_failed ''n >= 0 && n < dev->num_gpio_in''))"

definition qdev_connect_gpio_out ::
  "'i qdev_gpio \<Rightarrow> 'o qemu_irq list \<Rightarrow> int \<Rightarrow> 'o qemu_irq \<Rightarrow> 'o qemu_irq list res" where
  "qdev_connect_gpio_out dev pins n pin =
     (if 0 \<le> n \<and> n < int (num_gpio_out dev) then Inr (pins[nat n := pin])
      else Inl (assert_failed ''n >= 0 && n < dev->num_gpio_out''))"

text \<open>A device as \<open>qdev_create\<close> allocates it: no pins yet.\<close>

definition qdev_no_gpio :: "'i qdev_gpio" where
  "qdev_no_gpio = \<lparr>num_gpio_in = 0, gpio_in = [], num_gpio_out = 0\<rparr>"

section \<open>Lemmas\<close>

lemma qemu_set_irq_None [simp]: "qemu_set_irq None level w = w"
  by (simp add: qemu_set_irq_def)

lemma qemu_set_irq_Some [simp]:
  "qemu_set_irq (Some (IRQState h n)) level w = h n level w"
  by (simp add: qemu_set_irq_def)

lemma length_qemu_allocate_irqs [simp]: "length (qemu_allocate_irqs h n) = n"
  by (simp add: qemu_allocate_irqs_def)

lemma nth_qemu_allocate_irqs [simp]:
  "i < n \<Longrightarrow> qemu_allocate_irqs h n ! i = Some (IRQState h (int i))"
  by (simp add: qemu_allocate_irqs_def)

lemma qemu_irq_split_drives:
  "qemu_set_irq (qemu_irq_split a b) level w =
     qemu_set_irq (Some b) level (qemu_set_irq (Some a) level w)"
  by (simp add: qemu_irq_split_def qemu_splitirq_def qemu_set_irq_def Let_def)

lemma qemu_irq_invert_drives:
  "qemu_set_irq (fst (qemu_irq_invert a w0)) level w =
     qemu_set_irq (Some a) (if level = 0 then 1 else 0) w"
  by (simp add: qemu_irq_invert_def qemu_notirq_def qemu_set_irq_def Let_def)

lemma qemu_irq_proxy_drives:
  "n < k \<Longrightarrow> qemu_set_irq (qemu_irq_proxy target k ! n) level w =
     (case target w of None \<Rightarrow> w | Some irqs \<Rightarrow> qemu_set_irq (irqs ! n) level w)"
  by (simp add: qemu_irq_proxy_def proxy_irq_handler_def split: option.split)

end
