(* ===== verification/Stm32_Gpio.thy ===== *)
theory Stm32_Gpio
  imports Irq
begin

text \<open>
  The GPIO port of the STM32L152 board (\<open>hw/stm32_gpio.c\<close>): its registers, the register
  read and write handlers, the propagation of output changes to the lines connected to the
  pins, the input pin handler and the reset values of ports A, B and the others.
\<close>

section \<open>State\<close>

definition NB_PIN :: nat where
  "NB_PIN = 15"

record 'w stm32_gpio_state =
  mode :: u32
  otype :: u16
  ospeed :: u32
  pupd :: u32
  ind :: u16
  outd :: u16
  outd_old :: u16
  bsr :: u32
  lck :: u32
  afrl :: u32
  afrh :: u32
  irq_out :: "'w qemu_irq list"
  gpio_id :: char

section \<open>Operations\<close>

text \<open>\<open>(1 << (i*2)) | (1 << ((i*2) + 1))\<close>: the two mode bits of pin \<open>i\<close>.\<close>

definition pin_mask :: "nat \<Rightarrow> u32" where
  "pin_mask i = push_bit (i * 2) 1 OR push_bit (i * 2 + 1) 1"

definition stm32_gpio_update_pin :: "'w stm32_gpio_state \<Rightarrow> u16 \<Rightarrow> nat \<Rightarrow> 'w \<Rightarrow> 'w" where
  "stm32_gpio_update_pin s changed i w =
     (let mask = push_bit i 1
      in if changed AND mask \<noteq> 0 then
           (if mode s AND pin_mask i \<noteq> 0
            then qemu_set_irq (irq_out s ! i) (if outd s AND mask \<noteq> 0 then 1 else 0) w
            else w)
         else w)"

definition stm32_gpio_update ::
  "'w stm32_gpio_state \<Rightarrow> 'w \<Rightarrow> 'w stm32_gpio_state \<times> 'w" where
  "stm32_gpio_update s w =
     (let changed = outd_old s XOR outd s
      in if changed = 0 then (s, w)
         else let s' = s\<lparr>outd_old := outd s\<rparr>
              in (s', fold (stm32_gpio_update_pin s' changed) [0..<8] w))"

definition stm32_gpio_read :: "'w stm32_gpio_state \<Rightarrow> u32 \<Rightarrow> u32 res" where
  "stm32_gpio_read s offset =
     (if offset = 0x00 then Inr (mode s)
      else if offset = 0x04 then Inr (ucast (otype s))
      else if offset = 0x08 then Inr (ospeed s)
      else if offset = 0x0C then Inr (pupd s)
      else if offset = 0x10 then Inr (ucast (ind s))
      else if offset = 0x14 then Inr (ucast (outd s))
      else if offset = 0x18 then Inr 0
      else if offset = 0x1C then Inr 0
      else if offset = 0x20 then Inr (afrl s)
      else if offset = 0x24 then Inr (afrh s)
      else Inl (hw_error ''stm32_gpio_read: Bad offset''))"

text \<open>
  The bit set/reset loop. \<open>uint16_t high = (uint16_t)value >> 16\<close> casts before it
  shifts, and the model does the same.
\<close>

definition bsr_low :: "u32 \<Rightarrow> u16" where
  "bsr_low value = ucast value"

definition bsr_high :: "u32 \<Rightarrow> u16" where
  "bsr_high value = ucast (drop_bit 16 (ucast (ucast value :: u16) :: u32))"

definition stm32_gpio_bsr_bit :: "u16 \<Rightarrow> u16 \<Rightarrow> nat \<Rightarrow> u16 \<Rightarrow> u16" where
  "stm32_gpio_bsr_bit high low i od =
     (let mask = push_bit i 1;
          od1 = (if high AND mask \<noteq> 0 then od AND NOT mask else od)
      in if low AND mask \<noteq> 0 then od1 OR mask else od1)"

definition stm32_gpio_write ::
  "'w stm32_gpio_state \<Rightarrow> u32 \<Rightarrow> u32 \<Rightarrow> 'w \<Rightarrow> ('w stm32_gpio_state \<times> 'w) res" where
  "stm32_gpio_write s offset value w =
     (let low = bsr_low value; high = bsr_high value
      in if offset = 0x00 then Inr (s\<lparr>mode := value\<rparr>, w)
         else if offset = 0x04 then Inr (s\<lparr>otype := ucast value\<rparr>, w)
         else if offset = 0x08 then Inr (s\<lparr>ospeed := value\<rparr>, w)
         else if offset = 0x0C then Inr (s\<lparr>pupd := value\<rparr>, w)
         else if offset = 0x10 then Inr (s, w)
         else if offset = 0x14 then Inr (stm32_gpio_update (s\<lparr>outd := ucast value\<rparr>) w)
         else if offset = 0x18 then
           Inr (stm32_gpio_update
                  (s\<lparr>outd := fold (stm32_gpio_bsr_bit high low) [0..<16] (outd s)\<rparr>) w)
         else if offset = 0x1C then Inr (s, w)
         else if offset = 0x20 then Inr (s\<lparr>afrl := value\<rparr>, w)
         else if offset = 0x24 then Inr (s\<lparr>afrh := value\<rparr>, w)
         else Inl (hw_error ''stm32_gpio_write: Bad offset''))"

definition stm32_gpio_reset :: "'w stm32_gpio_state \<Rightarrow> 'w stm32_gpio_state" where
  "stm32_gpio_reset s =
     (let s1 =
        (if gpio_id s = CHR ''A'' then
           s\<lparr>mode := 0xA8000000, pupd := 0x64000000, ospeed := 0\<rparr>
         else if gpio_id s = CHR ''B'' then
           s\<lparr>mode := 0x00000280, pupd := 0x00000100, ospeed := 0x000000C0\<rparr>
         else s\<lparr>mode := 0, pupd := 0, ospeed := 0\<rparr>)
      in s1\<lparr>ind := 0, otype := 0, outd := 0, outd_old := 0, bsr := 0, lck := 0,
            afrh := 0, afrl := 0\<rparr>)"

definition stm32_gpio_in_recv ::
  "int \<Rightarrow> int \<Rightarrow> 'w stm32_gpio_state \<Rightarrow> 'w stm32_gpio_state res" where
  "stm32_gpio_in_recv numPin level s =
     (if \<not> (0 \<le> numPin \<and> numPin < int NB_PIN)
      then Inl (assert_failed ''numPin>=0 && numPin<NB_PIN'')
      else
        let n = nat numPin; mask = pin_mask n
        in if pupd s AND mask = 0 then Inr s
           else if mode s AND mask \<noteq> 0 then Inr s
           else if level \<noteq> 0 then Inr (s\<lparr>ind := ind s OR push_bit n 1\<rparr>)
           else Inr (s\<lparr>ind := ind s AND NOT (push_bit n 1)\<rparr>))"

text \<open>
  \<open>stm32_gpio_init\<close> on the zeroed device state that \<open>qdev_create\<close> allocates; the input
  pins reach the port's own state, whose handler can fail its assertion.
\<close>

definition stm32_gpio_zero :: "'w stm32_gpio_state" where
  "stm32_gpio_zero =
     \<lparr>mode = 0, otype = 0, ospeed = 0, pupd = 0, ind = 0, outd = 0, outd_old = 0, bsr = 0,
      lck = 0, afrl = 0, afrh = 0, irq_out = replicate NB_PIN None, gpio_id = CHR 0x00\<rparr>"

definition stm32_gpio_in_line ::
  "('w stm32_gpio_state res) qemu_irq_handler" where
  "stm32_gpio_in_line numPin level w = bindE w (stm32_gpio_in_recv numPin level)"

definition stm32_gpio_init ::
  "char \<Rightarrow> ('w stm32_gpio_state \<times> ('w stm32_gpio_state res) qdev_gpio) res" where
  "stm32_gpio_init ident =
     (let s = stm32_gpio_zero\<lparr>gpio_id := ident\<rparr>
      in bindE (qdev_init_gpio_in qdev_no_gpio stm32_gpio_in_line NB_PIN) (\<lambda>dev.
         bindE (qdev_init_gpio_out dev NB_PIN) (\<lambda>dev.
         Inr (stm32_gpio_reset s, dev))))"

section \<open>What a port promises\<close>

text \<open>
  The output latch that drives the lines is always the output register, and there is a
  slot for every pin.
\<close>

definition gpio_inv :: "'w stm32_gpio_state \<Rightarrow> bool" where
  "gpio_inv s \<longleftrightarrow> outd_old s = outd s \<and> length (irq_out s) = NB_PIN"

text \<open>
  Pin \<open>i\<close> is an output when its mode bits are not \<open>00\<close>; it is an input with a pull when
  the mode bits are \<open>00\<close> and the pull bits are not.
\<close>

definition pin_is_output :: "'w stm32_gpio_state \<Rightarrow> nat \<Rightarrow> bool" where
  "pin_is_output s i \<longleftrightarrow> bit (mode s) (2 * i) \<or> bit (mode s) (2 * i + 1)"

definition pin_is_pulled_input :: "'w stm32_gpio_state \<Rightarrow> nat \<Rightarrow> bool" where
  "pin_is_pulled_input s i \<longleftrightarrow>
     \<not> pin_is_output s i \<and> (bit (pupd s) (2 * i) \<or> bit (pupd s) (2 * i + 1))"

text \<open>The levels a change of the output register drives, in order of the pins.\<close>

definition driven_pins :: "'w stm32_gpio_state \<Rightarrow> (nat \<times> int) list" where
  "driven_pins s =
     map (\<lambda>i. (i, if bit (outd s) i then 1 else 0))
       (filter (\<lambda>i. bit (outd_old s) i \<noteq> bit (outd s) i \<and> pin_is_output s i) [0..<8])"

text \<open>The states a port named \<open>ident\<close> can be in.\<close>

inductive gpio_reachable :: "char \<Rightarrow> 'w stm32_gpio_state \<Rightarrow> bool" for ident where
  Init: "stm32_gpio_init ident = Inr (s, dev) \<Longrightarrow> gpio_reachable ident s"
| Connect: "gpio_reachable ident s \<Longrightarrow> gpio_reachable ident (s\<lparr>irq_out := (irq_out s)[i := pin]\<rparr>)"
| Write: "gpio_reachable ident s \<Longrightarrow> stm32_gpio_write s offset value w = Inr (s', w') \<Longrightarrow>
    gpio_reachable ident s'"
| Input: "gpio_reachable ident s \<Longrightarrow> stm32_gpio_in_recv n level s = Inr s' \<Longrightarrow>
    gpio_reachable ident s'"
| Reset: "gpio_reachable ident s \<Longrightarrow> gpio_reachable ident (stm32_gpio_reset s)"

section \<open>Lemmas\<close>

lemma bsr_high_0 [simp]: "bsr_high value = 0"
proof -
  have "drop_bit 16 (ucast (ucast value :: u16) :: u32) = 0"
    by (rule bit_eqI) (simp add: bit_drop_bit_eq bit_ucast_iff)
  then show ?thesis by (simp add: bsr_high_def)
qed

lemma bit_bsr_bit:
  "i < 16 \<Longrightarrow> bit (stm32_gpio_bsr_bit 0 low i od) j \<longleftrightarrow> bit od j \<or> (j = i \<and> bit low i)"
  by (simp add: stm32_gpio_bsr_bit_def Let_def and_2_power_eq_0_iff bit_2_power bit_or_iff)
    blast

lemma bit_fold_bsr:
  "n \<le> 16 \<Longrightarrow> bit (fold (stm32_gpio_bsr_bit 0 low) [0..<n] od) j \<longleftrightarrow>
     bit od j \<or> (j < n \<and> bit low j)"
proof (induction n)
  case 0
  then show ?case by simp
next
  case (Suc n)
  then have IH: "bit (fold (stm32_gpio_bsr_bit 0 low) [0..<n] od) j \<longleftrightarrow>
      bit od j \<or> (j < n \<and> bit low j)"
    by simp
  have "fold (stm32_gpio_bsr_bit 0 low) [0..<Suc n] od =
      stm32_gpio_bsr_bit 0 low n (fold (stm32_gpio_bsr_bit 0 low) [0..<n] od)"
    by simp
  then show ?case using Suc.prems IH by (simp add: bit_bsr_bit less_Suc_eq) blast
qed

lemma fold_bsr: "fold (stm32_gpio_bsr_bit 0 low) [0..<16] od = od OR low"
  by (rule bit_eqI) (use bit_imp_le_length in \<open>auto simp: bit_fold_bsr bit_or_iff\<close>)

lemma pin_mask_and_0_iff: "w AND pin_mask i = 0 \<longleftrightarrow> \<not> bit w (2 * i) \<and> \<not> bit w (2 * i + 1)"
proof -
  have "w AND pin_mask i = (w AND 2 ^ (i * 2)) OR (w AND 2 ^ (i * 2 + 1))"
    by (simp add: pin_mask_def bit.conj_disj_distrib)
  moreover have "x OR y = 0 \<longleftrightarrow> x = 0 \<and> y = 0" for x y :: u32
    by (simp add: or_eq_0_iff)
  ultimately show ?thesis by (simp only: and_2_power_eq_0_iff mult.commute)
qed

lemma update_pin_eq:
  "stm32_gpio_update_pin s (outd_old t XOR outd s) i =
     (if bit (outd_old t) i \<noteq> bit (outd s) i \<and> pin_is_output s i
      then qemu_set_irq (irq_out s ! i) (if bit (outd s) i then 1 else 0) else id)"
  by (rule ext)
    (simp add: stm32_gpio_update_pin_def Let_def pin_mask_and_0_iff and_2_power_eq_0_iff
      bit_xor_iff pin_is_output_def)

lemma fold_if_filter:
  "fold (\<lambda>x. if P x then f x else id) xs = fold f (filter P xs)"
  by (induction xs) simp_all

lemma stm32_gpio_update_eq:
  "stm32_gpio_update s w =
     (s\<lparr>outd_old := outd s\<rparr>,
      fold (\<lambda>(i, level). qemu_set_irq (irq_out s ! i) level) (driven_pins s) w)"
proof (cases "outd_old s = outd s")
  case True
  then show ?thesis by (cases s) (simp add: stm32_gpio_update_def driven_pins_def)
next
  case False
  let ?s = "s\<lparr>outd_old := outd s\<rparr>"
  have "stm32_gpio_update s w =
      (?s, fold (stm32_gpio_update_pin ?s (outd_old s XOR outd ?s)) [0..<8] w)"
    using False by (simp add: stm32_gpio_update_def Let_def xor_eq_0_iff_eq)
  also have "stm32_gpio_update_pin ?s (outd_old s XOR outd ?s) =
      (\<lambda>i. if bit (outd_old s) i \<noteq> bit (outd ?s) i \<and> pin_is_output ?s i
        then qemu_set_irq (irq_out ?s ! i) (if bit (outd ?s) i then 1 else 0) else id)"
    by (rule ext) (rule update_pin_eq)
  finally show ?thesis
    by (simp add: fold_if_filter driven_pins_def fold_map comp_def pin_is_output_def)
qed

lemma stm32_gpio_update_inv:
  "length (irq_out s) = NB_PIN \<Longrightarrow> gpio_inv (fst (stm32_gpio_update s w))"
  by (simp add: stm32_gpio_update_eq gpio_inv_def)

lemma stm32_gpio_write_bsr:
  "stm32_gpio_write s 0x18 value w = Inr (stm32_gpio_update (s\<lparr>outd := outd s OR ucast value\<rparr>) w)"
  by (simp add: stm32_gpio_write_def fold_bsr bsr_low_def)

lemma ucast_u16_u32: "(ucast (ucast v :: u16) :: u32) = v AND 0xFFFF"
proof -
  have m: "(0xFFFF :: u32) = mask 16" by (simp add: mask_eq_exp_minus_1)
  show ?thesis unfolding m
    by (rule bit_eqI) (auto simp: bit_ucast_iff bit_and_iff bit_mask_iff simp del: take_bit_of_mask)
qed

lemma stm32_gpio_in_recv_eq:
  "stm32_gpio_in_recv n level s =
     (if n < 0 \<or> 15 \<le> n then Inl (assert_failed ''numPin>=0 && numPin<NB_PIN'')
      else if \<not> pin_is_pulled_input s (nat n) then Inr s
      else Inr (s\<lparr>ind := (if level = 0 then unset_bit else set_bit) (nat n) (ind s)\<rparr>))"
  by (simp add: stm32_gpio_in_recv_def NB_PIN_def Let_def pin_mask_and_0_iff
      pin_is_pulled_input_def pin_is_output_def set_bit_eq_or unset_bit_eq_and_not)

section \<open>Properties\<close>

text \<open>
  A write to the bit set/reset register sets the output bits that are one in the low
  half of the value and changes no other: the reset half has no effect at all, because the
  code shifts the value after it has cast it to 16 bits.
\<close>

theorem gpio_bsr_only_sets:
  "\<exists>s' w'. stm32_gpio_write s 0x18 value w = Inr (s', w') \<and> outd s' = outd s OR ucast value"
  by (simp only: stm32_gpio_write_bsr) (simp add: stm32_gpio_update_eq)

text \<open>
  A write to the output data register stores it and drives exactly the lines of those
  of the pins 0 to 7 that are outputs and whose bit changes, each once, in the order of
  the pins, to the new level.
\<close>

theorem gpio_odr_drives_changes:
  "stm32_gpio_write s 0x14 value w =
     Inr (s\<lparr>outd := ucast value, outd_old := ucast value\<rparr>,
          fold (\<lambda>(i, level). qemu_set_irq (irq_out s ! i) level)
            (driven_pins (s\<lparr>outd := ucast value\<rparr>)) w)"
  by (simp add: stm32_gpio_write_def stm32_gpio_update_eq)

text \<open>
  In every state a port can reach from its initialisation, by connecting lines,
  register writes, input changes and resets, the output latch equals the output register,
  every pin has a line slot and the port keeps its name.
\<close>

theorem gpio_reachable_inv:
  "gpio_reachable ident s \<Longrightarrow> gpio_inv s \<and> gpio_id s = ident"
proof (induction rule: gpio_reachable.induct)
  case (Init s dev)
  then show ?case
    by (auto simp: stm32_gpio_init_def qdev_init_gpio_in_def qdev_init_gpio_out_def
        qdev_no_gpio_def stm32_gpio_reset_def stm32_gpio_zero_def gpio_inv_def Let_def)
next
  case (Write s off v w s' w')
  then show ?case
    by (auto simp: stm32_gpio_write_def stm32_gpio_update_eq gpio_inv_def Let_def
        split: if_splits)
next
  case (Input s n level s')
  then show ?case
    by (auto simp: stm32_gpio_in_recv_def gpio_inv_def Let_def split: if_splits)
qed (auto simp: gpio_inv_def stm32_gpio_reset_def Let_def)

theorem gpio_reachable_inv_witness:
  "\<exists>s :: unit stm32_gpio_state. gpio_reachable CHR ''B'' s \<and> gpio_inv s \<and>
     gpio_id s = CHR ''B'' \<and> outd s = 0x40"
proof -
  obtain s0 :: "unit stm32_gpio_state" and dev
    where i: "stm32_gpio_init CHR ''B'' = Inr (s0, dev)"
    by (simp add: stm32_gpio_init_def qdev_init_gpio_in_def qdev_init_gpio_out_def
        qdev_no_gpio_def)
  obtain s1 w1 where w: "stm32_gpio_write s0 0x14 0x40 () = Inr (s1, w1)" and od: "outd s1 = 0x40"
    by (simp add: stm32_gpio_write_def stm32_gpio_update_eq)
  have r: "gpio_reachable CHR ''B'' s1"
    using gpio_reachable.Write [OF gpio_reachable.Init [OF i] w] .
  show ?thesis using r gpio_reachable_inv [OF r] od by blast
qed

text \<open>
  An input line change on a pin is latched in the input data register exactly when the
  pin is an input with a pull resistor; then the bit of that pin follows the level and no
  other bit and no other register changes. A pin number outside 0 to 14 fails the
  assertion.
\<close>

theorem gpio_input_latch:
  "stm32_gpio_in_recv n level s =
     (if n < 0 \<or> 15 \<le> n then Inl (assert_failed ''numPin>=0 && numPin<NB_PIN'')
      else if \<not> pin_is_pulled_input s (nat n) then Inr s
      else Inr (s\<lparr>ind := (if level = 0 then unset_bit else set_bit) (nat n) (ind s)\<rparr>))"
  by (rule stm32_gpio_in_recv_eq)

text \<open>
  The registers behave as memory: a read of a writable register after a write to it
  returns the value written (its low half for the 16-bit registers), the write-only and
  unimplemented registers read as zero, and offsets that name no register stop the
  emulator, for reads and writes alike.
\<close>

theorem gpio_register_readback:
  "stm32_gpio_write s offset value w = Inr (s', w') \<Longrightarrow>
   stm32_gpio_read s' offset =
     Inr (if offset \<in> {0x00, 0x08, 0x0C, 0x20, 0x24} then value
          else if offset \<in> {0x04, 0x14} then value AND 0xFFFF
          else if offset = 0x10 then ucast (ind s)
          else 0)"
  by (auto simp: stm32_gpio_write_def stm32_gpio_read_def stm32_gpio_update_eq Let_def
      ucast_u16_u32 split: if_splits)

theorem gpio_register_readback_witness:
  "stm32_gpio_read ((stm32_gpio_zero :: unit stm32_gpio_state)\<lparr>otype := 0x5678\<rparr>) 0x04 =
     Inr 0x5678"
proof -
  have w: "stm32_gpio_write (stm32_gpio_zero :: unit stm32_gpio_state) 0x04 0x12345678 () =
      Inr (stm32_gpio_zero\<lparr>otype := 0x5678\<rparr>, ())"
    by (simp add: stm32_gpio_write_def)
  show ?thesis using gpio_register_readback [OF w] by simp
qed

end
