(* ===== verification/Chardev.thy ===== *)
theory Chardev
  imports Prelude
begin

text \<open>
  The front-end interface of character devices (\<open>qemu-char.c\<close>) as far as the board uses
  it: looking a device up by its label, writing to its back end, and installing and
  calling the handlers of its front end. The back end (a socket, a terminal) is the
  function \<open>chr_write\<close> on the outside world \<open>'io\<close>; the front end's handlers act on the
  front end's state \<open>'f\<close>.
\<close>

record ('io, 'f) CharDriverState =
  chr_label :: string
  chr_write :: "u8 list \<Rightarrow> 'io \<Rightarrow> 'io \<times> int"
  chr_can_read :: "('f \<Rightarrow> int) option"
  chr_read :: "(u8 list \<Rightarrow> 'f \<Rightarrow> 'f) option"

fun qemu_chr_find ::
  "string \<Rightarrow> ('io, 'f) CharDriverState list \<Rightarrow> ('io, 'f) CharDriverState option" where
  "qemu_chr_find name [] = None"
| "qemu_chr_find name (chr # chardevs) =
     (if chr_label chr \<noteq> name then qemu_chr_find name chardevs else Some chr)"

definition qemu_chr_fe_write ::
  "('io, 'f) CharDriverState \<Rightarrow> u8 list \<Rightarrow> 'io \<Rightarrow> 'io \<times> int" where
  "qemu_chr_fe_write s buf io = chr_write s buf io"

definition qemu_chr_be_can_write :: "('io, 'f) CharDriverState \<Rightarrow> 'f \<Rightarrow> int" where
  "qemu_chr_be_can_write s f = (case chr_can_read s of None \<Rightarrow> 0 | Some h \<Rightarrow> h f)"

text \<open>\<open>qemu_chr_be_write\<close> calls the handler without a null check.\<close>

definition qemu_chr_be_write :: "('io, 'f) CharDriverState \<Rightarrow> u8 list \<Rightarrow> 'f \<Rightarrow> 'f res" where
  "qemu_chr_be_write s buf f =
     (case chr_read s of
        None \<Rightarrow> Inl (out_of_bounds ''chr_read is null'')
      | Some h \<Rightarrow> Inr (h buf f))"

lemma qemu_chr_find_label:
  "qemu_chr_find name chardevs = Some chr \<Longrightarrow> chr \<in> set chardevs \<and> chr_label chr = name"
  by (induction chardevs) (auto split: if_splits)

lemma qemu_chr_find_None_iff:
  "qemu_chr_find name chardevs = None \<longleftrightarrow> name \<notin> chr_label ` set chardevs"
  by (induction chardevs) auto

end
