(* ===== verification/Stm32_Board.thy ===== *)
theory Stm32_Board
  imports Stm32_Gpio Chardev
begin

text \<open>
  The user button (\<open>hw/stm32_button.c\<close>), the two LEDs (\<open>hw/stm32_led.c\<close>), the system
  memory stub and the wiring of the peripherals by \<open>stm32l152rbt6_init\<close> (\<open>hw/stm32.c\<close>):
  the button drives pin 0 of port A, and pins 6 and 7 of port B drive the blue and the
  green LED. The outside world \<open>'io\<close> is what the character devices write to.
\<close>

section \<open>The LED\<close>

record ('io, 'f) stm32_led_state =
  ledState :: u8
  led_chr :: "('io, 'f) CharDriverState option"

definition stm32_led_reset :: "('io, 'f) stm32_led_state \<Rightarrow> ('io, 'f) stm32_led_state" where
  "stm32_led_reset s = s\<lparr>ledState := 0\<rparr>"

definition stm32_led_recvirq :: "('io, 'f) stm32_led_state \<Rightarrow> 'io qemu_irq_handler" where
  "stm32_led_recvirq s numPin level io =
     (case led_chr s of
        None \<Rightarrow> io
      | Some chr \<Rightarrow>
          let buffer = (word_of_int level :: u8)
          in fst (qemu_chr_fe_write chr [buffer] io))"

definition stm32_led_init ::
  "('io, 'f) CharDriverState list \<Rightarrow> string \<Rightarrow> (('io, 'f) stm32_led_state \<times> 'io qdev_gpio) res"
where
  "stm32_led_init chardevs ident =
     (let s = stm32_led_reset \<lparr>ledState = 0, led_chr = qemu_chr_find ident chardevs\<rparr>
      in bindE (qdev_init_gpio_in qdev_no_gpio (stm32_led_recvirq s) 1) (\<lambda>dev. Inr (s, dev)))"

definition stm32_led_init_Blue ::
  "('io, 'f) CharDriverState list \<Rightarrow> (('io, 'f) stm32_led_state \<times> 'io qdev_gpio) res" where
  "stm32_led_init_Blue chardevs = stm32_led_init chardevs ''led_blue''"

definition stm32_led_init_Green ::
  "('io, 'f) CharDriverState list \<Rightarrow> (('io, 'f) stm32_led_state \<times> 'io qdev_gpio) res" where
  "stm32_led_init_Green chardevs = stm32_led_init chardevs ''led_green''"

section \<open>The button\<close>

record 'w stm32_button_state =
  buttonState :: u8
  button_out :: "'w qemu_irq list"

definition stm32_button_reset :: "'w stm32_button_state \<Rightarrow> 'w stm32_button_state" where
  "stm32_button_reset s = s\<lparr>buttonState := 0\<rparr>"

definition stm32_can_receive :: "'w stm32_button_state \<Rightarrow> int" where
  "stm32_can_receive s = 1"

text \<open>The loop over the received bytes: each byte is stored and then drives the line.\<close>

fun stm32_receive ::
  "u8 list \<Rightarrow> 'w stm32_button_state \<times> 'w \<Rightarrow> 'w stm32_button_state \<times> 'w" where
  "stm32_receive [] (s, w) = (s, w)"
| "stm32_receive (etat # buf) (s, w) =
     stm32_receive buf
       (s\<lparr>buttonState := etat\<rparr>, qemu_set_irq (button_out s ! 0) (uint etat) w)"

definition stm32_button_init :: "('w stm32_button_state \<times> unit qdev_gpio) res" where
  "stm32_button_init =
     bindE (qdev_init_gpio_out qdev_no_gpio 1) (\<lambda>dev.
     Inr (stm32_button_reset \<lparr>buttonState = 0, button_out = [None]\<rparr>, dev))"

section \<open>System memory (hw/stm32.c)\<close>

record ssys_state =
  int_status :: u32
  int_mask :: u32

definition ssys_reset :: "ssys_state \<Rightarrow> ssys_state" where
  "ssys_reset s = s"

definition ssys_read :: "ssys_state \<Rightarrow> u32 \<Rightarrow> u32" where
  "ssys_read s offset = 0"

definition ssys_write :: "ssys_state \<Rightarrow> u32 \<Rightarrow> u32 \<Rightarrow> ssys_state" where
  "ssys_write s offset value = s"

definition stm32l_sys_init :: "ssys_state" where
  "stm32l_sys_init = ssys_reset \<lparr>int_status = 0, int_mask = 0\<rparr>"

section \<open>The board\<close>

text \<open>
  Port A is what the button's line reaches; no line leaves port A on this board, so its
  own lines act on \<open>unit\<close>. The lines of port B reach the LEDs.
\<close>

record ('io, 'f) stm32_board =
  gpio_a :: "unit stm32_gpio_state"
  gpio_b :: "'io stm32_gpio_state"
  button :: "(unit stm32_gpio_state res) stm32_button_state"
  led_dev6 :: "('io, 'f) stm32_led_state"
  led_dev7 :: "('io, 'f) stm32_led_state"
  ssys :: ssys_state

definition stm32l152rbt6_init_devices ::
  "('io, 'f) CharDriverState list \<Rightarrow> ('io, 'f) stm32_board res" where
  "stm32l152rbt6_init_devices chardevs =
     bindE stm32_button_init (\<lambda>(btn, btn_dev).
     bindE (stm32_led_init_Blue chardevs) (\<lambda>(led6, led6_dev).
     bindE (stm32_led_init_Green chardevs) (\<lambda>(led7, led7_dev).
     bindE (stm32_gpio_init CHR ''A'') (\<lambda>(ga, ga_dev).
     bindE (qdev_get_gpio_in ga_dev 0) (\<lambda>entreeBouton.
     bindE (qdev_connect_gpio_out btn_dev (button_out btn) 0 entreeBouton) (\<lambda>btn_out.
     bindE (stm32_gpio_init CHR ''B'') (\<lambda>(gb, gb_dev).
     bindE (qdev_get_gpio_in led6_dev 0) (\<lambda>entreeLED6.
     bindE (qdev_connect_gpio_out (gb_dev :: ('io stm32_gpio_state res) qdev_gpio)
              (irq_out gb) 6 entreeLED6) (\<lambda>out6.
     bindE (qdev_get_gpio_in led7_dev 0) (\<lambda>entreeLED7.
     bindE (qdev_connect_gpio_out gb_dev out6 7 entreeLED7) (\<lambda>out7.
     Inr \<lparr>gpio_a = ga, gpio_b = gb\<lparr>irq_out := out7\<rparr>,
          button = btn\<lparr>button_out := btn_out\<rparr>,
          led_dev6 = led6, led_dev7 = led7, ssys = stm32l_sys_init\<rparr>)))))))))))"

text \<open>
  What the guest and the user can do to the peripherals: access the registers of a port
  and send bytes to the button's character device.
\<close>

definition board_write_a ::
  "u32 \<Rightarrow> u32 \<Rightarrow> ('io, 'f) stm32_board \<Rightarrow> ('io, 'f) stm32_board res" where
  "board_write_a offset value b =
     bindE (stm32_gpio_write (gpio_a b) offset value ()) (\<lambda>(s, _). Inr (b\<lparr>gpio_a := s\<rparr>))"

definition board_write_b ::
  "u32 \<Rightarrow> u32 \<Rightarrow> ('io, 'f) stm32_board \<times> 'io \<Rightarrow> (('io, 'f) stm32_board \<times> 'io) res" where
  "board_write_b offset value bw =
     bindE (stm32_gpio_write (gpio_b (fst bw)) offset value (snd bw)) (\<lambda>(s, io).
     Inr ((fst bw)\<lparr>gpio_b := s\<rparr>, io))"

definition board_user_input ::
  "u8 list \<Rightarrow> ('io, 'f) stm32_board \<Rightarrow> ('io, 'f) stm32_board res" where
  "board_user_input buf b =
     (case stm32_receive buf (button b, Inr (gpio_a b)) of
        (btn, Inl e) \<Rightarrow> Inl e
      | (btn, Inr ga) \<Rightarrow> Inr (b\<lparr>button := btn, gpio_a := ga\<rparr>))"

text \<open>Sequences of such events.\<close>

datatype board_event = user_input "u8 list" | write_a u32 u32 | write_b u32 u32

fun board_step :: "board_event \<Rightarrow> ('io, 'f) stm32_board \<times> 'io \<Rightarrow> (('io, 'f) stm32_board \<times> 'io) res" where
  "board_step (user_input buf) (b, io) = bindE (board_user_input buf b) (\<lambda>b. Inr (b, io))"
| "board_step (write_a offset v) (b, io) = bindE (board_write_a offset v b) (\<lambda>b. Inr (b, io))"
| "board_step (write_b offset v) (b, io) = board_write_b offset v (b, io)"

text \<open>The writes that give pin 0 of port A a pull resistor.\<close>

fun pulls_button :: "board_event \<Rightarrow> bool" where
  "pulls_button (write_a offset v) \<longleftrightarrow> offset = 0x0C \<and> v AND pin_mask 0 \<noteq> 0"
| "pulls_button _ \<longleftrightarrow> False"

section \<open>Lemmas\<close>

lemmas board_init_defs =
  stm32l152rbt6_init_devices_def stm32_button_init_def stm32_led_init_Blue_def
  stm32_led_init_Green_def stm32_led_init_def stm32_gpio_init_def qdev_init_gpio_in_def
  qdev_init_gpio_out_def qdev_get_gpio_in_def qdev_connect_gpio_out_def qdev_no_gpio_def

text \<open>The wiring: which line is connected where.\<close>

definition board_wired :: "('io, 'f) CharDriverState list \<Rightarrow> ('io, 'f) stm32_board \<Rightarrow> bool" where
  "board_wired chardevs b \<longleftrightarrow>
     button_out (button b) = [Some (IRQState stm32_gpio_in_line 0)] \<and>
     length (irq_out (gpio_b b)) = NB_PIN \<and>
     (\<forall>i < 8. irq_out (gpio_b b) ! i =
        (if i = 6 then Some (IRQState (stm32_led_recvirq (led_dev6 b)) 0)
         else if i = 7 then Some (IRQState (stm32_led_recvirq (led_dev7 b)) 0) else None)) \<and>
     led_chr (led_dev6 b) = qemu_chr_find ''led_blue'' chardevs \<and>
     led_chr (led_dev7 b) = qemu_chr_find ''led_green'' chardevs"

lemma stm32l152rbt6_init_devices_ok:
  "\<exists>b. stm32l152rbt6_init_devices chardevs = Inr b \<and> board_wired chardevs b \<and>
     gpio_a b = stm32_gpio_reset (stm32_gpio_zero\<lparr>gpio_id := CHR ''A''\<rparr>) \<and>
     outd_old (gpio_b b) = 0 \<and> mode (gpio_b b) = 0x00000280"
  by (simp add: board_init_defs board_wired_def NB_PIN_def stm32_gpio_zero_def
      stm32_gpio_reset_def stm32_button_reset_def stm32_led_reset_def nth_list_update Let_def)

lemma stm32_receive_single:
  "stm32_receive (buf @ [b]) (s, w) =
     (let (s', w') = stm32_receive buf (s, w)
      in (s'\<lparr>buttonState := b\<rparr>, qemu_set_irq (button_out s ! 0) (uint b) w'))"
  by (induction buf arbitrary: s w) (simp_all add: Let_def)

lemma gpio_in_line_pin0:
  "stm32_gpio_in_line 0 level (Inr s) =
     Inr (if pin_is_pulled_input s 0
          then s\<lparr>ind := (if level = 0 then unset_bit else set_bit) 0 (ind s)\<rparr> else s)"
  by (simp add: stm32_gpio_in_line_def stm32_gpio_in_recv_eq)

text \<open>What the last byte from the user leaves behind on port A.\<close>

definition button_latch :: "u8 \<Rightarrow> unit stm32_gpio_state \<Rightarrow> unit stm32_gpio_state" where
  "button_latch etat s =
     (if pin_is_pulled_input s 0
      then s\<lparr>ind := (if etat = 0 then unset_bit else set_bit) 0 (ind s)\<rparr> else s)"

lemma button_latch_latch: "button_latch b (button_latch a s) = button_latch b s"
proof -
  have "pin_is_pulled_input (s\<lparr>ind := x\<rparr>) 0 = pin_is_pulled_input s 0" for x
    by (simp add: pin_is_pulled_input_def pin_is_output_def)
  moreover have "set_bit 0 (unset_bit 0 x) = set_bit 0 x" "unset_bit 0 (set_bit 0 x) = unset_bit 0 x"
    "set_bit 0 (set_bit 0 x) = set_bit 0 x" "unset_bit 0 (unset_bit 0 x) = unset_bit 0 x"
    for x :: u16
    by (auto intro!: bit_eqI simp: bit_set_bit_iff bit_unset_bit_iff)
  ultimately show ?thesis by (auto simp: button_latch_def)
qed

lemma stm32_receive_port_a:
  assumes "button_out s = [Some (IRQState stm32_gpio_in_line 0)]"
  shows "stm32_receive (buf @ [b]) (s, Inr ga) =
     (s\<lparr>buttonState := b\<rparr>, Inr (button_latch b ga))"
  using assms
proof (induction buf arbitrary: s ga)
  case Nil
  then show ?case by (simp add: gpio_in_line_pin0 button_latch_def uint_0_iff)
next
  case (Cons a buf)
  have "stm32_receive ((a # buf) @ [b]) (s, Inr ga) =
      stm32_receive (buf @ [b]) (s\<lparr>buttonState := a\<rparr>, Inr (button_latch a ga))"
    using Cons.prems by (simp add: gpio_in_line_pin0 button_latch_def uint_0_iff)
  also have "\<dots> = (s\<lparr>buttonState := b\<rparr>, Inr (button_latch b ga))"
    using Cons.IH [of "s\<lparr>buttonState := a\<rparr>"] Cons.prems by (simp add: button_latch_latch)
  finally show ?case .
qed

text \<open>One LED's share of a write to the output register of port B.\<close>

definition led_emit ::
  "'io stm32_gpio_state \<Rightarrow> u32 \<Rightarrow> nat \<Rightarrow> ('io, 'f) CharDriverState option \<Rightarrow> 'io \<Rightarrow> 'io" where
  "led_emit s v i chr io =
     (case chr of
        None \<Rightarrow> io
      | Some c \<Rightarrow>
          if pin_is_output s i \<and> bit (outd_old s) i \<noteq> bit v i
          then fst (chr_write c [if bit v i then 1 else 0] io) else io)"

lemma stm32_led_recvirq_level:
  "stm32_led_recvirq s n (if p then 1 else 0) io =
     (case led_chr s of None \<Rightarrow> io | Some c \<Rightarrow> fst (chr_write c [if p then 1 else 0] io))"
  by (simp add: stm32_led_recvirq_def qemu_chr_fe_write_def Let_def split: option.split)

lemma fold_driven_pins:
  "fold (\<lambda>(i, level). qemu_set_irq (irq i) level) (driven_pins s) =
     fold (\<lambda>i. if bit (outd_old s) i \<noteq> bit (outd s) i \<and> pin_is_output s i
            then qemu_set_irq (irq i) (if bit (outd s) i then 1 else 0) else id) [0..<8]"
  by (simp add: driven_pins_def fold_map comp_def fold_if_filter)

lemma wired_pin:
  assumes "board_wired chardevs b" and "i < 8"
  shows "(if bit (outd_old (gpio_b b)) i \<noteq> bit (ucast v :: u16) i \<and> pin_is_output (gpio_b b) i
      then qemu_set_irq (irq_out (gpio_b b) ! i) (if bit (ucast v :: u16) i then 1 else 0) else id) =
    (if i = 6 then led_emit (gpio_b b) v 6 (qemu_chr_find ''led_blue'' chardevs)
     else if i = 7 then led_emit (gpio_b b) v 7 (qemu_chr_find ''led_green'' chardevs) else id)"
proof -
  consider "i = 6" | "i = 7" | "i \<noteq> 6" "i \<noteq> 7" by blast
  then show ?thesis
  proof cases
    case 1
    then show ?thesis using assms
      by (auto simp: fun_eq_iff board_wired_def led_emit_def stm32_led_recvirq_level
          bit_ucast_iff split: option.split)
  next
    case 2
    then show ?thesis using assms
      by (auto simp: fun_eq_iff board_wired_def led_emit_def stm32_led_recvirq_level
          bit_ucast_iff split: option.split)
  next
    case 3
    then show ?thesis using assms by (auto simp: fun_eq_iff board_wired_def)
  qed
qed

section \<open>Properties\<close>

text \<open>
  C21: a guest write to the output register of port B reaches the LEDs of a wired board:
  the blue LED's character device receives one byte, the new level of pin 6, exactly when
  pin 6 is an output and its bit changes, then the green LED's device the same for pin 7,
  and nothing else is written to the outside.
\<close>

theorem board_leds_follow_odr:
  assumes "board_wired chardevs b"
  shows "board_write_b 0x14 v (b, io) =
     Inr (b\<lparr>gpio_b := (gpio_b b)\<lparr>outd := ucast v, outd_old := ucast v\<rparr>\<rparr>,
          led_emit (gpio_b b) v 7 (qemu_chr_find ''led_green'' chardevs)
            (led_emit (gpio_b b) v 6 (qemu_chr_find ''led_blue'' chardevs) io))"
proof -
  let ?gb = "gpio_b b" and ?ov = "ucast v :: u16"
  let ?blue = "led_emit ?gb v 6 (qemu_chr_find ''led_blue'' chardevs)"
  let ?green = "led_emit ?gb v 7 (qemu_chr_find ''led_green'' chardevs)"
  let ?step = "\<lambda>i. if bit (outd_old ?gb) i \<noteq> bit ?ov i \<and> pin_is_output ?gb i
      then qemu_set_irq (irq_out ?gb ! i) (if bit ?ov i then 1 else 0) else id"
  have "?step i = (if i = 6 then ?blue else if i = 7 then ?green else id)" if "i < 8" for i
    using wired_pin [OF assms that, of v] by simp
  then have "fold ?step [0..<8] io =
      fold (\<lambda>i. if i = 6 then ?blue else if i = 7 then ?green else id) [0..<8] io"
    by (intro fold_cong) simp_all
  also have "\<dots> = ?green (?blue io)"
    by (simp add: upt_rec)
  finally show ?thesis
    by (simp add: board_write_b_def stm32_gpio_write_def stm32_gpio_update_eq fold_driven_pins
        pin_is_output_def cong: if_cong)
qed

theorem board_leds_follow_odr_witness:
  "\<exists>b :: ((string \<times> u8 list) list, unit) stm32_board.
     board_write_b 0x14 0x40 (b, []) =
       Inr (b\<lparr>gpio_b := (gpio_b b)\<lparr>outd := 0x40, outd_old := 0x40\<rparr>\<rparr>, [(''led_blue'', [1])])"
proof -
  let ?dev = "\<lambda>n. \<lparr>chr_label = n, chr_write = \<lambda>bs io. (io @ [(n, bs)], 1), chr_can_read = None,
      chr_read = None\<rparr> :: ((string \<times> u8 list) list, unit) CharDriverState"
  let ?devs = "[?dev ''led_green'', ?dev ''led_blue'']"
  obtain b where b: "board_wired ?devs b" and g: "outd_old (gpio_b b) = 0"
      "mode (gpio_b b) = 0x00000280"
    using stm32l152rbt6_init_devices_ok [of ?devs] by blast
  have "board_wired ?devs (b\<lparr>gpio_b := (gpio_b b)\<lparr>mode := 0x1000\<rparr>\<rparr>)"
    using b by (simp add: board_wired_def)
  from board_leds_follow_odr [OF this, where v = "0x40" and io = "[]"] show ?thesis
    using g by (intro exI [of _ "b\<lparr>gpio_b := (gpio_b b)\<lparr>mode := 0x1000\<rparr>\<rparr>"])
      (simp add: led_emit_def pin_is_output_def)
qed

text \<open>
  C22: bytes from the user reach the guest: on a wired board the button remembers the last
  byte received, and bit 0 of the input register of port A becomes one or zero as the last
  byte is non-zero or zero, provided the guest has configured pin 0 as an input with a
  pull resistor; otherwise the port does not change.
\<close>

theorem board_button_reaches_idr:
  assumes "board_wired chardevs b"
  shows "board_user_input (buf @ [etat]) b =
     Inr (b\<lparr>button := (button b)\<lparr>buttonState := etat\<rparr>,
            gpio_a := (if pin_is_pulled_input (gpio_a b) 0
              then (gpio_a b)\<lparr>ind := (if etat = 0 then unset_bit else set_bit) 0 (ind (gpio_a b))\<rparr>
              else gpio_a b)\<rparr>)"
  using assms
  by (simp add: board_user_input_def board_wired_def stm32_receive_port_a button_latch_def)

theorem board_button_reaches_idr_witness:
  "\<exists>b b' :: (unit, unit) stm32_board. board_user_input [0, 1] b = Inr b' \<and>
     ind (gpio_a b) = 0 \<and> ind (gpio_a b') = 1"
proof -
  obtain b :: "(unit, unit) stm32_board" where b: "board_wired [] b"
    and ga: "gpio_a b = stm32_gpio_reset (stm32_gpio_zero\<lparr>gpio_id := CHR ''A''\<rparr>)"
    using stm32l152rbt6_init_devices_ok [of "[]"] by blast
  let ?b = "b\<lparr>gpio_a := (gpio_a b)\<lparr>pupd := 2\<rparr>\<rparr>"
  have w: "board_wired [] ?b" using b by (simp add: board_wired_def)
  have "ind (gpio_a b) = 0" "pin_is_pulled_input (gpio_a ?b) 0"
    by (simp_all add: ga stm32_gpio_reset_def stm32_gpio_zero_def pin_is_pulled_input_def
        pin_is_output_def)
  then have "board_user_input [0, 1] ?b = Inr (?b\<lparr>button := (button b)\<lparr>buttonState := 1\<rparr>,
      gpio_a := (gpio_a ?b)\<lparr>ind := 1\<rparr>\<rparr>) \<and> ind (gpio_a ?b) = 0"
    using board_button_reaches_idr [OF w, of "[0]" 1] by (simp add: set_bit_eq_or)
  then show ?thesis by (intro exI) auto
qed

text \<open>A port without a pull resistor on pin 0 keeps its input register whatever is received.\<close>

definition button_dead :: "('io, 'f) CharDriverState list \<Rightarrow> ('io, 'f) stm32_board \<Rightarrow> bool" where
  "button_dead chardevs b \<longleftrightarrow> board_wired chardevs b \<and> pupd (gpio_a b) AND pin_mask 0 = 0 \<and> ind (gpio_a b) = 0"

lemma button_dead_input:
  assumes "button_dead chardevs b"
  shows "\<exists>btn. board_user_input buf b = Inr (b\<lparr>button := btn\<rparr>) \<and> button_out btn = button_out (button b)"
proof (cases buf rule: rev_cases)
  case Nil
  then show ?thesis by (intro exI [of _ "button b"]) (simp add: board_user_input_def)
next
  case (snoc ys y)
  have "\<not> pin_is_pulled_input (gpio_a b) 0"
    using assms by (simp add: button_dead_def pin_is_pulled_input_def pin_mask_and_0_iff)
  then show ?thesis using assms snoc
    by (intro exI [of _ "(button b)\<lparr>buttonState := y\<rparr>"])
      (simp add: board_user_input_def button_dead_def board_wired_def stm32_receive_port_a button_latch_def)
qed

lemma gpio_write_keeps:
  assumes "stm32_gpio_write s offset v w = Inr (s', w')"
  shows "ind s' = ind s" "irq_out s' = irq_out s" "pupd s' = (if offset = 0x0C then v else pupd s)"
  using assms by (auto simp: stm32_gpio_write_def stm32_gpio_update_eq Let_def split: if_splits)

lemma button_dead_step:
  assumes "button_dead chardevs b" "board_step e (b, io) = Inr (b', io')" "\<not> pulls_button e"
  shows "button_dead chardevs b'"
proof (cases e)
  case (user_input buf)
  then show ?thesis using assms button_dead_input [OF assms(1), of buf] by (auto simp: button_dead_def board_wired_def)
next
  case (write_a offset v)
  obtain s w where w: "stm32_gpio_write (gpio_a b) offset v () = Inr (s, w)" "b' = b\<lparr>gpio_a := s\<rparr>"
    using assms(2) by (auto simp: write_a board_write_a_def)
  show ?thesis using assms(1,3) gpio_write_keeps [OF w(1)]
    by (auto simp: w(2) write_a button_dead_def board_wired_def split: if_splits)
next
  case (write_b offset v)
  obtain s w where w: "stm32_gpio_write (gpio_b b) offset v io = Inr (s, w)" "b' = b\<lparr>gpio_b := s\<rparr>"
    using assms(2) by (auto simp: write_b board_write_b_def)
  show ?thesis using assms(1) gpio_write_keeps [OF w(1)] by (simp add: w(2) button_dead_def board_wired_def)
qed

lemma button_dead_run:
  assumes "button_dead chardevs b" "foldE board_step es (b, io) = Inr (b', io')" "\<forall>e\<in>set es. \<not> pulls_button e"
  shows "button_dead chardevs b'"
  using assms
proof (induction es arbitrary: b io)
  case (Cons e es)
  then obtain b1 io1 where "board_step e (b, io) = Inr (b1, io1)" "foldE board_step es (b1, io1) = Inr (b', io')" by auto
  then show ?case using Cons.IH [of b1 io1] Cons.prems(1,3) button_dead_step [of chardevs b e io b1 io1] by simp
qed simp

lemma wired_events_run:
  assumes "board_wired chardevs b"
    "\<forall>e\<in>set es. case e of user_input _ \<Rightarrow> True | write_a offset _ \<Rightarrow> offset = 0x00 | write_b offset _ \<Rightarrow> offset = 0x14"
  shows "\<exists>b' io'. foldE board_step es (b, io) = Inr (b', io')"
  using assms
proof (induction es arbitrary: b io)
  case (Cons e es)
  obtain b1 io1 where "board_step e (b, io) = Inr (b1, io1)" "board_wired chardevs b1"
  proof (cases e)
    case (user_input buf)
    then show ?thesis using that Cons.prems(1)
      by (cases buf rule: rev_cases) (auto simp: board_user_input_def board_wired_def stm32_receive_port_a)
  next
    case (write_a offset v)
    then show ?thesis using that Cons.prems by (auto simp: board_write_a_def stm32_gpio_write_def board_wired_def)
  next
    case (write_b offset v)
    then show ?thesis using that Cons.prems
      by (auto simp: board_write_b_def stm32_gpio_write_def board_wired_def stm32_gpio_update_eq)
  qed
  then show ?case using Cons.IH [of b1 io1] Cons.prems(2) by simp
qed simp

text \<open>
  C23: the board always comes up wired, and as it comes up the button is dead: after any sequence of
  bytes from the user and guest writes to the registers of ports A and B, as long as none of the writes
  gives pin 0 of port A a pull resistor, the board is still wired, the input register of port A still
  reads zero and whatever the user sends is taken and leaves port A as it is.
\<close>

theorem board_init_wired:
  "\<exists>b. stm32l152rbt6_init_devices chardevs = Inr b \<and> board_wired chardevs b \<and>
     (\<forall>es io b' io'. (\<forall>e\<in>set es. \<not> pulls_button e) \<longrightarrow> foldE board_step es (b, io) = Inr (b', io') \<longrightarrow>
        board_wired chardevs b' \<and> stm32_gpio_read (gpio_a b') 0x10 = Inr 0 \<and>
        (\<forall>buf. \<exists>b''. board_user_input buf b' = Inr b'' \<and> gpio_a b'' = gpio_a b'))"
proof -
  obtain b where b: "stm32l152rbt6_init_devices chardevs = Inr b" "board_wired chardevs b"
    and ga: "gpio_a b = stm32_gpio_reset (stm32_gpio_zero\<lparr>gpio_id := CHR ''A''\<rparr>)"
    using stm32l152rbt6_init_devices_ok by blast
  have d: "button_dead chardevs b"
    using b(2) by (simp add: button_dead_def ga stm32_gpio_reset_def stm32_gpio_zero_def pin_mask_def)
  have "board_wired chardevs b' \<and> stm32_gpio_read (gpio_a b') 0x10 = Inr 0 \<and>
      (\<forall>buf. \<exists>b''. board_user_input buf b' = Inr b'' \<and> gpio_a b'' = gpio_a b')"
    if "\<forall>e\<in>set es. \<not> pulls_button e" "foldE board_step es (b, io) = Inr (b', io')" for es io b' io'
    using button_dead_run [OF d that(2,1)] button_dead_input [of chardevs b']
    by (force simp: button_dead_def stm32_gpio_read_def)
  then show ?thesis using b by blast
qed

theorem board_init_wired_witness:
  "\<exists>b b' :: (unit, unit) stm32_board. stm32l152rbt6_init_devices [] = Inr b \<and>
     foldE board_step [user_input [1], write_a 0x00 0, write_b 0x14 0x40, user_input [0, 1]] (b, ()) = Inr (b', ()) \<and>
     stm32_gpio_read (gpio_a b') 0x10 = Inr 0"
proof -
  let ?es = "[user_input [1], write_a 0x00 0, write_b 0x14 0x40, user_input [0, 1]]"
  obtain b :: "(unit, unit) stm32_board" where b: "stm32l152rbt6_init_devices [] = Inr b" "board_wired [] b"
    and r: "\<forall>es io b' io'. (\<forall>e\<in>set es. \<not> pulls_button e) \<longrightarrow> foldE board_step es (b, io) = Inr (b', io') \<longrightarrow>
      board_wired [] b' \<and> stm32_gpio_read (gpio_a b') 0x10 = Inr 0 \<and>
        (\<forall>buf. \<exists>b''. board_user_input buf b' = Inr b'' \<and> gpio_a b'' = gpio_a b')"
    using board_init_wired [of "[] :: (unit, unit) CharDriverState list"] by (elim exE conjE)
  have "\<forall>e\<in>set ?es. \<not> pulls_button e" by simp
  moreover obtain b' where b': "foldE board_step ?es (b, ()) = Inr (b', ())"
    using wired_events_run [OF b(2), of ?es "()"] by auto
  ultimately show ?thesis using b(1) r by blast
qed

end
