(* ===== verification/Stm32_Rcc.thy ===== *)
theory Stm32_Rcc
  imports Prelude
begin

text \<open>
  The reset and clock control block (\<open>hw/stm32_rcc.c\<close>): fourteen 32-bit registers that
  are plain storage, the handlers that read and write them, and their reset values.
\<close>

record stm32_rcc_state =
  CR :: u32
  ICSCR :: u32
  CFGR :: u32
  CIR :: u32
  AHBRSTR :: u32
  APB2RSTR :: u32
  APB1RSTR :: u32
  AHBENR :: u32
  APB2ENR :: u32
  APB1ENR :: u32
  AHBLPENR :: u32
  APB2LPENR :: u32
  APB1LPENR :: u32
  CSR :: u32

definition stm32_rcc_update :: "stm32_rcc_state \<Rightarrow> stm32_rcc_state" where
  "stm32_rcc_update s = s"

definition stm32_rcc_read :: "stm32_rcc_state \<Rightarrow> u32 \<Rightarrow> u32 res" where
  "stm32_rcc_read s offset =
     (if offset = 0x00 then Inr (CR s)
      else if offset = 0x04 then Inr (ICSCR s)
      else if offset = 0x08 then Inr (CFGR s)
      else if offset = 0x0C then Inr (CIR s)
      else if offset = 0x10 then Inr (AHBRSTR s)
      else if offset = 0x14 then Inr (APB2RSTR s)
      else if offset = 0x18 then Inr (APB1RSTR s)
      else if offset = 0x1C then Inr (AHBENR s)
      else if offset = 0x20 then Inr (APB2ENR s)
      else if offset = 0x24 then Inr (APB1ENR s)
      else if offset = 0x28 then Inr (AHBLPENR s)
      else if offset = 0x2C then Inr (APB2LPENR s)
      else if offset = 0x30 then Inr (APB1LPENR s)
      else if offset = 0x34 then Inr (CSR s)
      else Inl (hw_error ''stm32_rcc_read: Bad offset''))"

definition stm32_rcc_write :: "stm32_rcc_state \<Rightarrow> u32 \<Rightarrow> u32 \<Rightarrow> stm32_rcc_state res" where
  "stm32_rcc_write s offset value =
     bindE
       (if offset = 0x00 then Inr (s\<lparr>CR := value\<rparr>)
        else if offset = 0x04 then Inr (s\<lparr>ICSCR := value\<rparr>)
        else if offset = 0x08 then Inr (s\<lparr>CFGR := value\<rparr>)
        else if offset = 0x0C then Inr (s\<lparr>CIR := value\<rparr>)
        else if offset = 0x10 then Inr (s\<lparr>AHBRSTR := value\<rparr>)
        else if offset = 0x14 then Inr (s\<lparr>APB2RSTR := value\<rparr>)
        else if offset = 0x18 then Inr (s\<lparr>APB1RSTR := value\<rparr>)
        else if offset = 0x1C then Inr (s\<lparr>AHBENR := value\<rparr>)
        else if offset = 0x20 then Inr (s\<lparr>APB2ENR := value\<rparr>)
        else if offset = 0x24 then Inr (s\<lparr>APB1ENR := value\<rparr>)
        else if offset = 0x28 then Inr (s\<lparr>AHBLPENR := value\<rparr>)
        else if offset = 0x2C then Inr (s\<lparr>APB2LPENR := value\<rparr>)
        else if offset = 0x30 then Inr (s\<lparr>APB1LPENR := value\<rparr>)
        else if offset = 0x34 then Inr (s\<lparr>CSR := value\<rparr>)
        else Inl (hw_error ''stm32_rcc_write: Bad offset''))
       (\<lambda>s'. Inr (stm32_rcc_update s'))"

definition stm32_rcc_reset :: "stm32_rcc_state \<Rightarrow> stm32_rcc_state" where
  "stm32_rcc_reset s =
     s\<lparr>CR := 0x00000300, ICSCR := 0x0000B000, CFGR := 0, CIR := 0, AHBRSTR := 0,
       APB2RSTR := 0, APB1RSTR := 0, AHBENR := 0x00008000, APB2ENR := 0, APB1ENR := 0,
       AHBLPENR := 0x0101903F, APB2LPENR := 0x0000521D, APB1LPENR := 0xB0E64A37,
       CSR := 0x0C000000\<rparr>"

text \<open>The block is a memory of fourteen words: offset \<open>4 * i\<close> is word \<open>i\<close>.\<close>

definition rcc_words :: "stm32_rcc_state \<Rightarrow> u32 list" where
  "rcc_words s =
     [CR s, ICSCR s, CFGR s, CIR s, AHBRSTR s, APB2RSTR s, APB1RSTR s, AHBENR s, APB2ENR s,
      APB1ENR s, AHBLPENR s, APB2LPENR s, APB1LPENR s, CSR s]"

definition rcc_index :: "u32 \<Rightarrow> nat option" where
  "rcc_index offset =
     (if offset \<in> set (map (\<lambda>i. 4 * of_nat i) [0..<14]) then Some (unat offset div 4) else None)"

lemma rcc_offsets:
  "set (map (\<lambda>i. 4 * of_nat i) [0..<14]) =
     {0x00, 0x04, 0x08, 0x0C, 0x10, 0x14, 0x18, 0x1C, 0x20, 0x24, 0x28, 0x2C, 0x30, 0x34 :: u32}"
  by code_simp

lemma rcc_read_index:
  "stm32_rcc_read s offset =
     (case rcc_index offset of
        Some i \<Rightarrow> Inr (rcc_words s ! i)
      | None \<Rightarrow> Inl (hw_error ''stm32_rcc_read: Bad offset''))"
  unfolding rcc_index_def rcc_offsets by (auto simp: stm32_rcc_read_def rcc_words_def)

lemma rcc_write_index:
  "map_sum id rcc_words (stm32_rcc_write s offset value) =
     (case rcc_index offset of
        Some i \<Rightarrow> Inr ((rcc_words s)[i := value])
      | None \<Rightarrow> Inl (hw_error ''stm32_rcc_write: Bad offset''))"
  unfolding rcc_index_def rcc_offsets
  by (auto simp: stm32_rcc_write_def rcc_words_def stm32_rcc_update_def)

lemma rcc_index_inj: "rcc_index a = Some i \<Longrightarrow> rcc_index b = Some i \<Longrightarrow> a = b"
  unfolding rcc_index_def rcc_offsets by (auto split: if_splits)

interpretation rcc: register_file stm32_rcc_read stm32_rcc_write rcc_words rcc_index
proof (unfold_locales, goal_cases)
  case (1 a i s)
  then show ?case unfolding rcc_index_def rcc_offsets
    by (auto simp: rcc_words_def split: if_splits)
next
  case (2 a i b)
  then show ?case by (rule rcc_index_inj)
next
  case (3 a i s)
  then show ?case by (simp add: rcc_read_index)
next
  case (4 a i s v)
  then show ?case using rcc_write_index [of s a v]
    by (cases "stm32_rcc_write s a v") auto
next
  case (5 a s v)
  then show ?case using rcc_write_index [of s a v]
    by (cases "stm32_rcc_write s a v") auto
qed

section \<open>Properties\<close>

text \<open>
  C35: the clock control registers are independent storage: after a successful write, the
  written register reads back the value and every other register is unchanged.
\<close>

theorem rcc_read_after_write:
  assumes "stm32_rcc_write s a v = Inr t" and "rcc_index b = Some j"
  shows "stm32_rcc_read t b = (if b = a then Inr v else stm32_rcc_read s b)"
  using assms by (rule rcc.read_after_write)

theorem rcc_read_after_write_witness:
  "\<exists>t. stm32_rcc_write (stm32_rcc_reset \<lparr>CR = 0, ICSCR = 0, CFGR = 0, CIR = 0, AHBRSTR = 0,
     APB2RSTR = 0, APB1RSTR = 0, AHBENR = 0, APB2ENR = 0, APB1ENR = 0, AHBLPENR = 0,
     APB2LPENR = 0, APB1LPENR = 0, CSR = 0\<rparr>) 0x1C 3 = Inr t \<and> stm32_rcc_read t 0x1C = Inr 3 \<and> stm32_rcc_read t 0x00 = Inr 0x300"
proof -
  let ?s = "stm32_rcc_reset \<lparr>CR = 0, ICSCR = 0, CFGR = 0, CIR = 0, AHBRSTR = 0,
     APB2RSTR = 0, APB1RSTR = 0, AHBENR = 0, APB2ENR = 0, APB1ENR = 0, AHBLPENR = 0,
     APB2LPENR = 0, APB1LPENR = 0, CSR = 0\<rparr>"
  have w: "stm32_rcc_write ?s 0x1C 3 = Inr (?s\<lparr>AHBENR := 3\<rparr>)"
    by (simp add: stm32_rcc_write_def stm32_rcc_update_def)
  have i: "rcc_index 0x00 = Some 0" "rcc_index 0x1C = Some 7"
    unfolding rcc_index_def rcc_offsets by simp_all
  have "stm32_rcc_read ?s 0x00 = Inr 0x300" by (simp add: stm32_rcc_read_def stm32_rcc_reset_def)
  then show ?thesis using w rcc_read_after_write [OF w i(1)] rcc_read_after_write [OF w i(2)] by auto
qed

end
