(* ===== verification/Int128.thy ===== *)
theory Int128
  imports Prelude
begin

text \<open>
  The 128-bit integers of \<open>int128.h\<close>, two 64-bit halves with the carry propagated by hand.
  The lemmas show that the operations are those of 128-bit two's complement words, and
  that they are the operations of the integers as long as the values stay within 127
  bits. The model of \<open>memory.c\<close>, whose addresses and sizes lie between \<open>-2\<^sup>6\<^sup>5\<close> and \<open>2\<^sup>6\<^sup>5\<close>,
  uses the type \<open>int\<close> for \<open>Int128\<close> on this ground.
\<close>

section \<open>Operations\<close>

text \<open>\<open>hi\<close> is an \<open>int64_t\<close>; its sign is read with \<open>sint\<close>.\<close>

record Int128 =
  lo :: u64
  hi :: u64

definition int128_make64 :: "u64 \<Rightarrow> Int128" where
  "int128_make64 a = \<lparr>lo = a, hi = 0\<rparr>"

definition int128_get64 :: "Int128 \<Rightarrow> u64 res" where
  "int128_get64 a = (if hi a \<noteq> 0 then Inl (assert_failed ''!a.hi'') else Inr (lo a))"

definition int128_zero :: Int128 where
  "int128_zero = int128_make64 0"

definition int128_one :: Int128 where
  "int128_one = int128_make64 1"

definition int128_2_64 :: Int128 where
  "int128_2_64 = \<lparr>lo = 0, hi = 1\<rparr>"

definition int128_add :: "Int128 \<Rightarrow> Int128 \<Rightarrow> Int128" where
  "int128_add a b =
     (let r_lo = lo a + lo b
      in \<lparr>lo = r_lo, hi = hi a + hi b + (if r_lo < lo a \<or> r_lo < lo b then 1 else 0)\<rparr>)"

definition int128_neg :: "Int128 \<Rightarrow> Int128" where
  "int128_neg a = int128_add \<lparr>lo = NOT (lo a), hi = NOT (hi a)\<rparr> int128_one"

definition int128_sub :: "Int128 \<Rightarrow> Int128 \<Rightarrow> Int128" where
  "int128_sub a b = int128_add a (int128_neg b)"

definition int128_nonneg :: "Int128 \<Rightarrow> bool" where
  "int128_nonneg a \<longleftrightarrow> 0 \<le> sint (hi a)"

definition int128_eq :: "Int128 \<Rightarrow> Int128 \<Rightarrow> bool" where
  "int128_eq a b \<longleftrightarrow> lo a = lo b \<and> hi a = hi b"

definition int128_ne :: "Int128 \<Rightarrow> Int128 \<Rightarrow> bool" where
  "int128_ne a b \<longleftrightarrow> \<not> int128_eq a b"

definition int128_ge :: "Int128 \<Rightarrow> Int128 \<Rightarrow> bool" where
  "int128_ge a b \<longleftrightarrow> int128_nonneg (int128_sub a b)"

definition int128_lt :: "Int128 \<Rightarrow> Int128 \<Rightarrow> bool" where
  "int128_lt a b \<longleftrightarrow> \<not> int128_ge a b"

definition int128_le :: "Int128 \<Rightarrow> Int128 \<Rightarrow> bool" where
  "int128_le a b \<longleftrightarrow> int128_ge b a"

definition int128_gt :: "Int128 \<Rightarrow> Int128 \<Rightarrow> bool" where
  "int128_gt a b \<longleftrightarrow> \<not> int128_le a b"

definition int128_nz :: "Int128 \<Rightarrow> bool" where
  "int128_nz a \<longleftrightarrow> lo a \<noteq> 0 \<or> hi a \<noteq> 0"

definition int128_min :: "Int128 \<Rightarrow> Int128 \<Rightarrow> Int128" where
  "int128_min a b = (if int128_le a b then a else b)"

definition int128_max :: "Int128 \<Rightarrow> Int128 \<Rightarrow> Int128" where
  "int128_max a b = (if int128_ge a b then a else b)"

text \<open>The number a pair of halves stands for, and the pair of a number.\<close>

definition int128_val :: "Int128 \<Rightarrow> int" where
  "int128_val a = uint (lo a) + 2 ^ 64 * sint (hi a)"

definition int128_of_int :: "int \<Rightarrow> Int128" where
  "int128_of_int x = \<lparr>lo = word_of_int x, hi = word_of_int (x div 2 ^ 64)\<rparr>"

section \<open>Lemmas\<close>

lemma int128_val_bounds: "- (2 ^ 127) \<le> int128_val a" "int128_val a < 2 ^ 127"
proof -
  have h: "- (2 ^ 63) \<le> sint (hi a)" "sint (hi a) \<le> 2 ^ 63 - 1"
    using sint_ge [of "hi a"] sint_lt [of "hi a"] by simp_all
  have l: "0 \<le> uint (lo a)" "uint (lo a) < 2 ^ 64"
    using uint_lt2p [of "lo a"] by simp_all
  have "- (2 ^ 127) \<le> 2 ^ 64 * sint (hi a)" "2 ^ 64 * sint (hi a) \<le> 2 ^ 127 - 2 ^ 64"
    using h by simp_all
  then show "- (2 ^ 127) \<le> int128_val a" "int128_val a < 2 ^ 127"
    unfolding int128_val_def using l by linarith+
qed

lemma int128_val_eqI:
  assumes "int128_val a = x + 2 ^ 128 * k" and "- (2 ^ 127) \<le> x" and "x < 2 ^ 127"
  shows "int128_val a = x"
  using assms int128_val_bounds [of a] by auto

text \<open>Two numbers that agree modulo \<open>2\<^sup>1\<^sup>2\<^sup>8\<close>.\<close>

lemma sint_add_wrap: "\<exists>k. sint (a + b :: u64) = sint a + sint b + 2 ^ 64 * k"
proof -
  have "sint (a + b) = signed_take_bit 63 (sint a + sint b)"
    by (simp add: sint_word_ariths)
  also have "\<dots> = take_bit 64 (sint a + sint b + 2 ^ 63) - 2 ^ 63"
    by (simp add: signed_take_bit_eq_take_bit_shift)
  also have "\<dots> = sint a + sint b + 2 ^ 64 * (- ((sint a + sint b + 2 ^ 63) div 2 ^ 64))"
    by (simp add: take_bit_eq_mod minus_mult_div_eq_mod [symmetric])
  finally show ?thesis by blast
qed

lemma add_carry:
  fixes a b :: u64
  shows "uint (a + b) =
     uint a + uint b - 2 ^ 64 * (if a + b < a \<or> a + b < b then 1 else 0)"
  using uint_lt2p [of a] uint_lt2p [of b] by (simp add: word_less_def uint_plus_if')

lemma int128_add_mod: "\<exists>k. int128_val (int128_add a b) = int128_val a + int128_val b + 2 ^ 128 * k"
proof -
  let ?c = "(if lo a + lo b < lo a \<or> lo a + lo b < lo b then 1 else 0) :: u64"
  let ?ci = "(if lo a + lo b < lo a \<or> lo a + lo b < lo b then 1 else 0) :: int"
  obtain k1 where k1: "sint (hi a + hi b) = sint (hi a) + sint (hi b) + 2 ^ 64 * k1"
    using sint_add_wrap by blast
  obtain k2 where k2: "sint (hi a + hi b + ?c) = sint (hi a + hi b) + sint ?c + 2 ^ 64 * k2"
    using sint_add_wrap by blast
  have "sint ?c = ?ci" by simp
  then have "int128_val (int128_add a b) = int128_val a + int128_val b + 2 ^ 128 * (k1 + k2)"
    using k1 k2 add_carry [of "lo a" "lo b"]
    by (simp add: int128_val_def int128_add_def Let_def algebra_simps)
  then show ?thesis by blast
qed

lemma sint_not: "sint (NOT (x :: u64)) = - sint x - 1"
proof -
  have "- (2 ^ 63) \<le> sint x" "sint x < 2 ^ 63"
    using sint_ge [of x] sint_lt [of x] by simp_all
  then have "signed_take_bit 64 (- sint x - 1) = - sint x - 1"
    by (intro signed_take_bit_int_eq_self) simp_all
  then show ?thesis by (simp add: signed_not_eq not_int_def)
qed

lemma uint_not: "uint (NOT (x :: u64)) = 2 ^ 64 - 1 - uint x"
proof -
  have "uint (NOT x) = (- uint x - 1) mod 2 ^ 64"
    by (simp add: unsigned_not_eq not_int_def take_bit_eq_mod)
  also have "\<dots> = ((- uint x - 1) + 2 ^ 64) mod 2 ^ 64"
    by (simp only: mod_add_self2)
  also have "\<dots> = (- uint x - 1) + 2 ^ 64"
  proof (rule mod_pos_pos_trivial)
    have "uint x < 2 ^ 64" using uint_lt2p [of x] by simp
    then show "0 \<le> (- uint x - 1) + 2 ^ 64" by linarith
    have "0 \<le> uint x" by simp
    then show "(- uint x - 1) + 2 ^ 64 < 2 ^ 64" by linarith
  qed
  finally show ?thesis by simp
qed

lemma int128_neg_mod: "\<exists>k. int128_val (int128_neg a) = - int128_val a + 2 ^ 128 * k"
proof -
  let ?n = "\<lparr>lo = NOT (lo a), hi = NOT (hi a)\<rparr> :: Int128"
  obtain k where "int128_val (int128_neg a) = int128_val ?n + int128_val int128_one + 2 ^ 128 * k"
    unfolding int128_neg_def using int128_add_mod by blast
  moreover have "int128_val ?n = - int128_val a - 1"
    by (simp add: int128_val_def sint_not uint_not)
  moreover have "int128_val int128_one = 1"
    by (simp add: int128_val_def int128_one_def int128_make64_def)
  ultimately show ?thesis by auto
qed

lemma int128_sub_mod: "\<exists>k. int128_val (int128_sub a b) = int128_val a - int128_val b + 2 ^ 128 * k"
proof -
  obtain k where "int128_val (int128_sub a b) = int128_val a + int128_val (int128_neg b) + 2 ^ 128 * k"
    unfolding int128_sub_def using int128_add_mod by blast
  moreover obtain k' where "int128_val (int128_neg b) = - int128_val b + 2 ^ 128 * k'"
    using int128_neg_mod by blast
  ultimately have "int128_val (int128_sub a b) = int128_val a - int128_val b + 2 ^ 128 * (k + k')"
    by (simp add: algebra_simps)
  then show ?thesis by blast
qed

lemma int128_nonneg_val: "int128_nonneg a \<longleftrightarrow> 0 \<le> int128_val a"
proof -
  have "0 \<le> uint (lo a)" "uint (lo a) < 2 ^ 64"
    using uint_lt2p [of "lo a"] by simp_all
  then show ?thesis by (auto simp: int128_nonneg_def int128_val_def)
qed

lemma int128_val_inject: "int128_val a = int128_val b \<longleftrightarrow> a = b"
proof
  assume eq: "int128_val a = int128_val b"
  have "uint (lo a) = int128_val a mod 2 ^ 64" "uint (lo b) = int128_val b mod 2 ^ 64"
    using uint_lt2p [of "lo a"] uint_lt2p [of "lo b"] by (simp_all add: int128_val_def)
  with eq have lo: "uint (lo a) = uint (lo b)" by simp
  with eq have "sint (hi a) = sint (hi b)" by (simp add: int128_val_def)
  then have "hi a = hi b" by (rule signed_word_eqI)
  moreover have "lo a = lo b" using lo by (rule unsigned_word_eqI)
  ultimately show "a = b" by (cases a; cases b) simp
qed simp

section \<open>Properties\<close>

text \<open>
  C34: within 126 bits the two-halves arithmetic is integer arithmetic: sum, difference,
  negation, all six comparisons, the tests for zero and for the sign, minimum and maximum
  of two values are those of the integers they stand for.
\<close>

theorem int128_refines_int:
  assumes "\<bar>int128_val a\<bar> < 2 ^ 126" and "\<bar>int128_val b\<bar> < 2 ^ 126"
  shows "int128_val (int128_add a b) = int128_val a + int128_val b \<and>
    int128_val (int128_sub a b) = int128_val a - int128_val b \<and>
    int128_val (int128_neg a) = - int128_val a \<and>
    (int128_eq a b \<longleftrightarrow> int128_val a = int128_val b) \<and>
    (int128_ne a b \<longleftrightarrow> int128_val a \<noteq> int128_val b) \<and>
    (int128_le a b \<longleftrightarrow> int128_val a \<le> int128_val b) \<and>
    (int128_gt a b \<longleftrightarrow> int128_val b < int128_val a) \<and>
    (int128_nonneg a \<longleftrightarrow> 0 \<le> int128_val a) \<and>
    (int128_ge a b \<longleftrightarrow> int128_val b \<le> int128_val a) \<and>
    (int128_lt a b \<longleftrightarrow> int128_val a < int128_val b) \<and>
    (int128_nz a \<longleftrightarrow> int128_val a \<noteq> 0) \<and>
    int128_val (int128_min a b) = min (int128_val a) (int128_val b) \<and>
    int128_val (int128_max a b) = max (int128_val a) (int128_val b)"
proof -
  have add: "int128_val (int128_add a b) = int128_val a + int128_val b"
    using int128_add_mod [of a b] int128_val_eqI assms by fastforce
  have sub: "int128_val (int128_sub c d) = int128_val c - int128_val d"
    if "c \<in> {a, b}" "d \<in> {a, b}" for c d
    using int128_sub_mod [of c d] int128_val_eqI that assms by fastforce
  have neg: "int128_val (int128_neg a) = - int128_val a"
    using int128_neg_mod [of a] int128_val_eqI assms by fastforce
  have ge: "int128_ge c d \<longleftrightarrow> int128_val d \<le> int128_val c" if "c \<in> {a, b}" "d \<in> {a, b}" for c d
    using sub [OF that] by (simp add: int128_ge_def int128_nonneg_val)
  have "int128_val \<lparr>lo = 0, hi = 0\<rparr> = 0" by (simp add: int128_val_def)
  then have nz: "int128_nz a \<longleftrightarrow> int128_val a \<noteq> 0"
    using int128_val_inject [of a "\<lparr>lo = 0, hi = 0\<rparr>"] by (auto simp: int128_nz_def)
  have eq: "int128_eq a b \<longleftrightarrow> int128_val a = int128_val b"
    by (auto simp: int128_eq_def int128_val_inject)
  show ?thesis
    using add sub [of a b] neg ge [of a b] ge [of b a] nz eq int128_nonneg_val [of a]
    by (simp add: int128_ne_def int128_gt_def int128_lt_def int128_min_def int128_max_def int128_le_def not_le min_def max_def)
qed

theorem int128_refines_int_witness:
  "int128_val (int128_add (int128_make64 18446744073709551615) (int128_make64 1)) = 2 ^ 64"
proof -
  have "\<bar>int128_val (int128_make64 18446744073709551615)\<bar> < 2 ^ 126"
    "\<bar>int128_val (int128_make64 1)\<bar> < 2 ^ 126"
    by (simp_all add: int128_val_def int128_make64_def)
  from int128_refines_int [OF this] show ?thesis
    by (simp add: int128_val_def int128_make64_def)
qed

end
