(* ===== verification/Memory_Flat.thy ===== *)
theory Memory_Flat
  imports Int128
begin

text \<open>
  The flat view of the guest's physical memory (\<open>memory.c\<close>): address ranges, the store of
  memory regions with their subregions and aliases, the rendering of a region tree into a
  sorted list of ranges, and the merging of adjacent ranges. \<open>Int128\<close> values are integers
  here (theory \<open>Int128\<close>); \<open>target_phys_addr_t\<close> is the 32-bit type of the ARM target.

  A memory region is a record in a store indexed by its address (\<open>mr_id\<close>), because
  aliases, parents and subregion lists are pointers to shared regions. Rendering follows
  these pointers and is given fuel; a store with a rank that decreases along them never
  exhausts it (\<open>render_total\<close>).
\<close>

section \<open>Address ranges\<close>

record AddrRange =
  ar_start :: int
  ar_size :: int

definition addrrange_make :: "int \<Rightarrow> int \<Rightarrow> AddrRange" where
  "addrrange_make s z = \<lparr>ar_start = s, ar_size = z\<rparr>"

definition addrrange_equal :: "AddrRange \<Rightarrow> AddrRange \<Rightarrow> bool" where
  "addrrange_equal r1 r2 \<longleftrightarrow> ar_start r1 = ar_start r2 \<and> ar_size r1 = ar_size r2"

definition addrrange_end :: "AddrRange \<Rightarrow> int" where
  "addrrange_end r = ar_start r + ar_size r"

definition addrrange_shift :: "AddrRange \<Rightarrow> int \<Rightarrow> AddrRange" where
  "addrrange_shift r delta = r\<lparr>ar_start := ar_start r + delta\<rparr>"

definition addrrange_contains :: "AddrRange \<Rightarrow> int \<Rightarrow> bool" where
  "addrrange_contains r a \<longleftrightarrow> ar_start r \<le> a \<and> a < addrrange_end r"

definition addrrange_intersects :: "AddrRange \<Rightarrow> AddrRange \<Rightarrow> bool" where
  "addrrange_intersects r1 r2 \<longleftrightarrow>
     addrrange_contains r1 (ar_start r2) \<or> addrrange_contains r2 (ar_start r1)"

definition addrrange_intersection :: "AddrRange \<Rightarrow> AddrRange \<Rightarrow> AddrRange" where
  "addrrange_intersection r1 r2 =
     (let s = max (ar_start r1) (ar_start r2);
          e = min (addrrange_end r1) (addrrange_end r2)
      in addrrange_make s (e - s))"

text \<open>\<open>int128_get64\<close> on an integer: the assertion fails outside \<open>0 .. 2\<^sup>6\<^sup>4 - 1\<close>.\<close>

definition get64 :: "int \<Rightarrow> u64 res" where
  "get64 x = (if 0 \<le> x \<and> x < 2 ^ 64 then Inr (word_of_int x) else Inl (assert_failed ''!a.hi''))"

section \<open>Memory regions and flat ranges\<close>

type_synonym phys_addr = u32
type_synonym mr_id = nat

datatype mr_destructor =
    memory_region_destructor_none
  | memory_region_destructor_ram
  | memory_region_destructor_ram_from_ptr
  | memory_region_destructor_iomem
  | memory_region_destructor_rom_device

record MemoryRegionIoeventfd =
  ev_addr :: AddrRange
  match_data :: bool
  ev_data :: u64
  ev_fd :: int

text \<open>
  The operations table and the opaque pointer of a region are arguments of the access
  functions (theory \<open>Memory_Access\<close>); \<open>iorange\<close> belongs to the port layer.
\<close>

record MemoryRegion =
  parent :: "mr_id option"
  mr_size :: int
  mr_addr :: phys_addr
  mr_offset :: phys_addr
  backend_registered :: bool
  destructor :: mr_destructor
  ram_addr :: u64
  terminates :: bool
  readable :: bool
  readonly :: bool
  mr_alias :: "mr_id option"
  alias_offset :: phys_addr
  priority :: u32
  may_overlap :: bool
  subregions :: "mr_id list"
  coalesced :: "AddrRange list"
  mr_name :: string
  dirty_log_mask :: u8
  ioeventfds :: "MemoryRegionIoeventfd list"

type_synonym mr_store = "mr_id \<Rightarrow> MemoryRegion"

record FlatRange =
  fr_mr :: mr_id
  offset_in_region :: phys_addr
  fr_addr :: AddrRange
  fr_dirty_log_mask :: u8
  fr_readable :: bool
  fr_readonly :: bool

text \<open>The array of a \<open>FlatView\<close> with its length; the allocated capacity is not modelled.\<close>

type_synonym FlatView = "FlatRange list"

definition flatrange_equal :: "FlatRange \<Rightarrow> FlatRange \<Rightarrow> bool" where
  "flatrange_equal a b \<longleftrightarrow>
     fr_mr a = fr_mr b \<and>
     addrrange_equal (fr_addr a) (fr_addr b) \<and>
     offset_in_region a = offset_in_region b \<and>
     fr_readable a = fr_readable b \<and>
     fr_readonly a = fr_readonly b"

definition flatview_init :: FlatView where
  "flatview_init = []"

definition flatview_insert :: "FlatView \<Rightarrow> nat \<Rightarrow> FlatRange \<Rightarrow> FlatView" where
  "flatview_insert view pos fr = take pos view @ fr # drop pos view"

definition can_merge :: "FlatRange \<Rightarrow> FlatRange \<Rightarrow> bool" where
  "can_merge r1 r2 \<longleftrightarrow>
     addrrange_end (fr_addr r1) = ar_start (fr_addr r2) \<and>
     fr_mr r1 = fr_mr r2 \<and>
     uint (offset_in_region r1) + ar_size (fr_addr r1) = uint (offset_in_region r2) \<and>
     fr_dirty_log_mask r1 = fr_dirty_log_mask r2 \<and>
     fr_readable r1 = fr_readable r2 \<and>
     fr_readonly r1 = fr_readonly r2"

text \<open>
  The inner loop of \<open>flatview_simplify\<close>: \<open>a\<close> is \<open>ranges[i]\<close>, which grows, \<open>p\<close> is
  \<open>ranges[j-1]\<close> and the list starts at \<open>ranges[j]\<close>.
\<close>

fun merge_run :: "FlatRange \<Rightarrow> FlatRange \<Rightarrow> FlatView \<Rightarrow> FlatRange \<times> FlatView" where
  "merge_run a p [] = (a, [])"
| "merge_run a p (r # rs) =
     (if can_merge p r
      then merge_run (a\<lparr>fr_addr := (fr_addr a)\<lparr>ar_size := ar_size (fr_addr a) + ar_size (fr_addr r)\<rparr>\<rparr>) r rs
      else (a, r # rs))"

lemma merge_run_length: "merge_run a p rs = (a', rest) \<Longrightarrow> length rest \<le> length rs"
  by (induction a p rs rule: merge_run.induct) (auto split: if_splits)

function flatview_simplify :: "FlatView \<Rightarrow> FlatView" where
  "flatview_simplify [] = []"
| "flatview_simplify (r # rs) = (case merge_run r r rs of (a, rest) \<Rightarrow> a # flatview_simplify rest)"
  by pat_completeness auto

termination
  by (relation "measure length") (auto simp: less_Suc_eq_le dest: merge_run_length [OF sym])

section \<open>Rendering\<close>

definition make_range :: "mr_id \<Rightarrow> MemoryRegion \<Rightarrow> bool \<Rightarrow> int \<Rightarrow> int \<Rightarrow> phys_addr \<Rightarrow> FlatRange" where
  "make_range m mr ro base now off =
     \<lparr>fr_mr = m, offset_in_region = off, fr_addr = addrrange_make base now,
      fr_dirty_log_mask = dirty_log_mask mr, fr_readable = readable mr, fr_readonly = ro\<rparr>"

text \<open>
  The gap-filling loop of \<open>render_memory_region\<close> with its index \<open>i\<close>, and the insertion
  that follows it. A step first inserts a range in front of \<open>ranges[i]\<close> when \<open>base\<close> lies
  before it (the \<open>++i\<close> then moves back to the same range), and skips the addresses that
  \<open>ranges[i]\<close> already covers when \<open>base\<close> is its start.
\<close>

definition gap_before ::
  "(int \<Rightarrow> int \<Rightarrow> phys_addr \<Rightarrow> FlatRange) \<Rightarrow> FlatRange \<Rightarrow> int \<Rightarrow> int \<Rightarrow> phys_addr
    \<Rightarrow> (FlatRange option \<times> int \<times> int \<times> phys_addr) res" where
  "gap_before mk r base remain off =
     (if base < ar_start (fr_addr r)
      then let now = min remain (ar_start (fr_addr r) - base)
           in bindE (get64 now) (\<lambda>n. Inr (Some (mk base now off), base + now, remain - now, off + ucast n))
      else Inr (None, base, remain, off))"

definition skip_covered ::
  "FlatRange \<Rightarrow> int \<Rightarrow> int \<Rightarrow> phys_addr \<Rightarrow> (int \<times> int \<times> phys_addr) res" where
  "skip_covered r base remain off =
     (if base = ar_start (fr_addr r)
      then let now = min remain (ar_size (fr_addr r))
           in bindE (get64 now) (\<lambda>n. Inr (base + now, remain - now, off + ucast n))
      else Inr (base, remain, off))"

function render_gaps ::
  "(int \<Rightarrow> int \<Rightarrow> phys_addr \<Rightarrow> FlatRange) \<Rightarrow> FlatView \<Rightarrow> nat \<Rightarrow> int \<Rightarrow> int \<Rightarrow> phys_addr \<Rightarrow> FlatView res" where
  "render_gaps mk view i base remain off =
     (if i < length view \<and> remain \<noteq> 0 then
        (if addrrange_end (fr_addr (view ! i)) \<le> base
         then render_gaps mk view (Suc i) base remain off
         else bindE (gap_before mk (view ! i) base remain off) (\<lambda>(ins, base', remain', off').
              let view' = (case ins of None \<Rightarrow> view | Some fr \<Rightarrow> flatview_insert view i fr);
                  i' = (case ins of None \<Rightarrow> i | Some fr \<Rightarrow> Suc i)
              in bindE (skip_covered (view' ! i') base' remain' off') (\<lambda>(base', remain', off').
                 render_gaps mk view' (Suc i') base' remain' off')))
      else Inr (if remain \<noteq> 0 then flatview_insert view i (mk base remain off) else view))"
  by pat_completeness auto

termination
  by (relation "measure (\<lambda>(mk, view, i, base, remain, off). length view - i)")
    (auto simp: flatview_insert_def split: option.splits)

declare render_gaps.simps [simp del]

fun render_memory_region ::
  "nat \<Rightarrow> mr_store \<Rightarrow> FlatView \<Rightarrow> mr_id \<Rightarrow> int \<Rightarrow> AddrRange \<Rightarrow> bool \<Rightarrow> FlatView res" where
  "render_memory_region 0 \<sigma> view m base clip ro = Inl (no_termination ''render_memory_region'')"
| "render_memory_region (Suc n) \<sigma> view m base clip ro =
     (let mr = \<sigma> m;
          base = base + uint (mr_addr mr);
          ro = (ro \<or> readonly mr);
          tmp = addrrange_make base (mr_size mr)
      in if \<not> addrrange_intersects tmp clip then Inr view
         else let clip = addrrange_intersection tmp clip
         in case mr_alias mr of
              Some al \<Rightarrow>
                render_memory_region n \<sigma> view al
                  (base - uint (mr_addr (\<sigma> al)) - uint (alias_offset mr)) clip ro
            | None \<Rightarrow>
                bindE (foldE (\<lambda>s v. render_memory_region n \<sigma> v s base clip ro) (subregions mr) view)
                  (\<lambda>view.
                     if \<not> terminates mr then Inr view
                     else bindE (get64 (ar_start clip - base)) (\<lambda>off.
                       render_gaps (make_range m mr ro) view 0 (ar_start clip) (ar_size clip) (ucast off))))"

definition generate_memory_topology :: "nat \<Rightarrow> mr_store \<Rightarrow> mr_id \<Rightarrow> FlatView res" where
  "generate_memory_topology n \<sigma> m =
     bindE (render_memory_region n \<sigma> flatview_init m 0 (addrrange_make 0 (2 ^ 64)) False)
       (\<lambda>view. Inr (flatview_simplify view))"

section \<open>What an address of a view stands for\<close>

text \<open>
  The target of an address: the region, the offset in it and the attributes of the
  mapping. \<open>flat_lookup\<close> reads it off a view; \<open>resolve\<close> is the specification: the first
  hit in a walk through the regions, subregions in priority order before the region
  itself, aliases followed, everything clipped to the enclosing windows.
\<close>

type_synonym mem_target = "mr_id \<times> phys_addr \<times> u8 \<times> bool \<times> bool"

definition fr_at :: "FlatRange \<Rightarrow> int \<Rightarrow> mem_target" where
  "fr_at fr x = (fr_mr fr, offset_in_region fr + word_of_int (x - ar_start (fr_addr fr)),
     fr_dirty_log_mask fr, fr_readable fr, fr_readonly fr)"

fun flat_lookup :: "FlatView \<Rightarrow> int \<Rightarrow> mem_target option" where
  "flat_lookup [] x = None"
| "flat_lookup (r # rs) x =
     (if addrrange_contains (fr_addr r) x then Some (fr_at r x) else flat_lookup rs x)"

definition flat_ok :: "FlatView \<Rightarrow> bool" where
  "flat_ok v \<longleftrightarrow> sorted_wrt (\<lambda>a b. addrrange_end (fr_addr a) \<le> ar_start (fr_addr b)) v \<and>
     (\<forall>r\<in>set v. 0 < ar_size (fr_addr r))"

fun first_hit :: "('a \<Rightarrow> 'b option) \<Rightarrow> 'a list \<Rightarrow> 'b option" where
  "first_hit f [] = None"
| "first_hit f (x # xs) = (case f x of Some y \<Rightarrow> Some y | None \<Rightarrow> first_hit f xs)"

fun resolve :: "nat \<Rightarrow> mr_store \<Rightarrow> mr_id \<Rightarrow> int \<Rightarrow> AddrRange \<Rightarrow> bool \<Rightarrow> int \<Rightarrow> mem_target option" where
  "resolve 0 \<sigma> m base clip ro x = None"
| "resolve (Suc n) \<sigma> m base clip ro x =
     (let mr = \<sigma> m;
          base = base + uint (mr_addr mr);
          ro = (ro \<or> readonly mr)
      in if \<not> (addrrange_contains clip x \<and> base \<le> x \<and> x < base + mr_size mr) then None
         else let clip = addrrange_intersection (addrrange_make base (mr_size mr)) clip
         in case mr_alias mr of
              Some al \<Rightarrow>
                resolve n \<sigma> al (base - uint (mr_addr (\<sigma> al)) - uint (alias_offset mr)) clip ro x
            | None \<Rightarrow>
                (case first_hit (\<lambda>s. resolve n \<sigma> s base clip ro x) (subregions mr) of
                  Some t \<Rightarrow> Some t
                | None \<Rightarrow>
                    if terminates mr
                    then Some (m, word_of_int (x - base), dirty_log_mask mr, readable mr, ro)
                    else None))"

text \<open>The loop of \<open>render_gaps\<close> as a recursion on the rest of the view.\<close>

fun fill_gaps ::
  "(int \<Rightarrow> int \<Rightarrow> phys_addr \<Rightarrow> FlatRange) \<Rightarrow> int \<Rightarrow> int \<Rightarrow> phys_addr \<Rightarrow> FlatView \<Rightarrow> FlatView res" where
  "fill_gaps mk base remain off [] = Inr (if remain \<noteq> 0 then [mk base remain off] else [])"
| "fill_gaps mk base remain off (r # rs) =
     (if remain = 0 then Inr (r # rs)
      else if addrrange_end (fr_addr r) \<le> base
      then bindE (fill_gaps mk base remain off rs) (\<lambda>v. Inr (r # v))
      else bindE (gap_before mk r base remain off) (\<lambda>(ins, base', remain', off').
           bindE (skip_covered r base' remain' off') (\<lambda>(base', remain', off').
           bindE (fill_gaps mk base' remain' off' rs) (\<lambda>v.
           Inr ((case ins of None \<Rightarrow> [] | Some fr \<Rightarrow> [fr]) @ r # v)))))"

text \<open>
  A range of the view straddles the start of a window when it begins before it and ends
  after it: the loop handles neither case of such a range.
\<close>

definition straddles :: "int \<Rightarrow> FlatRange \<Rightarrow> bool" where
  "straddles base r \<longleftrightarrow> ar_start (fr_addr r) < base \<and> base < addrrange_end (fr_addr r)"

section \<open>Lemmas on ranges and views\<close>

lemmas addrrange_defs = addrrange_make_def addrrange_end_def addrrange_contains_def
  addrrange_intersects_def addrrange_intersection_def

lemma get64_Inr [simp]: "get64 x = Inr w \<longleftrightarrow> 0 \<le> x \<and> x < 2 ^ 64 \<and> w = word_of_int x"
  by (auto simp: get64_def)

lemma get64_total: "0 \<le> x \<Longrightarrow> x < 2 ^ 64 \<Longrightarrow> get64 x = Inr (word_of_int x)"
  by simp

lemma get64_int128: "get64 (int128_val a) = int128_get64 a"
proof -
  have l: "0 \<le> uint (lo a)" "uint (lo a) < 2 ^ 64"
    using uint_lt2p [of "lo a"] by simp_all
  show ?thesis
  proof (cases "hi a = 0")
    case True
    then show ?thesis using l by (simp add: get64_def int128_get64_def int128_val_def)
  next
    case False
    then have "sint (hi a) \<noteq> 0" by (metis signed_0 signed_word_eqI)
    then have "sint (hi a) \<le> -1 \<or> 1 \<le> sint (hi a)" by linarith
    then have "2 ^ 64 * sint (hi a) \<le> - (2 ^ 64) \<or> 2 ^ 64 \<le> 2 ^ 64 * sint (hi a)" by auto
    then have "\<not> (0 \<le> int128_val a \<and> int128_val a < 2 ^ 64)"
      unfolding int128_val_def using l by linarith
    then show ?thesis using False by (simp only: get64_def int128_get64_def) simp
  qed
qed

lemma flat_ok_Nil [simp]: "flat_ok []"
  by (simp add: flat_ok_def)

lemma flat_ok_Cons:
  "flat_ok (r # rs) \<longleftrightarrow> 0 < ar_size (fr_addr r) \<and>
     (\<forall>s\<in>set rs. addrrange_end (fr_addr r) \<le> ar_start (fr_addr s)) \<and> flat_ok rs"
  by (auto simp: flat_ok_def)

lemma flat_lookup_None_iff:
  "flat_lookup v x = None \<longleftrightarrow> (\<forall>r\<in>set v. \<not> addrrange_contains (fr_addr r) x)"
  by (induction v) auto

lemma flat_lookup_append:
  "flat_lookup (u @ v) x = (case flat_lookup u x of Some t \<Rightarrow> Some t | None \<Rightarrow> flat_lookup v x)"
  by (induction u) auto

lemma flat_lookup_before:
  assumes "\<forall>s\<in>set v. b \<le> ar_start (fr_addr s)" and "x < b"
  shows "flat_lookup v x = None"
  using assms by (auto simp: flat_lookup_None_iff addrrange_contains_def)

lemma render_gaps_fill_gaps:
  "render_gaps mk (pre @ suf) (length pre) base remain off =
     bindE (fill_gaps mk base remain off suf) (\<lambda>v. Inr (pre @ v))"
proof (induction suf arbitrary: pre base remain off)
  case Nil
  then show ?case by (simp add: render_gaps.simps flatview_insert_def)
next
  case (Cons r rs)
  have IH: "render_gaps mk (pre @ fs @ r # rs) (Suc (length (pre @ fs))) b re o' =
    bindE (fill_gaps mk b re o' rs) (\<lambda>v. Inr (pre @ fs @ r # v))" for fs b re o'
    using Cons.IH [of "pre @ fs @ [r]" b re o'] by simp
  note IH0 = IH [of "[]", simplified] and IH1 = IH [of "[f]" for f, simplified]
  have nth: "(pre @ f # r # rs) ! Suc (length pre) = r" for f
    by (simp add: nth_append)
  show ?case
    by (subst render_gaps.simps)
      (auto simp: IH0 IH1 nth bindE_assoc gap_before_def Let_def flatview_insert_def
        intro!: bindE_ext split: prod.splits)
qed

section \<open>Filling the gaps of a view\<close>

lemma ucast_of_int [simp]: "(ucast (word_of_int x :: u64) :: u32) = word_of_int x"
  by (rule bit_eqI) (auto simp: bit_simps)

lemma make_range_simps [simp]:
  "fr_addr (make_range m mr ro base now off) = \<lparr>ar_start = base, ar_size = now\<rparr>"
  "fr_at (make_range m mr ro base now off) x =
     (m, off + word_of_int (x - base), dirty_log_mask mr, readable mr, ro)"
  by (simp_all add: make_range_def fr_at_def addrrange_make_def)

lemma gap_before_spec:
  assumes "gap_before mk r base remain off = Inr (ins, b1, re1, o1)" "0 \<le> remain"
  shows "b1 = (if base < ar_start (fr_addr r) then min (base + remain) (ar_start (fr_addr r)) else base)"
    "re1 = base + remain - b1" "o1 = off + word_of_int (b1 - base)"
    "ins = (if base < ar_start (fr_addr r)
            then Some (mk base (min remain (ar_start (fr_addr r) - base)) off) else None)"
  using assms by (auto simp: gap_before_def min_def Let_def split: if_splits simp del: of_int_diff)

lemma skip_covered_spec:
  assumes "skip_covered r base remain off = Inr (b2, re2, o2)"
  shows "b2 = (if base = ar_start (fr_addr r) then min (base + remain) (addrrange_end (fr_addr r)) else base)"
    "re2 = base + remain - b2" "o2 = off + word_of_int (b2 - base)"
  using assms
  by (auto simp: skip_covered_def min_def Let_def addrrange_end_def split: if_splits)

lemma gap_step:
  assumes gap: "gap_before mk r base remain off = Inr (ins, b1, re1, o1)"
    and skip: "skip_covered r b1 re1 o1 = Inr (b2, re2, o2)"
    and pos: "0 < remain" "0 < ar_size (fr_addr r)" "base < addrrange_end (fr_addr r)" "\<not> straddles base r"
  shows "b2 = min (base + remain) (addrrange_end (fr_addr r))" "re2 = base + remain - b2"
    "o2 = off + word_of_int (b2 - base)"
    "ins = (if base < ar_start (fr_addr r)
            then Some (mk base (min remain (ar_start (fr_addr r) - base)) off) else None)"
proof -
  note g = gap_before_spec [OF gap less_imp_le [OF pos(1)]] and k = skip_covered_spec [OF skip]
  show "b2 = min (base + remain) (addrrange_end (fr_addr r))"
    using g(1) g(2) k(1) pos by (auto simp: straddles_def addrrange_end_def min_def split: if_splits)
  show "re2 = base + remain - b2" using g(2) k(2) by simp
  have "o2 = off + (word_of_int (b1 - base) + word_of_int (b2 - b1))"
    using g(3) k(3) by (simp add: add.assoc)
  also have "\<dots> = off + word_of_int ((b1 - base) + (b2 - b1))" by (simp only: of_int_add)
  finally show "o2 = off + word_of_int (b2 - base)" by simp
qed (fact gap_before_spec(4) [OF gap less_imp_le [OF pos(1)]])

lemma no_straddle_after:
  assumes "flat_ok (r # rs)" and "b \<le> addrrange_end (fr_addr r)"
  shows "\<forall>s\<in>set rs. \<not> straddles b s"
  using assms by (force simp: flat_ok_Cons straddles_def)

text \<open>The targets of a window whose first address has offset \<open>off\<close> in the region.\<close>

definition window_target ::
  "mr_id \<Rightarrow> MemoryRegion \<Rightarrow> bool \<Rightarrow> int \<Rightarrow> int \<Rightarrow> phys_addr \<Rightarrow> int \<Rightarrow> mem_target option" where
  "window_target m mr ro base remain off x =
     (if base \<le> x \<and> x < base + remain
      then Some (m, off + word_of_int (x - base), dirty_log_mask mr, readable mr, ro) else None)"

lemma fill_step_lookup:
  assumes okr: "flat_ok (r # rs)"
    and ins: "ins = (if base < ar_start (fr_addr r)
      then [make_range m mr ro base (min remain (ar_start (fr_addr r) - base)) off] else [])"
    and w: "\<And>x. flat_lookup w x = (case flat_lookup rs x of Some t \<Rightarrow> Some t | None \<Rightarrow>
      if addrrange_end (fr_addr r) \<le> x then window_target m mr ro base remain off x else None)"
    and "\<not> straddles base r" "base < addrrange_end (fr_addr r)"
  shows "flat_lookup (ins @ r # w) x =
    (case flat_lookup (r # rs) x of Some t \<Rightarrow> Some t | None \<Rightarrow> window_target m mr ro base remain off x)"
proof (cases "addrrange_end (fr_addr r) \<le> x")
  case True
  then have "flat_lookup ins x = None" and "\<not> addrrange_contains (fr_addr r) x"
    using okr by (auto simp: ins flat_ok_Cons addrrange_contains_def addrrange_end_def)
  then show ?thesis using True w by (simp add: flat_lookup_append)
next
  case False
  have "flat_lookup rs x = None"
    using okr False by (intro flat_lookup_before [of _ "addrrange_end (fr_addr r)"]) (auto simp: flat_ok_Cons)
  then show ?thesis using False w [of x] assms(4,5)
    by (auto simp: ins flat_lookup_append addrrange_contains_def addrrange_end_def window_target_def
        straddles_def min_def split: option.splits)
qed

text \<open>
  Filling keeps the ranges of the view, adds ranges inside the window only, keeps the view
  sorted and disjoint, and gives the addresses of the window that had no target theirs.
\<close>

lemma fill_gaps_spec:
  assumes "fill_gaps (make_range m mr ro) base remain off v = Inr v'" "0 \<le> remain"
    "\<forall>r\<in>set v. \<not> straddles base r" "flat_ok v"
  shows "(\<forall>f\<in>set v'. f \<in> set v \<or> base \<le> ar_start (fr_addr f) \<and> addrrange_end (fr_addr f) \<le> base + remain) \<and>
    flat_ok v' \<and>
    (\<forall>x. flat_lookup v' x = (case flat_lookup v x of Some t \<Rightarrow> Some t | None \<Rightarrow>
       window_target m mr ro base remain off x))"
  using assms
proof (induction v arbitrary: base remain off v')
  case Nil
  then show ?case
    by (auto simp: flat_ok_Cons addrrange_end_def addrrange_contains_def window_target_def split: if_splits)
next
  case (Cons r rs)
  have ok: "0 < ar_size (fr_addr r)" "\<forall>s\<in>set rs. addrrange_end (fr_addr r) \<le> ar_start (fr_addr s)" "flat_ok rs"
    using Cons.prems(4) by (simp_all add: flat_ok_Cons)
  consider (done') "remain = 0" | (past) "remain \<noteq> 0" "addrrange_end (fr_addr r) \<le> base"
    | (here) "remain \<noteq> 0" "base < addrrange_end (fr_addr r)" by linarith
  then show ?case
  proof cases
    case done'
    then show ?thesis using Cons.prems by (auto simp: window_target_def split: option.splits)
  next
    case past
    then obtain w where w: "fill_gaps (make_range m mr ro) base remain off rs = Inr w" "v' = r # w"
      using Cons.prems(1) by auto
    from Cons.IH [OF w(1)] Cons.prems ok past show ?thesis
      by (fastforce simp: w(2) flat_ok_Cons)
  next
    case here
    then obtain ins b1 re1 o1 b2 re2 o2 w where
      st: "gap_before (make_range m mr ro) r base remain off = Inr (ins, b1, re1, o1)"
        "skip_covered r b1 re1 o1 = Inr (b2, re2, o2)"
      and w: "fill_gaps (make_range m mr ro) b2 re2 o2 rs = Inr w"
      and v': "v' = (case ins of None \<Rightarrow> [] | Some fr \<Rightarrow> [fr]) @ r # w"
      using Cons.prems(1) by auto
    have rem: "0 < remain" using here Cons.prems(2) by simp
    have ns: "\<not> straddles base r" using Cons.prems(3) by simp
    note g = gap_step [OF st rem ok(1) here(2) ns]
    have b2: "base \<le> b2" "0 \<le> re2" "b2 + re2 = base + remain" "b2 \<le> addrrange_end (fr_addr r)"
      "re2 = 0 \<or> b2 = addrrange_end (fr_addr r)"
      using g(1,2) here rem by auto
    have ih: "\<forall>f\<in>set w. f \<in> set rs \<or> b2 \<le> ar_start (fr_addr f) \<and> addrrange_end (fr_addr f) \<le> b2 + re2"
      "flat_ok w" "\<And>x. flat_lookup w x =
        (case flat_lookup rs x of Some t \<Rightarrow> Some t | None \<Rightarrow> window_target m mr ro b2 re2 o2 x)"
      using Cons.IH [OF w b2(2) no_straddle_after [OF Cons.prems(4) b2(4)] ok(3)] by auto
    have after: "addrrange_end (fr_addr r) \<le> ar_start (fr_addr f)" if "f \<in> set w" for f
      using ih(1,2) b2(5) ok(2) that by (fastforce simp: flat_ok_def addrrange_end_def)
    have win: "window_target m mr ro b2 re2 o2 x =
        (if addrrange_end (fr_addr r) \<le> x then window_target m mr ro base remain off x else None)" for x
      using b2 g(3) by (auto simp: window_target_def algebra_simps)
    have insl: "(case ins of None \<Rightarrow> [] | Some fr \<Rightarrow> [fr]) = (if base < ar_start (fr_addr r)
      then [make_range m mr ro base (min remain (ar_start (fr_addr r) - base)) off] else [])"
      using g(4) by simp
    show ?thesis
    proof (intro conjI allI)
      show "\<forall>f\<in>set v'. f \<in> set (r # rs) \<or> base \<le> ar_start (fr_addr f) \<and> addrrange_end (fr_addr f) \<le> base + remain"
        using ih(1) b2 by (force simp: v' insl addrrange_end_def)
      show "flat_ok v'"
        using after ih(2) ok(1) rem by (force simp: v' insl flat_ok_Cons addrrange_end_def)
      show "flat_lookup v' x = (case flat_lookup (r # rs) x of Some t \<Rightarrow> Some t
          | None \<Rightarrow> window_target m mr ro base remain off x)" for x
        unfolding v' by (intro fill_step_lookup [OF Cons.prems(4) insl _ ns here(2)]) (simp only: ih(3) win)
    qed
  qed
qed

section \<open>Merging adjacent ranges\<close>

lemma can_merge_fr_at:
  assumes "can_merge p r"
  shows "fr_at p x = fr_at r x"
proof -
  have "offset_in_region r = word_of_int (uint (offset_in_region p) + ar_size (fr_addr p))"
    using assms by (simp add: can_merge_def)
  moreover have "ar_start (fr_addr r) = ar_start (fr_addr p) + ar_size (fr_addr p)"
    using assms by (simp add: can_merge_def addrrange_end_def)
  ultimately show ?thesis using assms by (simp add: fr_at_def can_merge_def algebra_simps)
qed

lemma merge_run_spec:
  assumes "merge_run a p rs = (a', rest)" "flat_ok (a # rs)"
    "addrrange_end (fr_addr a) = addrrange_end (fr_addr p)" "\<And>x. fr_at a x = fr_at p x"
  shows "flat_ok (a' # rest) \<and> ar_start (fr_addr a') = ar_start (fr_addr a) \<and> set rest \<subseteq> set rs \<and>
    flat_lookup (a' # rest) = flat_lookup (a # rs)"
  using assms
proof (induction a p rs rule: merge_run.induct)
  case (2 a p r rs)
  show ?case
  proof (cases "can_merge p r")
    case True
    let ?a = "a\<lparr>fr_addr := (fr_addr a)\<lparr>ar_size := ar_size (fr_addr a) + ar_size (fr_addr r)\<rparr>\<rparr>"
    have adj: "ar_start (fr_addr r) = addrrange_end (fr_addr a)"
      using True "2.prems"(3) by (simp add: can_merge_def)
    have at: "fr_at a x = fr_at r x" for x
      using can_merge_fr_at [OF True] "2.prems"(4) by simp
    have same: "fr_at ?a x = fr_at a x" for x by (simp add: fr_at_def)
    have ok: "flat_ok (?a # rs)" "addrrange_end (fr_addr ?a) = addrrange_end (fr_addr r)"
      using "2.prems"(2) adj by (auto simp: flat_ok_Cons addrrange_end_def)
    have "flat_lookup (?a # rs) x = flat_lookup (a # r # rs) x" for x
      using "2.prems"(2) adj at same by (auto simp: flat_ok_Cons addrrange_contains_def addrrange_end_def)
    with "2.IH" [OF True _ ok] "2.prems"(1) True same at show ?thesis by auto
  next
    case False
    then show ?thesis using "2.prems" by auto
  qed
qed auto

lemma flatview_simplify_spec:
  assumes "flat_ok v"
  shows "flat_ok (flatview_simplify v) \<and>
    (\<forall>f\<in>set (flatview_simplify v). \<exists>r\<in>set v. ar_start (fr_addr f) = ar_start (fr_addr r)) \<and>
    flat_lookup (flatview_simplify v) = flat_lookup v"
  using assms
proof (induction v rule: flatview_simplify.induct)
  case (2 r rs)
  obtain a rest where m: "merge_run r r rs = (a, rest)" by fastforce
  note s = merge_run_spec [OF m "2.prems" refl refl]
  have ih: "flat_ok (flatview_simplify rest)"
    "\<forall>f\<in>set (flatview_simplify rest). \<exists>r\<in>set rest. ar_start (fr_addr f) = ar_start (fr_addr r)"
    "flat_lookup (flatview_simplify rest) = flat_lookup rest"
    using "2.IH" [OF m [symmetric]] s by (auto simp: flat_ok_Cons)
  have "flat_ok (a # flatview_simplify rest)"
    using s ih(1,2) by (fastforce simp: flat_ok_Cons)
  moreover have "flat_lookup (a # flatview_simplify rest) = flat_lookup (a # rest)"
    by (rule ext) (simp add: ih(3))
  ultimately show ?case using m s ih(2) by (auto 0 4)
qed simp

section \<open>Rendering a region tree\<close>

text \<open>
  The windows of the terminating regions in the order in which they are rendered. A
  window may begin strictly inside none of the windows rendered before it, that is of a
  higher priority: \<open>no_straddle\<close>. Siblings that do not overlap, regions nested in each
  other and windows that share their start satisfy it.
\<close>

fun windows :: "nat \<Rightarrow> mr_store \<Rightarrow> mr_id \<Rightarrow> int \<Rightarrow> AddrRange \<Rightarrow> AddrRange list" where
  "windows 0 \<sigma> m base clip = []"
| "windows (Suc n) \<sigma> m base clip =
     (let mr = \<sigma> m;
          base = base + uint (mr_addr mr);
          tmp = addrrange_make base (mr_size mr)
      in if \<not> addrrange_intersects tmp clip then []
         else let clip = addrrange_intersection tmp clip
         in case mr_alias mr of
              Some al \<Rightarrow> windows n \<sigma> al (base - uint (mr_addr (\<sigma> al)) - uint (alias_offset mr)) clip
            | None \<Rightarrow> concat (map (\<lambda>s. windows n \<sigma> s base clip) (subregions mr)) @
                (if terminates mr then [clip] else []))"

definition no_straddle :: "AddrRange list \<Rightarrow> bool" where
  "no_straddle ws \<longleftrightarrow>
     sorted_wrt (\<lambda>u w. \<not> (ar_start u < ar_start w \<and> ar_start w < addrrange_end u)) ws"

definition in_windows :: "AddrRange list \<Rightarrow> FlatView \<Rightarrow> bool" where
  "in_windows ws v \<longleftrightarrow> (\<forall>r\<in>set v. \<exists>w\<in>set ws.
     ar_start w \<le> ar_start (fr_addr r) \<and> addrrange_end (fr_addr r) \<le> addrrange_end w)"

text \<open>Sizes come from unsigned integers, \<open>2\<^sup>6\<^sup>4\<close> being the largest.\<close>

definition sizes_ok :: "mr_store \<Rightarrow> bool" where
  "sizes_ok \<sigma> \<longleftrightarrow> (\<forall>m. 0 \<le> mr_size (\<sigma> m) \<and> mr_size (\<sigma> m) \<le> 2 ^ 64)"

definition renders :: "AddrRange list \<Rightarrow> (int \<Rightarrow> mem_target option) \<Rightarrow> FlatView \<Rightarrow> FlatView \<Rightarrow> bool" where
  "renders ws f v v' \<longleftrightarrow> flat_ok v' \<and> in_windows ws v' \<and>
     (\<forall>x. flat_lookup v' x = (case flat_lookup v x of Some t \<Rightarrow> Some t | None \<Rightarrow> f x))"

lemma no_straddle_append: "no_straddle (us @ ws) \<Longrightarrow> no_straddle us"
  by (simp add: no_straddle_def sorted_wrt_append)

lemma intersection_simps:
  assumes "addrrange_intersects r1 r2" "0 \<le> ar_size r1" "0 \<le> ar_size r2"
  shows "addrrange_contains (addrrange_intersection r1 r2) x \<longleftrightarrow>
      addrrange_contains r1 x \<and> addrrange_contains r2 x"
    "0 \<le> ar_size (addrrange_intersection r1 r2)"
    "ar_start r1 \<le> ar_start (addrrange_intersection r1 r2)"
  using assms by (auto simp: addrrange_defs Let_def)

lemma intersects_iff: "addrrange_contains r1 x \<Longrightarrow> addrrange_contains r2 x \<Longrightarrow> addrrange_intersects r1 r2"
  by (auto simp: addrrange_defs)

lemma resolve_outside: "\<not> addrrange_contains clip x \<Longrightarrow> resolve n \<sigma> m base clip ro x = None"
  by (cases n) (simp_all add: Let_def)

lemma first_hit_None: "(\<And>s. s \<in> set xs \<Longrightarrow> f s = None) \<Longrightarrow> first_hit f xs = None"
  by (induction xs) auto

lemma foldE_renders:
  assumes step: "\<And>s v v' ws. g s v = Inr v' \<Longrightarrow> flat_ok v \<Longrightarrow> in_windows ws v \<Longrightarrow>
      no_straddle (ws @ w s) \<Longrightarrow> renders (ws @ w s) (f s) v v'"
    and "foldE g xs v = Inr v'" "flat_ok v" "in_windows ws v" "no_straddle (ws @ concat (map w xs))"
  shows "renders (ws @ concat (map w xs)) (\<lambda>x. first_hit (\<lambda>s. f s x) xs) v v'"
  using assms(2-)
proof (induction xs arbitrary: v ws)
  case Nil
  then show ?case by (auto simp: renders_def split: option.splits)
next
  case (Cons s xs)
  then obtain u where u: "g s v = Inr u" "foldE g xs u = Inr v'" by auto
  have r: "renders (ws @ w s) (f s) v u"
    using step [OF u(1)] Cons.prems no_straddle_append [of "ws @ w s"] by simp
  then have "renders ((ws @ w s) @ concat (map w xs)) (\<lambda>x. first_hit (\<lambda>s. f s x) xs) u v'"
    using Cons.prems by (intro Cons.IH [OF u(2)]) (auto simp: renders_def)
  then show ?case using r by (auto simp: renders_def split: option.splits)
qed

lemma render_gaps_renders:
  assumes "render_gaps (make_range m mr ro) v 0 (ar_start c) (ar_size c) off = Inr v'"
    "0 \<le> ar_size c" "flat_ok v" "in_windows ws v" "no_straddle (ws @ [c])"
  shows "renders (ws @ [c]) (window_target m mr ro (ar_start c) (ar_size c) off) v v'"
proof -
  have fill: "fill_gaps (make_range m mr ro) (ar_start c) (ar_size c) off v = Inr v'"
    using assms(1) render_gaps_fill_gaps [of _ "[]" v] by auto
  have "\<forall>r\<in>set v. \<not> straddles (ar_start c) r"
    using assms(4,5) by (fastforce simp: no_straddle_def sorted_wrt_append in_windows_def straddles_def)
  from fill_gaps_spec [OF fill assms(2) this assms(3)] show ?thesis
    using assms(4) by (fastforce simp: renders_def in_windows_def addrrange_end_def)
qed

text \<open>One step of the walk, with the window \<open>c\<close> of the region.\<close>

lemma resolve_step:
  assumes b: "b = base + uint (mr_addr (\<sigma> m))" and tmp: "tmp = addrrange_make b (mr_size (\<sigma> m))"
    and c: "c = addrrange_intersection tmp clip" and r: "r = (ro \<or> readonly (\<sigma> m))"
    and int: "addrrange_intersects tmp clip" "0 \<le> ar_size tmp" "0 \<le> ar_size clip"
  shows "resolve (Suc n) \<sigma> m base clip ro x = (case mr_alias (\<sigma> m) of
      Some al \<Rightarrow> resolve n \<sigma> al (b - uint (mr_addr (\<sigma> al)) - uint (alias_offset (\<sigma> m))) c r x
    | None \<Rightarrow> (case first_hit (\<lambda>s. resolve n \<sigma> s b c r x) (subregions (\<sigma> m)) of Some t \<Rightarrow> Some t | None \<Rightarrow>
        if terminates (\<sigma> m)
        then window_target m (\<sigma> m) r (ar_start c) (ar_size c) (word_of_int (ar_start c - b)) x else None))"
proof -
  note cs = intersection_simps [OF int, folded c]
  have tx: "addrrange_contains tmp x \<longleftrightarrow> b \<le> x \<and> x < b + mr_size (\<sigma> m)"
    by (simp add: tmp addrrange_defs)
  note defs = b [symmetric] tmp [symmetric] c [symmetric] r [symmetric]
  show ?thesis
  proof (cases "addrrange_contains c x")
    case True
    then show ?thesis using cs(1) tx
      by (auto simp: Let_def defs window_target_def addrrange_contains_def addrrange_end_def split: option.splits)
  next
    case False
    then have "window_target m (\<sigma> m) r (ar_start c) (ar_size c) off x = None" for off
      by (simp add: window_target_def addrrange_contains_def addrrange_end_def)
    moreover have "resolve (Suc n) \<sigma> m base clip ro x = None"
      using False cs(1) tx by (auto simp: Let_def defs)
    ultimately show ?thesis
      using False by (simp add: first_hit_None resolve_outside split: option.splits del: resolve.simps)
  qed
qed

lemma resolve_disjoint:
  assumes "\<not> addrrange_intersects (addrrange_make (base + uint (mr_addr (\<sigma> m))) (mr_size (\<sigma> m))) clip"
  shows "resolve n \<sigma> m base clip ro x = None"
  using assms intersects_iff by (cases n) (auto simp: Let_def addrrange_defs)

lemma render_renders:
  assumes "render_memory_region n \<sigma> view m base clip ro = Inr view'" "flat_ok view" "in_windows ws view"
    "no_straddle (ws @ windows n \<sigma> m base clip)" "sizes_ok \<sigma>" "0 \<le> ar_size clip"
  shows "renders (ws @ windows n \<sigma> m base clip) (resolve n \<sigma> m base clip ro) view view'"
  using assms
proof (induction n arbitrary: view view' m base clip ro ws)
  case (Suc n)
  define b where "b = base + uint (mr_addr (\<sigma> m))"
  define r where "r = (ro \<or> readonly (\<sigma> m))"
  define tmp where "tmp = addrrange_make b (mr_size (\<sigma> m))"
  define c where "c = addrrange_intersection tmp clip"
  note defs = b_def [symmetric] r_def [symmetric] tmp_def [symmetric] c_def [symmetric]
  show ?case
  proof (cases "addrrange_intersects tmp clip")
    case False
    then have "resolve (Suc n) \<sigma> m base clip ro x = None" for x
      by (intro resolve_disjoint) (simp add: defs)
    with Suc.prems False show ?thesis
      by (auto simp: Let_def defs renders_def split: option.splits)
  next
    case True
    have tmp: "0 \<le> ar_size tmp" using Suc.prems(5) by (simp add: sizes_ok_def tmp_def addrrange_make_def)
    note c = intersection_simps [OF True this Suc.prems(6), folded c_def]
    note res = resolve_step [where \<sigma> = \<sigma> and m = m, OF b_def tmp_def c_def r_def True tmp Suc.prems(6)]
    show ?thesis
    proof (cases "mr_alias (\<sigma> m)")
      case (Some al)
      then show ?thesis using Suc.IH Suc.prems c(2) True
        by (simp add: res ext Let_def defs del: resolve.simps)
    next
      case None
      define ws' where "ws' = ws @ concat (map (\<lambda>s. windows n \<sigma> s b c) (subregions (\<sigma> m)))"
      obtain u where u: "foldE (\<lambda>s v. render_memory_region n \<sigma> v s b c r) (subregions (\<sigma> m)) view = Inr u"
        and fin: "if terminates (\<sigma> m) then render_gaps (make_range m (\<sigma> m) r) u 0 (ar_start c) (ar_size c)
          (word_of_int (ar_start c - b)) = Inr view' else view' = u"
        using Suc.prems(1) True None by (auto simp: Let_def defs split: if_splits simp del: of_int_diff)
      have win: "ws @ windows (Suc n) \<sigma> m base clip = ws' @ (if terminates (\<sigma> m) then [c] else [])"
        using True None by (simp add: Let_def defs ws'_def)
      have sub: "renders ws' (\<lambda>x. first_hit (\<lambda>s. resolve n \<sigma> s b c r x) (subregions (\<sigma> m))) view u"
        unfolding ws'_def using Suc.prems win no_straddle_append c(2)
        by (intro foldE_renders [OF _ u]) (auto simp: ws'_def intro: Suc.IH)
      have "terminates (\<sigma> m) \<Longrightarrow> renders (ws' @ [c])
          (window_target m (\<sigma> m) r (ar_start c) (ar_size c) (word_of_int (ar_start c - b))) u view'"
        using fin Suc.prems(4) win sub c(2) by (intro render_gaps_renders) (auto simp: renders_def)
      then show ?thesis using fin sub unfolding win
        by (auto simp: renders_def res None split: option.splits if_splits simp del: resolve.simps)
    qed
  qed
qed simp

section \<open>Rendering ends\<close>

definition nonneg_sizes :: "FlatView \<Rightarrow> bool" where
  "nonneg_sizes v \<longleftrightarrow> (\<forall>r\<in>set v. 0 \<le> ar_size (fr_addr r))"

definition ranked :: "mr_store \<Rightarrow> (mr_id \<Rightarrow> nat) \<Rightarrow> bool" where
  "ranked \<sigma> rk \<longleftrightarrow> (\<forall>m. (\<forall>s\<in>set (subregions (\<sigma> m)). rk s < rk m) \<and>
     (\<forall>al. mr_alias (\<sigma> m) = Some al \<longrightarrow> rk al < rk m))"

lemma gap_before_total:
  assumes "0 \<le> remain" "remain < 2 ^ 64"
  obtains ins b1 re1 o1 where "gap_before mk r base remain off = Inr (ins, b1, re1, o1)"
    "0 \<le> re1" "re1 < 2 ^ 64"
proof -
  have "get64 (min remain (ar_start (fr_addr r) - base)) = Inr (word_of_int (min remain (ar_start (fr_addr r) - base)))"
    if "base < ar_start (fr_addr r)" using that assms by (intro get64_total) linarith+
  then show ?thesis using assms that by (cases "base < ar_start (fr_addr r)") (simp_all add: gap_before_def Let_def min_def del: get64_Inr)
qed

lemma skip_covered_total:
  assumes "0 \<le> remain" "remain < 2 ^ 64" "0 \<le> ar_size (fr_addr r)"
  obtains b2 re2 o2 where "skip_covered r base remain off = Inr (b2, re2, o2)" "0 \<le> re2" "re2 < 2 ^ 64"
proof -
  have "get64 (min remain (ar_size (fr_addr r))) = Inr (word_of_int (min remain (ar_size (fr_addr r))))"
    using assms by (intro get64_total) linarith+
  then show ?thesis using assms that
    by (cases "base = ar_start (fr_addr r)") (simp_all add: skip_covered_def Let_def min_def del: get64_Inr)
qed

lemma fill_gaps_total:
  assumes "0 \<le> remain" "remain < 2 ^ 64" "nonneg_sizes v"
  shows "\<exists>v'. fill_gaps (make_range m mr ro) base remain off v = Inr v' \<and> nonneg_sizes v'"
  using assms
proof (induction v arbitrary: base remain off)
  case Nil
  then show ?case by (simp add: nonneg_sizes_def)
next
  case (Cons r rs)
  have r: "0 \<le> ar_size (fr_addr r)" "nonneg_sizes rs" using Cons.prems(3) by (simp_all add: nonneg_sizes_def)
  obtain ins b1 re1 o1 where 1: "gap_before (make_range m mr ro) r base remain off = Inr (ins, b1, re1, o1)"
    "0 \<le> re1" "re1 < 2 ^ 64" using gap_before_total [OF Cons.prems(1,2)] .
  obtain b2 re2 o2 where 2: "skip_covered r b1 re1 o1 = Inr (b2, re2, o2)" "0 \<le> re2" "re2 < 2 ^ 64"
    using skip_covered_total [OF 1(2,3) r(1)] .
  obtain w where w: "fill_gaps (make_range m mr ro) b2 re2 o2 rs = Inr w" "nonneg_sizes w"
    using Cons.IH [OF 2(2,3) r(2)] by blast
  obtain u where u: "fill_gaps (make_range m mr ro) base remain off rs = Inr u" "nonneg_sizes u"
    using Cons.IH [OF Cons.prems(1,2) r(2)] by blast
  have "ins = None \<or> (\<exists>f. ins = Some f \<and> 0 \<le> ar_size (fr_addr f))"
    using gap_before_spec(4) [OF 1(1) Cons.prems(1)] Cons.prems(1) by (auto split: if_splits)
  then show ?case using 1(1) 2(1) w u r(1) Cons.prems(3) by (auto simp: nonneg_sizes_def)
qed

lemma foldE_total:
  assumes "\<And>s v. s \<in> set xs \<Longrightarrow> P v \<Longrightarrow> \<exists>v'. g s v = Inr v' \<and> P v'" and "P v"
  shows "\<exists>v'. foldE g xs v = Inr v' \<and> P v'"
  using assms
proof (induction xs arbitrary: v)
  case (Cons s xs)
  then obtain u where "g s v = Inr u" "P u" by fastforce
  then show ?case using Cons by simp
qed simp

lemma render_total:
  assumes "ranked \<sigma> rk" "rk m < n" "sizes_ok \<sigma>" "\<And>i. terminates (\<sigma> i) \<Longrightarrow> mr_size (\<sigma> i) < 2 ^ 64"
    "0 \<le> ar_size clip" "nonneg_sizes view"
  shows "\<exists>view'. render_memory_region n \<sigma> view m base clip ro = Inr view' \<and> nonneg_sizes view'"
  using assms(2,5,6)
proof (induction n arbitrary: view m base clip ro)
  case (Suc n)
  define b where "b = base + uint (mr_addr (\<sigma> m))"
  define r where "r = (ro \<or> readonly (\<sigma> m))"
  define tmp where "tmp = addrrange_make b (mr_size (\<sigma> m))"
  define c where "c = addrrange_intersection tmp clip"
  note defs = b_def [symmetric] r_def [symmetric] tmp_def [symmetric] c_def [symmetric]
  have rk: "rk s < n" if "s \<in> set (subregions (\<sigma> m)) \<or> mr_alias (\<sigma> m) = Some s" for s
    using that assms(1) Suc.prems(1) by (fastforce simp: ranked_def)
  show ?case
  proof (cases "addrrange_intersects tmp clip")
    case True
    have sz: "0 \<le> ar_size tmp" "ar_size tmp \<le> 2 ^ 64" "terminates (\<sigma> m) \<Longrightarrow> ar_size tmp < 2 ^ 64"
      using assms(3,4) by (auto simp: sizes_ok_def tmp_def addrrange_make_def)
    note c = intersection_simps [OF True sz(1) Suc.prems(2), folded c_def]
    have cb: "0 \<le> ar_start c - b" "ar_start c - b < 2 ^ 64" "ar_size c \<le> ar_size tmp"
      using True sz(1,2) by (auto simp: c_def tmp_def addrrange_defs Let_def)
    obtain u where u: "foldE (\<lambda>s v. render_memory_region n \<sigma> v s b c r) (subregions (\<sigma> m)) view = Inr u" "nonneg_sizes u"
      using foldE_total [where P = nonneg_sizes and g = "\<lambda>s v. render_memory_region n \<sigma> v s b c r"]
        Suc.IH rk c(2) Suc.prems(3) by blast
    have "\<exists>v'. render_gaps (make_range m (\<sigma> m) r) u 0 (ar_start c) (ar_size c) off = Inr v' \<and> nonneg_sizes v'"
      if "terminates (\<sigma> m)" for off
      using fill_gaps_total [OF c(2) _ u(2)] cb(3) sz(3) [OF that] render_gaps_fill_gaps [of _ "[]" u]
      by (auto intro: le_less_trans)
    moreover have "get64 (ar_start c - b) = Inr (word_of_int (ar_start c - b))" using cb by (intro get64_total)
    ultimately show ?thesis
      using True u Suc.IH rk c(2) Suc.prems(3) by (cases "mr_alias (\<sigma> m)") (auto simp: Let_def defs simp del: get64_Inr)
  qed (use Suc.prems in \<open>simp add: Let_def defs\<close>)
qed simp

section \<open>Properties\<close>

text \<open>
  C12: rendering the memory map is correct and total: for every store of regions
  without pointer cycles, whose sizes are at most \<open>2\<^sup>6\<^sup>4\<close>, whose regions with contents of their
  own are smaller than \<open>2\<^sup>6\<^sup>4\<close>, and whose windows never begin strictly inside the window of a
  region of higher priority, \<open>generate_memory_topology\<close> returns a view, its ranges are
  non-empty, sorted and disjoint, and every address has the target that the walk through
  the region tree gives it (priority order, aliases, clipping, inherited read-only
  flag), addresses without a target included.
\<close>

theorem topology_resolves:
  assumes "ranked \<sigma> rk" "rk m < n" "sizes_ok \<sigma>"
    and "\<And>i. terminates (\<sigma> i) \<Longrightarrow> mr_size (\<sigma> i) < 2 ^ 64"
    and "no_straddle (windows n \<sigma> m 0 (addrrange_make 0 (2 ^ 64)))"
  shows "\<exists>view. generate_memory_topology n \<sigma> m = Inr view \<and> flat_ok view \<and>
    (\<forall>x. flat_lookup view x = resolve n \<sigma> m 0 (addrrange_make 0 (2 ^ 64)) False x)"
proof -
  let ?clip = "addrrange_make 0 (2 ^ 64)"
  have clip: "0 \<le> ar_size ?clip" by (simp add: addrrange_make_def)
  obtain v where v: "render_memory_region n \<sigma> flatview_init m 0 ?clip False = Inr v"
    using render_total [OF assms(1-4) clip, of flatview_init 0 False]
    by (auto simp: flatview_init_def nonneg_sizes_def)
  have "renders (windows n \<sigma> m 0 ?clip) (resolve n \<sigma> m 0 ?clip False) [] v"
    using render_renders [OF v _ _ _ assms(3) clip, of "[]"] assms(5)
    by (simp add: flatview_init_def in_windows_def)
  then have "flat_ok v" "\<And>x. flat_lookup v x = resolve n \<sigma> m 0 ?clip False x"
    by (simp_all add: renders_def)
  then show ?thesis using flatview_simplify_spec [of v] v by (auto simp: generate_memory_topology_def)
qed

text \<open>A region that is not part of any tree, and a store with two regions below a root.\<close>

definition blank_region :: MemoryRegion where
  "blank_region = \<lparr>parent = None, mr_size = 0, mr_addr = 0, mr_offset = 0, backend_registered = False,
     destructor = memory_region_destructor_none, ram_addr = 0, terminates = False, readable = True,
     readonly = False, mr_alias = None, alias_offset = 0, priority = 0, may_overlap = False,
     subregions = [], coalesced = [], mr_name = [], dirty_log_mask = 0, ioeventfds = []\<rparr>"

definition two_regions :: "phys_addr \<Rightarrow> mr_store" where
  "two_regions off i =
     (if i = 0 then blank_region\<lparr>mr_size := 2 ^ 64, subregions := [1, 2]\<rparr>
      else if i = 1 then blank_region\<lparr>mr_size := 100, terminates := True\<rparr>
      else if i = 2 then blank_region\<lparr>mr_size := 100, mr_addr := off, terminates := True\<rparr>
      else blank_region)"

theorem topology_resolves_witness:
  "\<exists>view. generate_memory_topology 2 (two_regions 100) 0 = Inr view \<and> flat_ok view \<and>
    (\<forall>x. flat_lookup view x = resolve 2 (two_regions 100) 0 0 (addrrange_make 0 (2 ^ 64)) False x)"
proof (rule topology_resolves)
  show "ranked (two_regions 100) (\<lambda>i. if i = 0 then 1 else 0)"
    by (simp add: ranked_def two_regions_def blank_region_def)
  show "sizes_ok (two_regions 100)" by (simp add: sizes_ok_def two_regions_def blank_region_def)
  show "no_straddle (windows 2 (two_regions 100) 0 0 (addrrange_make 0 (2 ^ 64)))" by code_simp
qed (auto simp: two_regions_def blank_region_def split: if_splits)

section \<open>Regions that begin inside of a range\<close>

lemma fill_gaps_keeps: "fill_gaps mk base remain off view = Inr v \<Longrightarrow> set view \<subseteq> set v"
proof (induction view arbitrary: base remain off v)
  case (Cons r rs)
  then show ?case by (fastforce split: if_splits)
qed simp

lemma fill_gaps_at_base:
  assumes "\<forall>s\<in>set view. base < ar_start (fr_addr s) \<and> 0 < ar_size (fr_addr s)" "0 < remain" "fill_gaps mk base remain off view = Inr v"
  shows "\<exists>now. 0 < now \<and> mk base now off \<in> set v"
proof (cases view)
  case (Cons r rs)
  then have "base < ar_start (fr_addr r)" "\<not> addrrange_end (fr_addr r) \<le> base" using assms(1) by (auto simp: addrrange_end_def)
  then have "mk base (min remain (ar_start (fr_addr r) - base)) off \<in> set v" "0 < min remain (ar_start (fr_addr r) - base)"
    using assms(2,3) Cons by (auto simp: gap_before_def Let_def)
  then show ?thesis by blast
qed (use assms in auto)

lemma fill_gaps_straddled:
  assumes "flat_ok view" "r \<in> set view" "straddles base r" "0 < remain" "fill_gaps mk base remain off view = Inr v"
  shows "\<exists>now. 0 < now \<and> mk base now off \<in> set v"
  using assms
proof (induction view arbitrary: v)
  case (Cons s rs)
  show ?case
  proof (cases "s = r")
    case True
    then have s: "ar_start (fr_addr s) < base" "\<not> addrrange_end (fr_addr s) \<le> base" using Cons.prems(3) by (auto simp: straddles_def)
    then obtain v' where v': "fill_gaps mk base remain off rs = Inr v'" "v = s # v'"
      using Cons.prems(4,5) by (auto simp: gap_before_def skip_covered_def)
    have "\<forall>t\<in>set rs. base < ar_start (fr_addr t) \<and> 0 < ar_size (fr_addr t)"
      using Cons.prems(1) s(2) by (auto simp: flat_ok_def)
    then show ?thesis using fill_gaps_at_base [OF _ Cons.prems(4) v'(1)] v'(2) by auto
  next
    case False
    then have r: "r \<in> set rs" using Cons.prems(2) by simp
    then have "addrrange_end (fr_addr s) \<le> base" using Cons.prems(1,3) by (force simp: flat_ok_Cons straddles_def)
    then obtain v' where v': "fill_gaps mk base remain off rs = Inr v'" "v = s # v'" using Cons.prems(4,5) by auto
    then show ?thesis using Cons.IH [OF _ r Cons.prems(3,4) v'(1)] Cons.prems(1) by (auto simp: flat_ok_Cons)
  qed
qed simp

lemma flat_ok_disjoint:
  assumes "flat_ok v" "a \<in> set v" "b \<in> set v" "addrrange_contains (fr_addr a) x" "addrrange_contains (fr_addr b) x"
  shows "a = b"
  using assms
proof (induction v)
  case (Cons r rs)
  then show ?case by (force simp: flat_ok_Cons addrrange_contains_def addrrange_end_def)
qed simp

text \<open>
  C38: a defect of the gap-filling loop. When a region begins strictly inside a range that is
  already in the view, where a region of higher priority has put it, the loop takes neither branch
  for that range, and adds a range of the new region that begins there: in the view that results,
  two different ranges contain that address, and the view is no longer flat, whatever else it holds and however
  large the region is (below 2^64 bytes).
\<close>

theorem straddling_region_overlaps:
  assumes "flat_ok view" "r \<in> set view" "straddles base r" "0 < remain" "remain < 2 ^ 64"
  shows "\<exists>v now. render_gaps (make_range m mr ro) view 0 base remain off = Inr v \<and>
    r \<in> set v \<and> make_range m mr ro base now off \<in> set v \<and>
    addrrange_contains (fr_addr r) base \<and> addrrange_contains (fr_addr (make_range m mr ro base now off)) base \<and> \<not> flat_ok v"
proof -
  let ?mk = "make_range m mr ro"
  have "nonneg_sizes view" using assms(1) by (auto simp: nonneg_sizes_def flat_ok_def intro: less_imp_le)
  then obtain v where v: "fill_gaps ?mk base remain off view = Inr v" "set view \<subseteq> set v"
    using fill_gaps_total [OF less_imp_le [OF assms(4)] assms(5)] fill_gaps_keeps by metis
  obtain now where now: "0 < now" "?mk base now off \<in> set v" using fill_gaps_straddled [OF assms(1-4) v(1)] by blast
  have c: "addrrange_contains (fr_addr r) base" "addrrange_contains (fr_addr (?mk base now off)) base"
    using assms(3) now(1) by (auto simp: straddles_def addrrange_contains_def addrrange_end_def)
  have "ar_start (fr_addr r) \<noteq> ar_start (fr_addr (?mk base now off))" using assms(3) by (simp add: straddles_def)
  then have "r \<noteq> ?mk base now off" by auto
  then have "\<not> flat_ok v" using flat_ok_disjoint [of v r "?mk base now off" base] v(2) assms(2) now(2) c by auto
  then show ?thesis
    using render_gaps_fill_gaps [of ?mk "[]" view base remain off] v assms(2) now(2) c by auto
qed

theorem straddling_region_overlaps_witness:
  "\<exists>v now. render_gaps (make_range 2 blank_region False) [make_range 1 blank_region False 0 100 0] 0 50 100 0 = Inr v \<and>
    make_range 1 blank_region False 0 100 0 \<in> set v \<and> make_range 2 blank_region False 50 now 0 \<in> set v \<and> \<not> flat_ok v"
proof -
  have "flat_ok [make_range 1 blank_region False 0 100 0]" "straddles 50 (make_range 1 blank_region False 0 100 0)"
    by (simp_all add: flat_ok_def straddles_def addrrange_end_def)
  from straddling_region_overlaps [OF this(1) _ this(2), of 100 2 blank_region False 0] show ?thesis by auto
qed

text \<open>The same for whole regions: 100 bytes at 0, and 100 bytes at 50 below them.\<close>

lemma straddling_example:
  "case generate_memory_topology 2 (two_regions 50) 0 of
     Inl _ \<Rightarrow> False
   | Inr v \<Rightarrow> map (\<lambda>f. (fr_mr f, ar_start (fr_addr f), ar_size (fr_addr f))) v = [(1, 0, 100), (2, 50, 100)] \<and>
       \<not> flat_ok v"
  by code_simp

end
