(* ===== verification/Memory_Topology.thy ===== *)
theory Memory_Topology
  imports Memory_Flat "HOL-Library.Product_Lexorder"
begin

text \<open>
  Address spaces and the operations on memory regions (\<open>memory.c\<close>): the comparison of the
  old and the new flat view and the calls it issues to the physical memory layer
  (\<open>exec.c\<close>, \<open>ioport.c\<close>, KVM), the same for event file descriptors, transactions, region
  construction, subregions, coalesced ranges and attributes.

  The calls to the layers below are recorded in order in \<open>phys_calls\<close>. What these layers
  return is an environment: the index \<open>cpu_register_io_memory\<close> gives to a region, the
  result of the KVM calls, and the fuel of the rendering.
\<close>

section \<open>State\<close>

record AddressSpace =
  as_root :: "mr_id option"
  current_map :: FlatView
  as_ioeventfds :: "MemoryRegionIoeventfd list"

datatype as_id = address_space_memory | address_space_io

text \<open>The calls through \<open>as->ops\<close>.\<close>

datatype as_event =
    range_add FlatRange
  | range_del FlatRange
  | log_start FlatRange
  | log_stop FlatRange
  | ioeventfd_add MemoryRegionIoeventfd
  | ioeventfd_del MemoryRegionIoeventfd

datatype phys_call =
    cpu_register_physical_memory_log u64 u64 u64 u64 u8
  | cpu_physical_sync_dirty_bitmap u64 u64
  | cpu_physical_log_start u64 u64
  | cpu_physical_log_stop u64 u64
  | kvm_set_ioeventfd_mmio_long int u64 u64 bool
  | kvm_set_ioeventfd_pio_word int u64 u64 bool
  | ioport_register mr_id u64 u64
  | isa_unassign_ioport u64 u64
  | qemu_register_coalesced_mmio u64 u64
  | qemu_unregister_coalesced_mmio u64 u64

record mem_state =
  regions :: mr_store
  memory_region_transaction_depth :: u32
  spaces :: "as_id \<Rightarrow> AddressSpace"
  phys_calls :: "phys_call list"

record mem_env =
  cpu_register_io_memory :: "mr_id \<Rightarrow> u64"
  kvm_result :: int
  fuel :: nat

definition upd_region :: "mr_id \<Rightarrow> (MemoryRegion \<Rightarrow> MemoryRegion) \<Rightarrow> mem_state \<Rightarrow> mem_state" where
  "upd_region m f s = s\<lparr>regions := (regions s)(m := f (regions s m))\<rparr>"

definition upd_space :: "as_id \<Rightarrow> (AddressSpace \<Rightarrow> AddressSpace) \<Rightarrow> mem_state \<Rightarrow> mem_state" where
  "upd_space a f s = s\<lparr>spaces := (spaces s)(a := f (spaces s a))\<rparr>"

definition emit :: "phys_call \<Rightarrow> mem_state \<Rightarrow> mem_state" where
  "emit c s = s\<lparr>phys_calls := phys_calls s @ [c]\<rparr>"

section \<open>Event file descriptors\<close>

definition memory_region_ioeventfd_before :: "MemoryRegionIoeventfd \<Rightarrow> MemoryRegionIoeventfd \<Rightarrow> bool" where
  "memory_region_ioeventfd_before a b =
     (if ar_start (ev_addr a) < ar_start (ev_addr b) then True
      else if ar_start (ev_addr a) > ar_start (ev_addr b) then False
      else if ar_size (ev_addr a) < ar_size (ev_addr b) then True
      else if ar_size (ev_addr a) > ar_size (ev_addr b) then False
      else if \<not> match_data a \<and> match_data b then True
      else if match_data a \<and> \<not> match_data b then False
      else if match_data a \<and> ev_data a < ev_data b then True
      else if match_data a \<and> ev_data a > ev_data b then False
      else if ev_fd a < ev_fd b then True
      else False)"

definition memory_region_ioeventfd_equal :: "MemoryRegionIoeventfd \<Rightarrow> MemoryRegionIoeventfd \<Rightarrow> bool" where
  "memory_region_ioeventfd_equal a b \<longleftrightarrow>
     \<not> memory_region_ioeventfd_before a b \<and> \<not> memory_region_ioeventfd_before b a"

text \<open>The two indices of \<open>address_space_add_del_ioeventfds\<close> are the heads of the two lists.\<close>

fun address_space_add_del_ioeventfds ::
  "MemoryRegionIoeventfd list \<Rightarrow> MemoryRegionIoeventfd list \<Rightarrow> as_event list" where
  "address_space_add_del_ioeventfds [] [] = []"
| "address_space_add_del_ioeventfds [] (old # olds) =
     ioeventfd_del old # address_space_add_del_ioeventfds [] olds"
| "address_space_add_del_ioeventfds (new # news) [] =
     ioeventfd_add new # address_space_add_del_ioeventfds news []"
| "address_space_add_del_ioeventfds (new # news) (old # olds) =
     (if memory_region_ioeventfd_before old new
      then ioeventfd_del old # address_space_add_del_ioeventfds (new # news) olds
      else if memory_region_ioeventfd_before new old
      then ioeventfd_add new # address_space_add_del_ioeventfds news (old # olds)
      else address_space_add_del_ioeventfds news olds)"

definition range_ioeventfds :: "mr_store \<Rightarrow> FlatRange \<Rightarrow> MemoryRegionIoeventfd list" where
  "range_ioeventfds \<sigma> fr =
     concat (map (\<lambda>e. let tmp = addrrange_shift (ev_addr e)
                            (ar_start (fr_addr fr) - uint (offset_in_region fr))
                      in if addrrange_intersects (fr_addr fr) tmp then [e\<lparr>ev_addr := tmp\<rparr>] else [])
              (ioeventfds (\<sigma> (fr_mr fr))))"

section \<open>Calls to the layers below\<close>

definition TARGET_PAGE_MASK :: u64 where
  "TARGET_PAGE_MASK = NOT (2 ^ 10 - 1)"

definition IO_MEM_ROM :: u64 where "IO_MEM_ROM = 8"
definition IO_MEM_UNASSIGNED :: u64 where "IO_MEM_UNASSIGNED = 16"
definition IO_MEM_ROMD :: u64 where "IO_MEM_ROMD = 1"

definition memory_region_prepare_ram_addr :: "mem_env \<Rightarrow> mr_id \<Rightarrow> mem_state \<Rightarrow> mem_state" where
  "memory_region_prepare_ram_addr env m s =
     (if backend_registered (regions s m) then s
      else upd_region m (\<lambda>mr. mr\<lparr>destructor := memory_region_destructor_iomem,
             ram_addr := cpu_register_io_memory env m, backend_registered := True\<rparr>) s)"

definition as_memory_range_add :: "mem_env \<Rightarrow> FlatRange \<Rightarrow> mem_state \<Rightarrow> mem_state res" where
  "as_memory_range_add env fr s =
     (let s = memory_region_prepare_ram_addr env (fr_mr fr) s;
          phys_offset = ram_addr (regions s (fr_mr fr));
          region_offset = ucast (offset_in_region fr);
          (phys_offset, region_offset) =
            (if phys_offset AND NOT TARGET_PAGE_MASK \<le> IO_MEM_ROM
             then (phys_offset + region_offset, 0) else (phys_offset, region_offset));
          phys_offset = (if \<not> fr_readable fr
             then phys_offset AND (NOT TARGET_PAGE_MASK AND NOT IO_MEM_ROMD) else phys_offset);
          phys_offset = (if fr_readonly fr then phys_offset OR IO_MEM_ROM else phys_offset)
      in bindE (get64 (ar_start (fr_addr fr))) (\<lambda>start.
         bindE (get64 (ar_size (fr_addr fr))) (\<lambda>sz.
         Inr (emit (cpu_register_physical_memory_log start sz phys_offset region_offset
                (fr_dirty_log_mask fr)) s))))"

definition as_memory_range_del :: "FlatRange \<Rightarrow> mem_state \<Rightarrow> mem_state res" where
  "as_memory_range_del fr s =
     bindE (if fr_dirty_log_mask fr \<noteq> 0
            then bindE (get64 (ar_start (fr_addr fr))) (\<lambda>start.
                 bindE (get64 (addrrange_end (fr_addr fr))) (\<lambda>e.
                 Inr (emit (cpu_physical_sync_dirty_bitmap start e) s)))
            else Inr s) (\<lambda>s.
     bindE (get64 (ar_start (fr_addr fr))) (\<lambda>start.
     bindE (get64 (ar_size (fr_addr fr))) (\<lambda>sz.
     Inr (emit (cpu_register_physical_memory_log start sz IO_MEM_UNASSIGNED 0 0) s))))"

definition emit_range :: "(u64 \<Rightarrow> u64 \<Rightarrow> phys_call) \<Rightarrow> AddrRange \<Rightarrow> mem_state \<Rightarrow> mem_state res" where
  "emit_range c r s =
     bindE (get64 (ar_start r)) (\<lambda>start. bindE (get64 (ar_size r)) (\<lambda>sz. Inr (emit (c start sz) s)))"

definition as_memory_log_start :: "FlatRange \<Rightarrow> mem_state \<Rightarrow> mem_state res" where
  "as_memory_log_start fr s = emit_range cpu_physical_log_start (fr_addr fr) s"

definition as_memory_log_stop :: "FlatRange \<Rightarrow> mem_state \<Rightarrow> mem_state res" where
  "as_memory_log_stop fr s = emit_range cpu_physical_log_stop (fr_addr fr) s"

definition set_ioeventfd ::
  "(int \<Rightarrow> u64 \<Rightarrow> u64 \<Rightarrow> bool \<Rightarrow> phys_call) \<Rightarrow> mem_env \<Rightarrow> MemoryRegionIoeventfd \<Rightarrow> bool \<Rightarrow> mem_state \<Rightarrow> mem_state res" where
  "set_ioeventfd c env fd assign s =
     bindE (get64 (ar_start (ev_addr fd))) (\<lambda>start.
     if kvm_result env < 0 then Inl (assert_failed ''abort'')
     else Inr (emit (c (ev_fd fd) start (ev_data fd) assign) s))"

definition ioeventfd_size_is :: "u64 \<Rightarrow> MemoryRegionIoeventfd \<Rightarrow> mem_state \<Rightarrow> mem_state res" where
  "ioeventfd_size_is n fd s =
     (if \<not> match_data fd then Inl (assert_failed ''fd->match_data'')
      else bindE (get64 (ar_size (ev_addr fd))) (\<lambda>sz.
           if sz = n then Inr s else Inl (assert_failed ''int128_get64(fd->addr.size)'')))"

definition as_memory_ioeventfd_add :: "mem_env \<Rightarrow> MemoryRegionIoeventfd \<Rightarrow> mem_state \<Rightarrow> mem_state res" where
  "as_memory_ioeventfd_add env fd s =
     bindE (ioeventfd_size_is 4 fd s) (set_ioeventfd kvm_set_ioeventfd_mmio_long env fd True)"

definition as_memory_ioeventfd_del :: "mem_env \<Rightarrow> MemoryRegionIoeventfd \<Rightarrow> mem_state \<Rightarrow> mem_state res" where
  "as_memory_ioeventfd_del env fd s = set_ioeventfd kvm_set_ioeventfd_mmio_long env fd False s"

definition as_io_range_add :: "FlatRange \<Rightarrow> mem_state \<Rightarrow> mem_state res" where
  "as_io_range_add fr s = emit_range (ioport_register (fr_mr fr)) (fr_addr fr) s"

definition as_io_range_del :: "FlatRange \<Rightarrow> mem_state \<Rightarrow> mem_state res" where
  "as_io_range_del fr s = emit_range isa_unassign_ioport (fr_addr fr) s"

definition as_io_ioeventfd_add :: "mem_env \<Rightarrow> MemoryRegionIoeventfd \<Rightarrow> mem_state \<Rightarrow> mem_state res" where
  "as_io_ioeventfd_add env fd s =
     bindE (ioeventfd_size_is 2 fd s) (set_ioeventfd kvm_set_ioeventfd_pio_word env fd True)"

definition as_io_ioeventfd_del :: "mem_env \<Rightarrow> MemoryRegionIoeventfd \<Rightarrow> mem_state \<Rightarrow> mem_state res" where
  "as_io_ioeventfd_del env fd s = set_ioeventfd kvm_set_ioeventfd_pio_word env fd False s"

text \<open>
  The tables \<open>address_space_ops_memory\<close> and \<open>address_space_ops_io\<close>. The second has no
  \<open>log_start\<close> and \<open>log_stop\<close>: a call goes through a null pointer.
\<close>

fun as_ops :: "mem_env \<Rightarrow> as_id \<Rightarrow> as_event \<Rightarrow> mem_state \<Rightarrow> mem_state res" where
  "as_ops env address_space_memory (range_add fr) s = as_memory_range_add env fr s"
| "as_ops env address_space_memory (range_del fr) s = as_memory_range_del fr s"
| "as_ops env address_space_memory (log_start fr) s = as_memory_log_start fr s"
| "as_ops env address_space_memory (log_stop fr) s = as_memory_log_stop fr s"
| "as_ops env address_space_memory (ioeventfd_add fd) s = as_memory_ioeventfd_add env fd s"
| "as_ops env address_space_memory (ioeventfd_del fd) s = as_memory_ioeventfd_del env fd s"
| "as_ops env address_space_io (range_add fr) s = as_io_range_add fr s"
| "as_ops env address_space_io (range_del fr) s = as_io_range_del fr s"
| "as_ops env address_space_io (log_start fr) s = Inl (out_of_bounds ''as->ops->log_start'')"
| "as_ops env address_space_io (log_stop fr) s = Inl (out_of_bounds ''as->ops->log_stop'')"
| "as_ops env address_space_io (ioeventfd_add fd) s = as_io_ioeventfd_add env fd s"
| "as_ops env address_space_io (ioeventfd_del fd) s = as_io_ioeventfd_del env fd s"

section \<open>Topology updates\<close>

definition log_change :: "FlatRange \<Rightarrow> FlatRange \<Rightarrow> as_event list" where
  "log_change frold frnew =
     (if fr_dirty_log_mask frold \<noteq> 0 \<and> fr_dirty_log_mask frnew = 0 then [log_stop frnew]
      else if fr_dirty_log_mask frnew \<noteq> 0 \<and> fr_dirty_log_mask frold = 0 then [log_start frnew]
      else [])"

fun address_space_update_topology_pass :: "FlatView \<Rightarrow> FlatView \<Rightarrow> bool \<Rightarrow> as_event list" where
  "address_space_update_topology_pass [] [] adding = []"
| "address_space_update_topology_pass (frold # olds) [] adding =
     (if \<not> adding then [range_del frold] else []) @ address_space_update_topology_pass olds [] adding"
| "address_space_update_topology_pass [] (frnew # news) adding =
     (if adding then [range_add frnew] else []) @ address_space_update_topology_pass [] news adding"
| "address_space_update_topology_pass (frold # olds) (frnew # news) adding =
     (if ar_start (fr_addr frold) < ar_start (fr_addr frnew) \<or>
         (ar_start (fr_addr frold) = ar_start (fr_addr frnew) \<and> \<not> flatrange_equal frold frnew)
      then (if \<not> adding then [range_del frold] else []) @
           address_space_update_topology_pass olds (frnew # news) adding
      else if flatrange_equal frold frnew
      then (if adding then log_change frold frnew else []) @
           address_space_update_topology_pass olds news adding
      else (if adding then [range_add frnew] else []) @
           address_space_update_topology_pass (frold # olds) news adding)"

definition address_space_update_ioeventfds :: "mem_env \<Rightarrow> as_id \<Rightarrow> mem_state \<Rightarrow> mem_state res" where
  "address_space_update_ioeventfds env a s =
     (let fds = concat (map (range_ioeventfds (regions s)) (current_map (spaces s a)))
      in bindE (foldE (as_ops env a)
                  (address_space_add_del_ioeventfds fds (as_ioeventfds (spaces s a))) s) (\<lambda>s.
         Inr (upd_space a (\<lambda>as. as\<lparr>as_ioeventfds := fds\<rparr>) s)))"

definition address_space_update_topology :: "mem_env \<Rightarrow> as_id \<Rightarrow> mr_id \<Rightarrow> mem_state \<Rightarrow> mem_state res" where
  "address_space_update_topology env a root s =
     (let old_view = current_map (spaces s a)
      in bindE (generate_memory_topology (fuel env) (regions s) root) (\<lambda>new_view.
         bindE (foldE (as_ops env a) (address_space_update_topology_pass old_view new_view False) s) (\<lambda>s.
         bindE (foldE (as_ops env a) (address_space_update_topology_pass old_view new_view True) s) (\<lambda>s.
         address_space_update_ioeventfds env a
           (upd_space a (\<lambda>as. as\<lparr>current_map := new_view\<rparr>) s)))))"

definition update_space :: "mem_env \<Rightarrow> as_id \<Rightarrow> mem_state \<Rightarrow> mem_state res" where
  "update_space env a s =
     (case as_root (spaces s a) of None \<Rightarrow> Inr s | Some root \<Rightarrow> address_space_update_topology env a root s)"

definition memory_region_update_topology :: "mem_env \<Rightarrow> mem_state \<Rightarrow> mem_state res" where
  "memory_region_update_topology env s =
     (if memory_region_transaction_depth s \<noteq> 0 then Inr s
      else bindE (update_space env address_space_memory s) (update_space env address_space_io))"

definition memory_region_transaction_begin :: "mem_state \<Rightarrow> mem_state" where
  "memory_region_transaction_begin s =
     s\<lparr>memory_region_transaction_depth := memory_region_transaction_depth s + 1\<rparr>"

definition memory_region_transaction_commit :: "mem_env \<Rightarrow> mem_state \<Rightarrow> mem_state res" where
  "memory_region_transaction_commit env s =
     (if memory_region_transaction_depth s = 0
      then Inl (assert_failed ''memory_region_transaction_depth'')
      else memory_region_update_topology env
             (s\<lparr>memory_region_transaction_depth := memory_region_transaction_depth s - 1\<rparr>))"

section \<open>Region construction\<close>

definition UINT64_MAX :: u64 where "UINT64_MAX = - 1"

text \<open>The fields \<open>backend_registered\<close>, \<open>ram_addr\<close> and \<open>alias_offset\<close> keep what they hold.\<close>

definition memory_region_init :: "mr_id \<Rightarrow> string \<Rightarrow> u64 \<Rightarrow> mem_state \<Rightarrow> mem_state" where
  "memory_region_init m nm sz =
     upd_region m (\<lambda>mr. mr\<lparr>parent := None,
       mr_size := (if sz = UINT64_MAX then 2 ^ 64 else uint sz),
       mr_addr := 0, mr_offset := 0, terminates := False, readable := True, readonly := False,
       destructor := memory_region_destructor_none, priority := 0, may_overlap := False,
       mr_alias := None, subregions := [], coalesced := [], mr_name := nm, dirty_log_mask := 0,
       ioeventfds := []\<rparr>)"

definition memory_region_init_io :: "mr_id \<Rightarrow> string \<Rightarrow> u64 \<Rightarrow> mem_state \<Rightarrow> mem_state" where
  "memory_region_init_io m nm sz s =
     upd_region m (\<lambda>mr. mr\<lparr>terminates := True, backend_registered := False\<rparr>) (memory_region_init m nm sz s)"

text \<open>The last argument is the address \<open>qemu_ram_alloc\<close> returns.\<close>

definition memory_region_init_ram :: "mr_id \<Rightarrow> string \<Rightarrow> u64 \<Rightarrow> u64 \<Rightarrow> mem_state \<Rightarrow> mem_state" where
  "memory_region_init_ram m nm sz ram s =
     upd_region m (\<lambda>mr. mr\<lparr>terminates := True, destructor := memory_region_destructor_ram,
       ram_addr := ram, backend_registered := True\<rparr>) (memory_region_init m nm sz s)"

definition memory_region_init_ram_ptr :: "mr_id \<Rightarrow> string \<Rightarrow> u64 \<Rightarrow> u64 \<Rightarrow> mem_state \<Rightarrow> mem_state" where
  "memory_region_init_ram_ptr m nm sz ram s =
     upd_region m (\<lambda>mr. mr\<lparr>terminates := True, destructor := memory_region_destructor_ram_from_ptr,
       ram_addr := ram, backend_registered := True\<rparr>) (memory_region_init m nm sz s)"

definition memory_region_init_alias ::
  "mr_id \<Rightarrow> string \<Rightarrow> mr_id \<Rightarrow> phys_addr \<Rightarrow> u64 \<Rightarrow> mem_state \<Rightarrow> mem_state" where
  "memory_region_init_alias m nm orig offset sz s =
     upd_region m (\<lambda>mr. mr\<lparr>mr_alias := Some orig, alias_offset := offset\<rparr>) (memory_region_init m nm sz s)"

definition memory_region_init_rom_device ::
  "mem_env \<Rightarrow> mr_id \<Rightarrow> string \<Rightarrow> u64 \<Rightarrow> u64 \<Rightarrow> mem_state \<Rightarrow> mem_state" where
  "memory_region_init_rom_device env m nm sz ram s =
     upd_region m (\<lambda>mr. mr\<lparr>terminates := True, destructor := memory_region_destructor_rom_device,
       ram_addr := ram OR cpu_register_io_memory env m OR IO_MEM_ROMD, backend_registered := True\<rparr>)
       (memory_region_init m nm sz s)"

definition memory_region_size :: "mr_id \<Rightarrow> mem_state \<Rightarrow> u64 res" where
  "memory_region_size m s =
     (if mr_size (regions s m) = 2 ^ 64 then Inr UINT64_MAX else get64 (mr_size (regions s m)))"

section \<open>Attributes of a region\<close>

definition memory_region_set_offset :: "mr_id \<Rightarrow> phys_addr \<Rightarrow> mem_state \<Rightarrow> mem_state" where
  "memory_region_set_offset m offset = upd_region m (\<lambda>mr. mr\<lparr>mr_offset := offset\<rparr>)"

definition memory_region_set_log :: "mem_env \<Rightarrow> mr_id \<Rightarrow> bool \<Rightarrow> nat \<Rightarrow> mem_state \<Rightarrow> mem_state res" where
  "memory_region_set_log env m log client s =
     (let mask = 2 ^ client
      in memory_region_update_topology env
           (upd_region m (\<lambda>mr. mr\<lparr>dirty_log_mask :=
              (dirty_log_mask mr AND NOT mask) OR (if log then mask else 0)\<rparr>) s))"

definition memory_region_sync_dirty_bitmap :: "mr_id \<Rightarrow> mem_state \<Rightarrow> mem_state res" where
  "memory_region_sync_dirty_bitmap m s =
     foldE (\<lambda>fr s. if fr_mr fr = m
                   then bindE (get64 (ar_start (fr_addr fr))) (\<lambda>start.
                        bindE (get64 (addrrange_end (fr_addr fr))) (\<lambda>e.
                        Inr (emit (cpu_physical_sync_dirty_bitmap start e) s)))
                   else Inr s)
       (current_map (spaces s address_space_memory)) s"

definition memory_region_set_readonly :: "mem_env \<Rightarrow> mr_id \<Rightarrow> bool \<Rightarrow> mem_state \<Rightarrow> mem_state res" where
  "memory_region_set_readonly env m ro s =
     (if readonly (regions s m) \<noteq> ro
      then memory_region_update_topology env (upd_region m (\<lambda>mr. mr\<lparr>readonly := ro\<rparr>) s)
      else Inr s)"

definition memory_region_rom_device_set_readable :: "mem_env \<Rightarrow> mr_id \<Rightarrow> bool \<Rightarrow> mem_state \<Rightarrow> mem_state res" where
  "memory_region_rom_device_set_readable env m rd s =
     (if readable (regions s m) \<noteq> rd
      then memory_region_update_topology env (upd_region m (\<lambda>mr. mr\<lparr>readable := rd\<rparr>) s)
      else Inr s)"

section \<open>Coalesced ranges\<close>

definition coalesced_part :: "FlatRange \<Rightarrow> AddrRange \<Rightarrow> mem_state \<Rightarrow> mem_state res" where
  "coalesced_part fr cmr s =
     (let tmp = addrrange_shift cmr (ar_start (fr_addr fr) - uint (offset_in_region fr))
      in if \<not> addrrange_intersects tmp (fr_addr fr) then Inr s
         else emit_range qemu_register_coalesced_mmio (addrrange_intersection tmp (fr_addr fr)) s)"

definition memory_region_update_coalesced_range :: "mr_id \<Rightarrow> mem_state \<Rightarrow> mem_state res" where
  "memory_region_update_coalesced_range m s =
     foldE (\<lambda>fr s. if fr_mr fr = m
                   then bindE (emit_range qemu_unregister_coalesced_mmio (fr_addr fr) s)
                          (foldE (coalesced_part fr) (coalesced (regions s m)))
                   else Inr s)
       (current_map (spaces s address_space_memory)) s"

definition memory_region_add_coalescing :: "mr_id \<Rightarrow> phys_addr \<Rightarrow> u64 \<Rightarrow> mem_state \<Rightarrow> mem_state res" where
  "memory_region_add_coalescing m offset sz s =
     memory_region_update_coalesced_range m
       (upd_region m (\<lambda>mr. mr\<lparr>coalesced := coalesced mr @ [addrrange_make (uint offset) (uint sz)]\<rparr>) s)"

definition memory_region_clear_coalescing :: "mr_id \<Rightarrow> mem_state \<Rightarrow> mem_state res" where
  "memory_region_clear_coalescing m s =
     memory_region_update_coalesced_range m (upd_region m (\<lambda>mr. mr\<lparr>coalesced := []\<rparr>) s)"

definition memory_region_set_coalescing :: "mr_id \<Rightarrow> mem_state \<Rightarrow> mem_state res" where
  "memory_region_set_coalescing m s =
     bindE (memory_region_clear_coalescing m s) (\<lambda>s.
     bindE (get64 (mr_size (regions s m))) (\<lambda>sz. memory_region_add_coalescing m 0 sz s))"

text \<open>The destructor releases host memory and is not modelled further than its choice.\<close>

definition memory_region_destroy :: "mr_id \<Rightarrow> mem_state \<Rightarrow> mem_state res" where
  "memory_region_destroy m s =
     (if subregions (regions s m) \<noteq> [] then Inl (assert_failed ''QTAILQ_EMPTY(&mr->subregions)'')
      else memory_region_clear_coalescing m s)"

section \<open>Event file descriptors of a region\<close>

definition make_ioeventfd :: "phys_addr \<Rightarrow> u32 \<Rightarrow> bool \<Rightarrow> u64 \<Rightarrow> int \<Rightarrow> MemoryRegionIoeventfd" where
  "make_ioeventfd a sz md d f =
     \<lparr>ev_addr = addrrange_make (uint a) (uint sz), match_data = md, ev_data = d, ev_fd = f\<rparr>"

fun insert_ioeventfd :: "MemoryRegionIoeventfd \<Rightarrow> MemoryRegionIoeventfd list \<Rightarrow> MemoryRegionIoeventfd list" where
  "insert_ioeventfd e [] = [e]"
| "insert_ioeventfd e (x # xs) =
     (if memory_region_ioeventfd_before e x then e # x # xs else x # insert_ioeventfd e xs)"

definition memory_region_add_eventfd ::
  "mem_env \<Rightarrow> mr_id \<Rightarrow> phys_addr \<Rightarrow> u32 \<Rightarrow> bool \<Rightarrow> u64 \<Rightarrow> int \<Rightarrow> mem_state \<Rightarrow> mem_state res" where
  "memory_region_add_eventfd env m a sz md d f s =
     memory_region_update_topology env
       (upd_region m (\<lambda>mr. mr\<lparr>ioeventfds := insert_ioeventfd (make_ioeventfd a sz md d f) (ioeventfds mr)\<rparr>) s)"

fun delete_ioeventfd ::
  "MemoryRegionIoeventfd \<Rightarrow> MemoryRegionIoeventfd list \<Rightarrow> MemoryRegionIoeventfd list option" where
  "delete_ioeventfd e [] = None"
| "delete_ioeventfd e (x # xs) =
     (if memory_region_ioeventfd_equal e x then Some xs
      else map_option ((#) x) (delete_ioeventfd e xs))"

definition memory_region_del_eventfd ::
  "mem_env \<Rightarrow> mr_id \<Rightarrow> phys_addr \<Rightarrow> u32 \<Rightarrow> bool \<Rightarrow> u64 \<Rightarrow> int \<Rightarrow> mem_state \<Rightarrow> mem_state res" where
  "memory_region_del_eventfd env m a sz md d f s =
     (case delete_ioeventfd (make_ioeventfd a sz md d f) (ioeventfds (regions s m)) of
        None \<Rightarrow> Inl (assert_failed ''i != mr->ioeventfd_nb'')
      | Some fds \<Rightarrow> memory_region_update_topology env (upd_region m (\<lambda>mr. mr\<lparr>ioeventfds := fds\<rparr>) s))"

section \<open>Subregions\<close>

text \<open>
  The first loop over the subregions only looks for collisions to print, in code that is
  compiled out. The second inserts the subregion before the first one whose priority is
  not higher.
\<close>

fun insert_subregion :: "mr_store \<Rightarrow> mr_id \<Rightarrow> mr_id list \<Rightarrow> mr_id list" where
  "insert_subregion \<sigma> sub [] = [sub]"
| "insert_subregion \<sigma> sub (other # others) =
     (if priority (\<sigma> sub) \<ge> priority (\<sigma> other) then sub # other # others
      else other # insert_subregion \<sigma> sub others)"

definition memory_region_add_subregion_common ::
  "mem_env \<Rightarrow> mr_id \<Rightarrow> phys_addr \<Rightarrow> mr_id \<Rightarrow> mem_state \<Rightarrow> mem_state res" where
  "memory_region_add_subregion_common env m offset sub s =
     (if parent (regions s sub) \<noteq> None then Inl (assert_failed ''!subregion->parent'')
      else let s = upd_region sub (\<lambda>mr. mr\<lparr>parent := Some m, mr_addr := offset\<rparr>) s
           in memory_region_update_topology env
                (upd_region m (\<lambda>mr. mr\<lparr>subregions := insert_subregion (regions s) sub (subregions mr)\<rparr>) s))"

definition memory_region_add_subregion ::
  "mem_env \<Rightarrow> mr_id \<Rightarrow> phys_addr \<Rightarrow> mr_id \<Rightarrow> mem_state \<Rightarrow> mem_state res" where
  "memory_region_add_subregion env m offset sub s =
     memory_region_add_subregion_common env m offset sub
       (upd_region sub (\<lambda>mr. mr\<lparr>may_overlap := False, priority := 0\<rparr>) s)"

definition memory_region_add_subregion_overlap ::
  "mem_env \<Rightarrow> mr_id \<Rightarrow> phys_addr \<Rightarrow> mr_id \<Rightarrow> u32 \<Rightarrow> mem_state \<Rightarrow> mem_state res" where
  "memory_region_add_subregion_overlap env m offset sub prio s =
     memory_region_add_subregion_common env m offset sub
       (upd_region sub (\<lambda>mr. mr\<lparr>may_overlap := True, priority := prio\<rparr>) s)"

definition memory_region_del_subregion :: "mem_env \<Rightarrow> mr_id \<Rightarrow> mr_id \<Rightarrow> mem_state \<Rightarrow> mem_state res" where
  "memory_region_del_subregion env m sub s =
     (if parent (regions s sub) \<noteq> Some m then Inl (assert_failed ''subregion->parent == mr'')
      else memory_region_update_topology env
             (upd_region m (\<lambda>mr. mr\<lparr>subregions := remove1 sub (subregions mr)\<rparr>)
               (upd_region sub (\<lambda>mr. mr\<lparr>parent := None\<rparr>) s)))"

definition set_system_memory_map :: "mem_env \<Rightarrow> mr_id \<Rightarrow> mem_state \<Rightarrow> mem_state res" where
  "set_system_memory_map env m s =
     memory_region_update_topology env (upd_space address_space_memory (\<lambda>as. as\<lparr>as_root := Some m\<rparr>) s)"

definition set_system_io_map :: "mem_env \<Rightarrow> mr_id \<Rightarrow> mem_state \<Rightarrow> mem_state res" where
  "set_system_io_map env m s =
     memory_region_update_topology env (upd_space address_space_io (\<lambda>as. as\<lparr>as_root := Some m\<rparr>) s)"

section \<open>The passes turn the old map into the new one\<close>

text \<open>
  What the layers below know of an address: the target without the dirty logging mask,
  which the passes handle by \<open>log_start\<close> and \<open>log_stop\<close>.
\<close>

type_synonym phys_target = "mr_id \<times> phys_addr \<times> bool \<times> bool"

definition phys_part :: "mem_target \<Rightarrow> phys_target" where
  "phys_part t = (case t of (m, off, log, rd, ro) \<Rightarrow> (m, off, rd, ro))"

definition phys_view :: "FlatView \<Rightarrow> int \<Rightarrow> phys_target option" where
  "phys_view v x = map_option phys_part (flat_lookup v x)"

fun apply_event :: "as_event \<Rightarrow> (int \<Rightarrow> phys_target option) \<Rightarrow> int \<Rightarrow> phys_target option" where
  "apply_event (range_add fr) M x = (if addrrange_contains (fr_addr fr) x then Some (phys_part (fr_at fr x)) else M x)"
| "apply_event (range_del fr) M x = (if addrrange_contains (fr_addr fr) x then None else M x)"
| "apply_event e M x = M x"

definition starts_sorted :: "FlatView \<Rightarrow> bool" where
  "starts_sorted v \<longleftrightarrow> sorted_wrt (\<lambda>a b. ar_start (fr_addr a) < ar_start (fr_addr b)) v"

definition kept_by :: "FlatView \<Rightarrow> FlatRange \<Rightarrow> bool" where
  "kept_by v f \<longleftrightarrow> (\<exists>g\<in>set v. flatrange_equal f g)"

lemma flatrange_equal_sym: "flatrange_equal a b \<longleftrightarrow> flatrange_equal b a"
  by (auto simp: flatrange_equal_def addrrange_equal_def)

lemma flatrange_equal_start: "flatrange_equal a b \<Longrightarrow> ar_start (fr_addr a) = ar_start (fr_addr b)"
  by (simp add: flatrange_equal_def addrrange_equal_def)

lemma flat_ok_starts: "flat_ok v \<Longrightarrow> starts_sorted v"
  by (induction v) (fastforce simp: starts_sorted_def flat_ok_Cons addrrange_end_def)+

lemma starts_sorted_Cons [simp]:
  "starts_sorted (a # v) \<longleftrightarrow> (\<forall>b\<in>set v. ar_start (fr_addr a) < ar_start (fr_addr b)) \<and> starts_sorted v"
  by (simp add: starts_sorted_def)

lemma kept_by_Nil [simp]: "\<not> kept_by [] f"
  by (simp add: kept_by_def)

lemma kept_by_Cons [simp]: "kept_by (g # v) f \<longleftrightarrow> flatrange_equal f g \<or> kept_by v f"
  by (simp add: kept_by_def)

lemma not_kept_before:
  "\<forall>g\<in>set v. ar_start (fr_addr f) < ar_start (fr_addr g) \<Longrightarrow> \<not> kept_by v f"
  by (auto simp: kept_by_def dest!: flatrange_equal_start)

lemma pass_del:
  assumes "starts_sorted old" "starts_sorted new"
  shows "address_space_update_topology_pass old new False =
    map range_del (filter (\<lambda>f. \<not> kept_by new f) old)"
  using assms
proof (induction old new False rule: address_space_update_topology_pass.induct)
  case (4 frold olds frnew news)
  have after: "\<not> flatrange_equal f frnew" if "f \<in> set olds" "ar_start (fr_addr frnew) \<le> ar_start (fr_addr frold)" for f
    using "4.prems"(1) that flatrange_equal_start [of f frnew] by fastforce
  have new: "\<not> kept_by news frold" if "ar_start (fr_addr frold) \<le> ar_start (fr_addr frnew)"
    using "4.prems"(2) that by (intro not_kept_before) fastforce
  consider "ar_start (fr_addr frold) < ar_start (fr_addr frnew)"
    | "ar_start (fr_addr frold) = ar_start (fr_addr frnew)" "\<not> flatrange_equal frold frnew"
    | "flatrange_equal frold frnew" "ar_start (fr_addr frold) = ar_start (fr_addr frnew)"
    | "ar_start (fr_addr frnew) < ar_start (fr_addr frold)" "\<not> flatrange_equal frold frnew"
    using flatrange_equal_start [of frold frnew] by linarith
  then show ?case
    using 4 after new flatrange_equal_start [of frold frnew] by cases (auto cong: filter_cong)
qed auto

fun is_add :: "as_event \<Rightarrow> bool" where
  "is_add (range_add fr) = True"
| "is_add e = False"

lemma filter_add_log [simp]: "filter is_add (log_change a b) = []"
  by (simp add: log_change_def)

lemma pass_add:
  assumes "starts_sorted old" "starts_sorted new"
  shows "filter is_add (address_space_update_topology_pass old new True) =
    map range_add (filter (\<lambda>f. \<not> kept_by old f) new)"
  using assms
proof (induction old new True rule: address_space_update_topology_pass.induct)
  case (4 frold olds frnew news)
  have after: "\<not> flatrange_equal f frold" if "f \<in> set news" "ar_start (fr_addr frold) \<le> ar_start (fr_addr frnew)" for f
    using "4.prems"(2) that flatrange_equal_start [of f frold] by fastforce
  have old: "\<not> kept_by olds frnew" if "ar_start (fr_addr frnew) \<le> ar_start (fr_addr frold)"
    using "4.prems"(1) that by (intro not_kept_before) fastforce
  note sym = flatrange_equal_sym [of frold frnew]
  consider "ar_start (fr_addr frold) < ar_start (fr_addr frnew)"
    | "ar_start (fr_addr frold) = ar_start (fr_addr frnew)" "\<not> flatrange_equal frold frnew"
    | "flatrange_equal frold frnew" "ar_start (fr_addr frold) = ar_start (fr_addr frnew)"
    | "ar_start (fr_addr frnew) < ar_start (fr_addr frold)" "\<not> flatrange_equal frold frnew"
    using flatrange_equal_start [of frold frnew] by linarith
  then show ?case
    using 4 after old sym flatrange_equal_start [of frold frnew] by cases (auto cong: filter_cong)
qed auto

lemma pass_add_no_del: "range_del f \<notin> set (address_space_update_topology_pass old new True)"
  by (induction old new True rule: address_space_update_topology_pass.induct) (auto simp: log_change_def)

lemma fold_apply_del:
  "fold apply_event (map range_del fs) M x =
     (if \<exists>f\<in>set fs. addrrange_contains (fr_addr f) x then None else M x)"
  by (induction fs arbitrary: M) auto

lemma fold_apply_add:
  assumes "\<And>f. range_del f \<notin> set evs" and "filter is_add evs = map range_add fs" and "flat_ok fs"
  shows "fold apply_event evs M x = (case phys_view fs x of Some t \<Rightarrow> Some t | None \<Rightarrow> M x)"
  using assms
proof (induction evs arbitrary: fs M)
  case (Cons e evs)
  show ?case
  proof (cases e)
    case (range_add f)
    then obtain gs where gs: "fs = f # gs" "filter is_add evs = map range_add gs"
      using Cons.prems(2) by (cases fs) auto
    have "flat_ok gs" using Cons.prems(3) gs by (simp add: flat_ok_Cons)
    moreover have "flat_lookup gs x = None" if "addrrange_contains (fr_addr f) x"
      using Cons.prems(3) that unfolding gs
      by (intro flat_lookup_before [of _ "addrrange_end (fr_addr f)"]) (auto simp: flat_ok_Cons addrrange_contains_def)
    ultimately show ?thesis using Cons.IH [of gs] Cons.prems(1) gs range_add
      by (auto simp: phys_view_def split: option.splits)
  qed (use Cons in \<open>auto split: option.splits\<close>)
qed (simp add: phys_view_def)

lemma flat_ok_filter: "flat_ok v \<Longrightarrow> flat_ok (filter P v)"
  by (auto simp: flat_ok_def intro: sorted_wrt_filter)

lemma flat_ok_unique:
  assumes "flat_ok v" "f \<in> set v" "g \<in> set v" "addrrange_contains (fr_addr f) x" "addrrange_contains (fr_addr g) x"
  shows "f = g"
  using assms by (induction v) (fastforce simp: flat_ok_Cons addrrange_contains_def)+

lemma flat_lookup_in:
  assumes "flat_ok v" "f \<in> set v" "addrrange_contains (fr_addr f) x"
  shows "flat_lookup v x = Some (fr_at f x)"
  using assms
proof (induction v)
  case (Cons r v)
  then show ?case by (fastforce simp: flat_ok_Cons addrrange_contains_def)
qed simp

lemma flatrange_equal_target:
  assumes "flatrange_equal f g"
  shows "addrrange_contains (fr_addr f) x = addrrange_contains (fr_addr g) x"
    "phys_part (fr_at f x) = phys_part (fr_at g x)"
  using assms by (auto simp: flatrange_equal_def addrrange_equal_def addrrange_contains_def
      addrrange_end_def fr_at_def phys_part_def)

lemma passes_update:
  assumes "flat_ok old" and "flat_ok new"
  shows "fold apply_event (address_space_update_topology_pass old new True)
    (fold apply_event (address_space_update_topology_pass old new False) (phys_view old)) = phys_view new"
proof
  fix x
  let ?M = "fold apply_event (address_space_update_topology_pass old new False) (phys_view old)"
  have M: "?M x = (if \<exists>f\<in>set old. \<not> kept_by new f \<and> addrrange_contains (fr_addr f) x then None else phys_view old x)"
    using assms by (auto simp: pass_del flat_ok_starts fold_apply_del)
  have "fold apply_event (address_space_update_topology_pass old new True) ?M x =
      (case phys_view (filter (\<lambda>f. \<not> kept_by old f) new) x of Some t \<Rightarrow> Some t | None \<Rightarrow> ?M x)"
    using assms by (intro fold_apply_add) (simp_all add: pass_add_no_del pass_add flat_ok_starts flat_ok_filter)
  also have "\<dots> = phys_view new x"
  proof (cases "\<exists>g\<in>set new. addrrange_contains (fr_addr g) x")
    case True
    then obtain g where g: "g \<in> set new" "addrrange_contains (fr_addr g) x" by blast
    have new: "flat_lookup new x = Some (fr_at g x)" using flat_lookup_in [OF assms(2) g] .
    show ?thesis
    proof (cases "kept_by old g")
      case False
      with g have "flat_lookup (filter (\<lambda>f. \<not> kept_by old f) new) x = Some (fr_at g x)"
        by (intro flat_lookup_in flat_ok_filter assms) auto
      then show ?thesis by (simp add: phys_view_def new)
    next
      case True
      then obtain f where f: "f \<in> set old" "flatrange_equal g f" by (auto simp: kept_by_def)
      have fx: "addrrange_contains (fr_addr f) x" using flatrange_equal_target(1) [OF f(2), of x] g(2) by simp
      have only: "h = g" if "h \<in> set new" "addrrange_contains (fr_addr h) x" for h
        using flat_ok_unique [OF assms(2) that(1) g(1) that(2) g(2)] .
      have only_old: "h = f" if "h \<in> set old" "addrrange_contains (fr_addr h) x" for h
        using flat_ok_unique [OF assms(1) that(1) f(1) that(2) fx] .
      have "flat_lookup (filter (\<lambda>f. \<not> kept_by old f) new) x = None"
        using only True by (auto simp: flat_lookup_None_iff)
      moreover have "kept_by new f" using g(1) f(2) flatrange_equal_sym by (auto simp: kept_by_def)
      then have "?M x = Some (phys_part (fr_at f x))"
        using M only_old flat_lookup_in [OF assms(1) f(1) fx] by (auto simp: phys_view_def)
      ultimately show ?thesis
        using flatrange_equal_target(2) [OF f(2), of x] by (simp add: phys_view_def new)
    qed
  next
    case False
    then have none: "flat_lookup new x = None" "flat_lookup (filter (\<lambda>f. \<not> kept_by old f) new) x = None"
      by (auto simp: flat_lookup_None_iff)
    have "\<not> kept_by new f" if "addrrange_contains (fr_addr f) x" for f
      using False that flatrange_equal_target(1) by (auto simp: kept_by_def)
    then have "?M x = None" using M by (auto simp: phys_view_def flat_lookup_None_iff)
    then show ?thesis using none by (simp add: phys_view_def)
  qed
  finally show "fold apply_event (address_space_update_topology_pass old new True) ?M x = phys_view new x" .
qed

text \<open>
  C15: the two passes of a topology update are complete and exact: run one after the other
  on what the old view registered, they leave every address registered as the new view
  says, for all sorted disjoint views, and so for all that \<open>generate_memory_topology\<close>
  produces without straddling windows.
\<close>

theorem topology_passes_update:
  assumes "flat_ok old" and "flat_ok new"
  shows "fold apply_event (address_space_update_topology_pass old new True)
    (fold apply_event (address_space_update_topology_pass old new False) (phys_view old)) = phys_view new"
  by (rule passes_update [OF assms])

theorem topology_passes_update_witness:
  "let old = [make_range 1 blank_region False 0 100 0, make_range 2 blank_region False 100 50 0];
       new = [make_range 1 blank_region True 0 100 0, make_range 2 blank_region False 100 50 0,
              make_range 3 blank_region False 160 8 0]
   in fold apply_event (address_space_update_topology_pass old new True)
        (fold apply_event (address_space_update_topology_pass old new False) (phys_view old)) = phys_view new"
  unfolding Let_def
  by (rule topology_passes_update) (simp_all add: flat_ok_Cons addrrange_end_def)

section \<open>The views follow the region tree\<close>

text \<open>What a call to the layers below may change: how the region is backed.\<close>

definition backing_free :: "MemoryRegion \<Rightarrow> MemoryRegion" where
  "backing_free mr = mr\<lparr>backend_registered := False, destructor := memory_region_destructor_none, ram_addr := 0\<rparr>"

definition same_memory :: "mem_state \<Rightarrow> mem_state \<Rightarrow> bool" where
  "same_memory s t \<longleftrightarrow> (\<forall>m. backing_free (regions t m) = backing_free (regions s m)) \<and>
     (\<forall>a. as_root (spaces t a) = as_root (spaces s a)) \<and>
     memory_region_transaction_depth t = memory_region_transaction_depth s"

definition render_fields :: "MemoryRegion \<Rightarrow> int \<times> phys_addr \<times> bool \<times> bool \<times> bool \<times> mr_id option \<times> phys_addr \<times> mr_id list \<times> u8" where
  "render_fields mr = (mr_size mr, mr_addr mr, terminates mr, readable mr, readonly mr, mr_alias mr,
     alias_offset mr, subregions mr, dirty_log_mask mr)"

lemma same_memory_refl [simp]: "same_memory s s"
  by (simp add: same_memory_def)

lemma same_memory_trans: "same_memory s t \<Longrightarrow> same_memory t u \<Longrightarrow> same_memory s u"
  by (simp add: same_memory_def)

lemma render_cong:
  assumes "\<And>m. render_fields (\<sigma> m) = render_fields (\<tau> m)"
  shows "render_memory_region n \<sigma> view m base clip ro = render_memory_region n \<tau> view m base clip ro"
proof (induction n arbitrary: view m base clip ro)
  case (Suc n)
  have f: "mr_size (\<sigma> m) = mr_size (\<tau> m)" "mr_addr (\<sigma> m) = mr_addr (\<tau> m)" "terminates (\<sigma> m) = terminates (\<tau> m)"
    "readable (\<sigma> m) = readable (\<tau> m)" "readonly (\<sigma> m) = readonly (\<tau> m)" "mr_alias (\<sigma> m) = mr_alias (\<tau> m)"
    "alias_offset (\<sigma> m) = alias_offset (\<tau> m)" "subregions (\<sigma> m) = subregions (\<tau> m)"
    "dirty_log_mask (\<sigma> m) = dirty_log_mask (\<tau> m)" for m
    using assms [of m] by (simp_all add: render_fields_def)
  have mk: "make_range m (\<sigma> m) = make_range m (\<tau> m)"
    by (intro ext) (simp add: make_range_def f)
  show ?case by (simp only: render_memory_region.simps Suc.IH mk f Let_def)
qed simp

lemma topology_cong:
  "(\<And>m. render_fields (\<sigma> m) = render_fields (\<tau> m)) \<Longrightarrow> generate_memory_topology n \<sigma> r = generate_memory_topology n \<tau> r"
  using render_cong [of \<sigma> \<tau>] by (simp add: generate_memory_topology_def)

lemma backing_free_render: "backing_free a = backing_free b \<Longrightarrow> render_fields a = render_fields b"
  by (cases a; cases b) (simp add: backing_free_def render_fields_def)

lemma emit_frame [simp]:
  "regions (emit c s) = regions s" "spaces (emit c s) = spaces s"
  "memory_region_transaction_depth (emit c s) = memory_region_transaction_depth s"
  by (simp_all add: emit_def)

lemma prepare_frame:
  "spaces (memory_region_prepare_ram_addr env m s) = spaces s"
  "memory_region_transaction_depth (memory_region_prepare_ram_addr env m s) = memory_region_transaction_depth s"
  "backing_free (regions (memory_region_prepare_ram_addr env m s) k) = backing_free (regions s k)"
  by (simp_all add: memory_region_prepare_ram_addr_def upd_region_def backing_free_def)

lemmas as_ops_defs = as_memory_range_add_def as_memory_range_del_def emit_range_def as_memory_log_start_def
  as_memory_log_stop_def set_ioeventfd_def ioeventfd_size_is_def as_memory_ioeventfd_add_def
  as_memory_ioeventfd_del_def as_io_range_add_def as_io_range_del_def as_io_ioeventfd_add_def
  as_io_ioeventfd_del_def

lemma as_ops_frame:
  assumes "as_ops env a e s = Inr t"
  shows "spaces t = spaces s \<and> same_memory s t"
  using assms
  by (cases "(env, a, e, s)" rule: as_ops.cases)
    (auto simp: as_ops_defs same_memory_def prepare_frame Let_def split: if_splits prod.splits)

lemma foldE_as_ops_frame:
  "foldE (as_ops env a) evs s = Inr t \<Longrightarrow> spaces t = spaces s \<and> same_memory s t"
  by (induction evs arbitrary: s) (auto dest!: as_ops_frame intro: same_memory_trans)

lemma update_ioeventfds_frame:
  assumes "address_space_update_ioeventfds env a s = Inr t"
  shows "same_memory s t \<and> (\<forall>b. current_map (spaces t b) = current_map (spaces s b))"
proof -
  obtain fds u where u: "foldE (as_ops env a) (address_space_add_del_ioeventfds fds (as_ioeventfds (spaces s a))) s = Inr u"
    and t: "t = upd_space a (\<lambda>as. as\<lparr>as_ioeventfds := fds\<rparr>) u"
    using assms by (auto simp: address_space_update_ioeventfds_def Let_def)
  show ?thesis using foldE_as_ops_frame [OF u] by (auto simp: t upd_space_def same_memory_def)
qed

definition in_sync :: "mem_env \<Rightarrow> as_id \<Rightarrow> mem_state \<Rightarrow> bool" where
  "in_sync env a s \<longleftrightarrow> (\<forall>r. as_root (spaces s a) = Some r \<longrightarrow>
     generate_memory_topology (fuel env) (regions s) r = Inr (current_map (spaces s a)))"

lemma in_sync_frame:
  assumes "same_memory s t" "current_map (spaces t a) = current_map (spaces s a)" "in_sync env a s"
  shows "in_sync env a t"
proof -
  have "generate_memory_topology n (regions t) r = generate_memory_topology n (regions s) r" for n r
    using assms(1) by (intro topology_cong backing_free_render) (simp add: same_memory_def)
  then show ?thesis using assms by (simp add: in_sync_def same_memory_def)
qed

lemma update_space_sync:
  assumes "update_space env a s = Inr t"
  shows "same_memory s t \<and> in_sync env a t \<and> (\<forall>b. b \<noteq> a \<longrightarrow> current_map (spaces t b) = current_map (spaces s b))"
proof (cases "as_root (spaces s a)")
  case None
  then show ?thesis using assms by (simp add: update_space_def in_sync_def)
next
  case (Some r)
  then obtain v u1 u2 where v: "generate_memory_topology (fuel env) (regions s) r = Inr v"
    and u1: "foldE (as_ops env a) (address_space_update_topology_pass (current_map (spaces s a)) v False) s = Inr u1"
    and u2: "foldE (as_ops env a) (address_space_update_topology_pass (current_map (spaces s a)) v True) u1 = Inr u2"
    and t: "address_space_update_ioeventfds env a (upd_space a (\<lambda>as. as\<lparr>current_map := v\<rparr>) u2) = Inr t"
    using assms by (auto simp: update_space_def address_space_update_topology_def Let_def)
  let ?u = "upd_space a (\<lambda>as. as\<lparr>current_map := v\<rparr>) u2"
  note f = foldE_as_ops_frame [OF u1] foldE_as_ops_frame [OF u2] update_ioeventfds_frame [OF t]
  have su: "same_memory s u2" using f same_memory_trans by blast
  then have su': "same_memory s ?u" by (auto simp: same_memory_def upd_space_def)
  have "in_sync env a (upd_space a (\<lambda>as. as\<lparr>current_map := v\<rparr>) s)"
    using v Some by (simp add: in_sync_def upd_space_def)
  then have "in_sync env a ?u"
    by (rule in_sync_frame [rotated 2]) (use su in \<open>auto simp: same_memory_def upd_space_def\<close>)
  then have "in_sync env a t" by (rule in_sync_frame [rotated 2]) (use f in auto)
  then show ?thesis using f su' same_memory_trans [OF su'] by (auto simp: upd_space_def)
qed

lemma update_topology_sync:
  assumes "memory_region_update_topology env s = Inr t"
  shows "same_memory s t \<and> (memory_region_transaction_depth s = 0 \<longrightarrow> (\<forall>a. in_sync env a t))"
proof (cases "memory_region_transaction_depth s = 0")
  case True
  then obtain u where u: "update_space env address_space_memory s = Inr u" "update_space env address_space_io u = Inr t"
    using assms by (auto simp: memory_region_update_topology_def)
  note f = update_space_sync [OF u(1)] update_space_sync [OF u(2)]
  have "in_sync env address_space_memory t" using f in_sync_frame [of u t address_space_memory env] by simp
  then have "in_sync env a t" for a using f by (cases a) simp_all
  then show ?thesis using f same_memory_trans by blast
qed (use assms in \<open>simp add: memory_region_update_topology_def\<close>)

section \<open>Reachable states\<close>

text \<open>
  The operations of the interface after the construction of the regions. A nesting of
  \<open>2\<^sup>3\<^sup>2\<close> transactions wraps the counter; the step for \<open>memory_region_transaction_begin\<close>
  leaves it out.
\<close>

inductive mem_step :: "mem_env \<Rightarrow> mem_state \<Rightarrow> mem_state \<Rightarrow> bool" for env where
  begin': "memory_region_transaction_depth s \<noteq> - 1 \<Longrightarrow> mem_step env s (memory_region_transaction_begin s)"
| commit: "memory_region_transaction_commit env s = Inr t \<Longrightarrow> mem_step env s t"
| set_offset: "mem_step env s (memory_region_set_offset m off s)"
| set_log: "memory_region_set_log env m log client s = Inr t \<Longrightarrow> mem_step env s t"
| set_readonly: "memory_region_set_readonly env m ro s = Inr t \<Longrightarrow> mem_step env s t"
| set_readable: "memory_region_rom_device_set_readable env m rd s = Inr t \<Longrightarrow> mem_step env s t"
| sync_dirty: "memory_region_sync_dirty_bitmap m s = Inr t \<Longrightarrow> mem_step env s t"
| add_coalescing: "memory_region_add_coalescing m off sz s = Inr t \<Longrightarrow> mem_step env s t"
| clear_coalescing: "memory_region_clear_coalescing m s = Inr t \<Longrightarrow> mem_step env s t"
| add_eventfd: "memory_region_add_eventfd env m a sz md d f s = Inr t \<Longrightarrow> mem_step env s t"
| del_eventfd: "memory_region_del_eventfd env m a sz md d f s = Inr t \<Longrightarrow> mem_step env s t"
| add_subregion: "memory_region_add_subregion env m off sub s = Inr t \<Longrightarrow> mem_step env s t"
| add_overlap: "memory_region_add_subregion_overlap env m off sub prio s = Inr t \<Longrightarrow> mem_step env s t"
| del_subregion: "memory_region_del_subregion env m sub s = Inr t \<Longrightarrow> mem_step env s t"
| set_memory_map: "set_system_memory_map env m s = Inr t \<Longrightarrow> mem_step env s t"
| set_io_map: "set_system_io_map env m s = Inr t \<Longrightarrow> mem_step env s t"

text \<open>
  The shape of the region tree: a subregion list has no duplicates, holds exactly the
  regions whose parent the region is, and is sorted by decreasing priority.
\<close>

definition tree_ok :: "mem_state \<Rightarrow> bool" where
  "tree_ok s \<longleftrightarrow> (\<forall>m. distinct (subregions (regions s m)) \<and>
     (\<forall>k. k \<in> set (subregions (regions s m)) \<longleftrightarrow> parent (regions s k) = Some m) \<and>
     sorted_wrt (\<ge>) (map (\<lambda>k. priority (regions s k)) (subregions (regions s m))))"

inductive mem_reach :: "mem_env \<Rightarrow> mem_state \<Rightarrow> bool" for env where
  start: "tree_ok s \<Longrightarrow> \<forall>a. as_root (spaces s a) = None \<Longrightarrow> memory_region_transaction_depth s = 0 \<Longrightarrow> mem_reach env s"
| step: "mem_reach env s \<Longrightarrow> mem_step env s t \<Longrightarrow> mem_reach env t"

definition tree_fields :: "MemoryRegion \<Rightarrow> mr_id option \<times> u32 \<times> mr_id list" where
  "tree_fields mr = (parent mr, priority mr, subregions mr)"

lemma backing_free_tree: "backing_free a = backing_free b \<Longrightarrow> tree_fields a = tree_fields b"
  by (cases a; cases b) (simp add: backing_free_def tree_fields_def)

lemma tree_ok_cong:
  assumes "\<And>m. tree_fields (regions t m) = tree_fields (regions s m)" and "tree_ok s"
  shows "tree_ok t"
proof -
  have "parent (regions t m) = parent (regions s m)" "priority (regions t m) = priority (regions s m)"
    "subregions (regions t m) = subregions (regions s m)" for m
    using assms(1) [of m] by (simp_all add: tree_fields_def)
  then show ?thesis using assms(2) by (simp add: tree_ok_def)
qed

lemma tree_ok_same: "same_memory s t \<Longrightarrow> tree_ok s \<Longrightarrow> tree_ok t"
  by (rule tree_ok_cong, rule backing_free_tree) (auto simp: same_memory_def)

lemma set_insert_subregion [simp]: "set (insert_subregion \<sigma> sub xs) = insert sub (set xs)"
  by (induction xs) auto

lemma distinct_insert_subregion: "sub \<notin> set xs \<Longrightarrow> distinct xs \<Longrightarrow> distinct (insert_subregion \<sigma> sub xs)"
  by (induction xs) auto

lemma sorted_insert_subregion:
  "sorted_wrt (\<ge>) (map (\<lambda>k. priority (\<sigma> k)) xs) \<Longrightarrow>
   sorted_wrt (\<ge>) (map (\<lambda>k. priority (\<sigma> k)) (insert_subregion \<sigma> sub xs))"
  by (induction xs) force+

lemma insert_subregion_cong:
  "(\<And>k. priority (\<sigma> k) = priority (\<tau> k)) \<Longrightarrow> insert_subregion \<sigma> sub xs = insert_subregion \<tau> sub xs"
  by (induction xs) auto

lemma upd_region_apply: "regions (upd_region m f s) k = (if k = m then f (regions s m) else regions s k)"
  by (simp add: upd_region_def)

lemma tree_ok_add_common:
  assumes "memory_region_add_subregion_common env m off sub s = Inr t" "tree_ok s"
  shows "tree_ok t"
proof -
  define u where "u = upd_region sub (\<lambda>mr. mr\<lparr>parent := Some m, mr_addr := off\<rparr>) s"
  define w where "w = upd_region m (\<lambda>mr. mr\<lparr>subregions := insert_subregion (regions u) sub (subregions mr)\<rparr>) u"
  have p: "parent (regions s sub) = None" and t: "memory_region_update_topology env w = Inr t"
    using assms(1) by (auto simp: memory_region_add_subregion_common_def Let_def u_def w_def split: if_splits)
  have r: "parent (regions w k) = (if k = sub then Some m else parent (regions s k))"
    "priority (regions w k) = priority (regions s k)"
    "subregions (regions w k) = (if k = m then insert_subregion (regions s) sub (subregions (regions s m))
       else subregions (regions s k))" for k
    by (auto simp: w_def u_def upd_region_apply intro!: insert_subregion_cong)
  have new: "sub \<notin> set (subregions (regions s k))" for k
    using p assms(2) by (simp add: tree_ok_def)
  have "tree_ok w"
    using assms(2) new sorted_insert_subregion
    by (auto simp: tree_ok_def r distinct_insert_subregion)
  then show ?thesis using update_topology_sync [OF t] tree_ok_same by blast
qed

lemma tree_ok_del:
  assumes "memory_region_del_subregion env m sub s = Inr t" "tree_ok s"
  shows "tree_ok t"
proof -
  define w where "w = upd_region m (\<lambda>mr. mr\<lparr>subregions := remove1 sub (subregions mr)\<rparr>)
    (upd_region sub (\<lambda>mr. mr\<lparr>parent := None\<rparr>) s)"
  have p: "parent (regions s sub) = Some m" and t: "memory_region_update_topology env w = Inr t"
    using assms(1) by (auto simp: memory_region_del_subregion_def w_def split: if_splits)
  have r: "parent (regions w k) = (if k = sub then None else parent (regions s k))"
    "priority (regions w k) = priority (regions s k)"
    "subregions (regions w k) = (if k = m then remove1 sub (subregions (regions s m)) else subregions (regions s k))" for k
    by (auto simp: w_def upd_region_apply)
  have "sorted_wrt (\<ge>) (map (\<lambda>k. priority (regions s k)) (remove1 sub xs))"
    if "sorted_wrt (\<ge>) (map (\<lambda>k. priority (regions s k)) xs)" for xs
    using that by (induction xs) (auto dest: in_set_remove1 [THEN iffD1, rotated] notin_set_remove1)
  then have "tree_ok w" using assms(2) p by (auto simp: tree_ok_def r)
  then show ?thesis using update_topology_sync [OF t] tree_ok_same by blast
qed

lemma foldE_invariant:
  assumes "foldE f xs s = Inr t" "P s" "\<And>x s t. f x s = Inr t \<Longrightarrow> P s \<Longrightarrow> P t"
  shows "P t"
  using assms(1,2) by (induction xs arbitrary: s) (auto dest: assms(3))

definition only_calls :: "mem_state \<Rightarrow> mem_state \<Rightarrow> bool" where
  "only_calls s t \<longleftrightarrow> regions t = regions s \<and> spaces t = spaces s \<and>
     memory_region_transaction_depth t = memory_region_transaction_depth s"

lemma emit_range_only_calls: "emit_range c r u = Inr t \<Longrightarrow> only_calls s u \<Longrightarrow> only_calls s t"
  by (auto simp: emit_range_def only_calls_def)

lemma coalesced_only_calls:
  assumes "memory_region_update_coalesced_range m s = Inr t"
  shows "only_calls s t"
proof -
  have part: "only_calls s v" if "coalesced_part fr c u = Inr v" "only_calls s u" for fr c u v
    using that by (auto simp: coalesced_part_def Let_def split: if_splits dest: emit_range_only_calls)
  show ?thesis
    using assms unfolding memory_region_update_coalesced_range_def
  proof (rule foldE_invariant)
    fix fr u v
    assume u: "(if fr_mr fr = m then bindE (emit_range qemu_unregister_coalesced_mmio (fr_addr fr) u)
        (foldE (coalesced_part fr) (coalesced (regions u m))) else Inr u) = Inr v" "only_calls s u"
    then show "only_calls s v"
      by (auto split: if_splits dest: emit_range_only_calls intro: foldE_invariant [OF _ _ part])
  qed (simp add: only_calls_def)
qed

lemma sync_dirty_only_calls:
  assumes "memory_region_sync_dirty_bitmap m s = Inr t"
  shows "only_calls s t"
  using assms unfolding memory_region_sync_dirty_bitmap_def
  by (rule foldE_invariant) (auto simp: only_calls_def split: if_splits)

lemma tree_ok_add:
  assumes "memory_region_add_subregion_common env m off sub
      (upd_region sub (\<lambda>mr. mr\<lparr>may_overlap := b, priority := p\<rparr>) s) = Inr t" "tree_ok s"
  shows "tree_ok t"
proof -
  have "parent (regions s sub) = None"
    using assms(1) by (auto simp: memory_region_add_subregion_common_def upd_region_apply split: if_splits)
  then have out: "sub \<notin> set (subregions (regions s k))" for k using assms(2) by (simp add: tree_ok_def)
  define w where "w = upd_region sub (\<lambda>mr. mr\<lparr>may_overlap := b, priority := p\<rparr>) s"
  have r: "parent (regions w k) = parent (regions s k)" "subregions (regions w k) = subregions (regions s k)" for k
    by (simp_all add: w_def upd_region_apply)
  have "map (\<lambda>j. priority (regions w j)) (subregions (regions s k)) =
      map (\<lambda>j. priority (regions s j)) (subregions (regions s k))" for k
    using out [of k] by (intro map_cong) (auto simp: w_def upd_region_apply)
  with assms(2) have "tree_ok w" by (simp only: tree_ok_def r) simp
  then show ?thesis using tree_ok_add_common [OF assms(1)] by (simp add: w_def)
qed

text \<open>
  Every step runs a topology update on its last state, or keeps all that the views and
  the tree depend on.
\<close>

lemma mem_step_cases:
  assumes "mem_step env s t"
  obtains (update) w where "memory_region_update_topology env w = Inr t"
      "\<And>m. tree_fields (regions w m) = tree_fields (regions s m)"
    | (subregion) w where "memory_region_update_topology env w = Inr t" "tree_ok s \<longrightarrow> tree_ok t"
    | (frame) "\<And>m. tree_fields (regions t m) = tree_fields (regions s m)"
      "\<And>m. render_fields (regions t m) = render_fields (regions s m)" "spaces t = spaces s"
      "memory_region_transaction_depth t = 0 \<longrightarrow> memory_region_transaction_depth s = 0"
  using assms
proof cases
  case commit
  then show ?thesis
    by (intro update [of "s\<lparr>memory_region_transaction_depth := memory_region_transaction_depth s - 1\<rparr>"])
      (auto simp: memory_region_transaction_commit_def split: if_splits)
next
  case (set_log m log client)
  show ?thesis
    by (rule update [OF set_log [unfolded memory_region_set_log_def Let_def]]) (simp add: tree_fields_def upd_region_apply)
next
  case (set_readonly m ro)
  then show ?thesis
    using frame update [of "upd_region m (\<lambda>mr. mr\<lparr>readonly := ro\<rparr>) s"]
    by (auto simp: memory_region_set_readonly_def tree_fields_def upd_region_apply split: if_splits)
next
  case (set_readable m rd)
  then show ?thesis
    using frame update [of "upd_region m (\<lambda>mr. mr\<lparr>readable := rd\<rparr>) s"]
    by (auto simp: memory_region_rom_device_set_readable_def tree_fields_def upd_region_apply split: if_splits)
next
  case (sync_dirty m)
  from sync_dirty_only_calls [OF this] show ?thesis by (intro frame) (simp_all add: only_calls_def)
next
  case (add_coalescing m off sz)
  from coalesced_only_calls [OF this [unfolded memory_region_add_coalescing_def]] show ?thesis
    by (intro frame) (simp_all add: only_calls_def tree_fields_def render_fields_def upd_region_def)
next
  case (clear_coalescing m)
  from coalesced_only_calls [OF this [unfolded memory_region_clear_coalescing_def]] show ?thesis
    by (intro frame) (simp_all add: only_calls_def tree_fields_def render_fields_def upd_region_def)
next
  case (add_eventfd m a sz md d f)
  show ?thesis
    by (rule update [OF add_eventfd [unfolded memory_region_add_eventfd_def]]) (simp add: tree_fields_def upd_region_apply)
next
  case (del_eventfd m a sz md d f)
  then show ?thesis
    by (auto simp: memory_region_del_eventfd_def tree_fields_def upd_region_apply split: option.splits intro: update)
next
  case (add_subregion m off sub)
  note c = this [unfolded memory_region_add_subregion_def]
  show ?thesis using subregion [OF _ impI, OF _ tree_ok_add [OF c]] c
    by (auto simp: memory_region_add_subregion_common_def Let_def split: if_splits)
next
  case (add_overlap m off sub prio)
  note c = this [unfolded memory_region_add_subregion_overlap_def]
  show ?thesis using subregion [OF _ impI, OF _ tree_ok_add [OF c]] c
    by (auto simp: memory_region_add_subregion_common_def Let_def split: if_splits)
next
  case (del_subregion m sub)
  show ?thesis using subregion [OF _ impI, OF _ tree_ok_del [OF del_subregion]] del_subregion
    by (auto simp: memory_region_del_subregion_def Let_def split: if_splits)
next
  case (set_memory_map m)
  show ?thesis by (rule update [OF set_memory_map [unfolded set_system_memory_map_def]]) (simp add: upd_space_def)
next
  case (set_io_map m)
  show ?thesis by (rule update [OF set_io_map [unfolded set_system_io_map_def]]) (simp add: upd_space_def)
qed (auto intro!: frame simp: memory_region_transaction_begin_def memory_region_set_offset_def tree_fields_def
    render_fields_def upd_region_apply upd_region_def add_eq_0_iff2)

lemma mem_step_tree_ok:
  assumes "mem_step env s t" "tree_ok s"
  shows "tree_ok t"
  using assms(1)
proof (cases rule: mem_step_cases)
  case (update w)
  then show ?thesis
    using tree_ok_cong [OF update(2) assms(2)] update_topology_sync [OF update(1)] tree_ok_same by blast
qed (use assms(2) in \<open>auto intro: tree_ok_cong\<close>)

lemma mem_step_sync:
  assumes "mem_step env s t" "memory_region_transaction_depth s = 0 \<longrightarrow> (\<forall>a. in_sync env a s)"
    "memory_region_transaction_depth t = 0"
  shows "in_sync env a t"
  using assms(1)
proof (cases rule: mem_step_cases)
  case frame
  then have "generate_memory_topology n (regions t) r = generate_memory_topology n (regions s) r" for n r
    by (intro topology_cong) simp
  then show ?thesis using frame assms(2,3) by (simp add: in_sync_def)
qed (use assms(3) in \<open>auto dest: update_topology_sync simp: same_memory_def\<close>)

text \<open>
  C14: in every reachable state outside of a transaction, the current map of each address
  space is the rendering of its root, whatever sequence of operations on regions (nested
  transactions, additions, removals, attribute and logging changes, new roots) led to it.
\<close>

theorem memory_map_in_sync:
  assumes "mem_reach env s" "memory_region_transaction_depth s = 0" "as_root (spaces s a) = Some r"
  shows "generate_memory_topology (fuel env) (regions s) r = Inr (current_map (spaces s a))"
proof -
  have "memory_region_transaction_depth s = 0 \<longrightarrow> (\<forall>a. in_sync env a s)"
    using assms(1)
  proof (induction rule: mem_reach.induct)
    case (start s)
    then show ?case by (simp add: in_sync_def)
  next
    case (step s t)
    then show ?case using mem_step_sync by blast
  qed
  then show ?thesis using assms(2,3) by (simp add: in_sync_def)
qed

text \<open>
  C28: the region tree stays well formed: in every reachable state a subregion list has no
  duplicates, agrees with the parent pointers and is sorted by decreasing priority.
\<close>

theorem region_tree_ok: "mem_reach env s \<Longrightarrow> tree_ok s"
  by (induction rule: mem_reach.induct) (auto intro: mem_step_tree_ok)

text \<open>
  A subregion is inserted before the first subregion whose priority is not higher, so
  that the newest of equal priority is rendered first, and removing it again gives the
  old list back.
\<close>

theorem subregion_insert_remove:
  assumes "sub \<notin> set xs"
  shows "insert_subregion \<sigma> sub xs =
      takeWhile (\<lambda>k. priority (\<sigma> sub) < priority (\<sigma> k)) xs @ sub #
      dropWhile (\<lambda>k. priority (\<sigma> sub) < priority (\<sigma> k)) xs \<and>
    remove1 sub (insert_subregion \<sigma> sub xs) = xs"
  using assms by (induction xs) auto

theorem subregion_insert_remove_witness:
  "let \<sigma> = (\<lambda>k. blank_region\<lparr>priority := if k = 1 then 2 else 1\<rparr>)
   in insert_subregion \<sigma> 3 [1, 2] = [1, 3, 2] \<and> remove1 3 (insert_subregion \<sigma> 3 [1, 2]) = [1, 2]"
  using subregion_insert_remove [of 3 "[1, 2]" "\<lambda>k. blank_region\<lparr>priority := if k = 1 then 2 else 1\<rparr>"]
  by (simp add: Let_def)

text \<open>A state with no root and blank regions, and an environment.\<close>

definition blank_state :: mem_state where
  "blank_state = \<lparr>regions = (\<lambda>m. blank_region\<lparr>mr_size := 64, terminates := m \<noteq> 0, backend_registered := True\<rparr>),
     memory_region_transaction_depth = 0,
     spaces = (\<lambda>a. \<lparr>as_root = None, current_map = [], as_ioeventfds = []\<rparr>), phys_calls = []\<rparr>"

definition plain_env :: mem_env where
  "plain_env = \<lparr>cpu_register_io_memory = (\<lambda>m. 64), kvm_result = 0, fuel = 4\<rparr>"

lemma blank_state_reach: "mem_reach plain_env blank_state"
  by (rule mem_reach.start) (simp_all add: blank_state_def tree_ok_def blank_region_def)

lemma reach_bind:
  assumes "mem_reach env s" "f s = Inr t" "\<And>s t. f s = Inr t \<Longrightarrow> mem_step env s t"
  shows "mem_reach env t"
  using assms mem_reach.step by blast

theorem region_tree_ok_witness:
  "case memory_region_add_subregion plain_env 0 16 1 blank_state of Inl _ \<Rightarrow> False | Inr s \<Rightarrow> tree_ok s"
proof -
  obtain s where s: "memory_region_add_subregion plain_env 0 16 1 blank_state = Inr s"
    by (simp add: memory_region_add_subregion_def memory_region_add_subregion_common_def Let_def
        memory_region_update_topology_def update_space_def upd_region_def blank_state_def blank_region_def)
  then have "mem_reach plain_env s"
    by (rule reach_bind [OF blank_state_reach]) (rule mem_step.add_subregion)
  from region_tree_ok [OF this] s show ?thesis by simp
qed

theorem memory_map_in_sync_witness:
  "case set_system_memory_map plain_env 1 blank_state of Inl _ \<Rightarrow> False
   | Inr s \<Rightarrow> generate_memory_topology 4 (regions s) 1 = Inr (current_map (spaces s address_space_memory)) \<and>
       current_map (spaces s address_space_memory) \<noteq> []"
proof -
  let ?r = "set_system_memory_map plain_env 1 blank_state"
  have c: "case ?r of Inl _ \<Rightarrow> False | Inr s \<Rightarrow>
      memory_region_transaction_depth s = 0 \<and> as_root (spaces s address_space_memory) = Some 1 \<and>
      map fr_mr (current_map (spaces s address_space_memory)) = [1]"
    by code_simp
  then obtain s where s: "?r = Inr s" by (cases ?r) auto
  then have "mem_reach plain_env s"
    by (rule reach_bind [OF blank_state_reach]) (rule mem_step.set_memory_map)
  from memory_map_in_sync [OF this] c s show ?thesis by (auto simp: plain_env_def)
qed

section \<open>Event file descriptors\<close>

text \<open>The order is that of a key; equal keys are what \<open>memory_region_ioeventfd_equal\<close> tests.\<close>

definition ev_key :: "MemoryRegionIoeventfd \<Rightarrow> int \<times> int \<times> bool \<times> u64 \<times> int" where
  "ev_key e = (ar_start (ev_addr e), ar_size (ev_addr e), match_data e,
     if match_data e then ev_data e else 0, ev_fd e)"

lemma before_key: "memory_region_ioeventfd_before a b \<longleftrightarrow> ev_key a < ev_key b"
  by (auto simp: memory_region_ioeventfd_before_def ev_key_def)

lemma equal_key: "memory_region_ioeventfd_equal a b \<longleftrightarrow> ev_key a = ev_key b"
  by (auto simp: memory_region_ioeventfd_equal_def before_key)

lemma key_notin: "sorted (map ev_key xs) \<Longrightarrow> e \<in> set xs \<Longrightarrow> ev_key (hd xs) \<le> ev_key e"
  by (cases xs) auto

text \<open>
  The update of the event file descriptors is the symmetric difference of the sorted
  old and new lists: exactly the old ones that have no equal new one are deleted, exactly
  the new ones that have no equal old one are added.
\<close>

theorem ioeventfd_update_exact:
  assumes "sorted_wrt (<) (map ev_key news)" "sorted_wrt (<) (map ev_key olds)"
  shows "set (address_space_add_del_ioeventfds news olds) =
    ioeventfd_del ` {e \<in> set olds. \<forall>f\<in>set news. \<not> memory_region_ioeventfd_equal e f} \<union>
    ioeventfd_add ` {e \<in> set news. \<forall>f\<in>set olds. \<not> memory_region_ioeventfd_equal e f}"
  using assms
proof (induction news olds rule: address_space_add_del_ioeventfds.induct)
  case (4 new news old olds)
  have lt: "\<forall>e\<in>set news. ev_key new < ev_key e" "\<forall>e\<in>set olds. ev_key old < ev_key e"
    using "4.prems" by auto
  let ?D = "\<lambda>ns os. {e \<in> set os. \<forall>f\<in>set ns. ev_key e \<noteq> ev_key f}"
  consider "ev_key old < ev_key new" | "ev_key new < ev_key old" | "ev_key new = ev_key old"
    using less_linear by blast
  then show ?case
  proof cases
    case 1
    then have "\<forall>e\<in>set (new # news). ev_key e \<noteq> ev_key old" using lt(1) by auto
    then have "?D (new # news) (old # olds) = insert old (?D (new # news) olds)"
      "?D (old # olds) (new # news) = ?D olds (new # news)" by auto
    then show ?thesis using 1 "4.IH"(1) "4.prems" by (simp add: before_key equal_key)
  next
    case 2
    then have "\<forall>e\<in>set (old # olds). ev_key e \<noteq> ev_key new" using lt(2) by auto
    then have "?D (old # olds) (new # news) = insert new (?D (old # olds) news)"
      "?D (new # news) (old # olds) = ?D news (old # olds)" by auto
    then show ?thesis using 2 less_not_sym [OF 2] "4.IH"(2) "4.prems" by (simp add: before_key equal_key)
  next
    case 3
    then have "\<forall>e\<in>set news. ev_key e \<noteq> ev_key old" "\<forall>e\<in>set olds. ev_key e \<noteq> ev_key new" using lt by auto
    then have "?D (new # news) (old # olds) = ?D news olds" "?D (old # olds) (new # news) = ?D olds news"
      using 3 by auto
    then show ?thesis using 3 "4.IH"(3) "4.prems" by (simp add: before_key equal_key)
  qed
qed (auto simp: equal_key)

theorem ioeventfd_update_exact_witness:
  "set (address_space_add_del_ioeventfds [make_ioeventfd 0 4 True 1 7] [make_ioeventfd 8 4 True 1 7]) =
    {ioeventfd_del (make_ioeventfd 8 4 True 1 7), ioeventfd_add (make_ioeventfd 0 4 True 1 7)}"
  using ioeventfd_update_exact [of "[make_ioeventfd 0 4 True 1 7]" "[make_ioeventfd 8 4 True 1 7]"]
  by (auto simp: equal_key ev_key_def make_ioeventfd_def addrrange_make_def)

lemma insert_ioeventfd_sorted:
  "sorted (map ev_key xs) \<Longrightarrow> sorted (map ev_key (insert_ioeventfd e xs))"
proof (induction xs)
  case (Cons x xs)
  have "set (insert_ioeventfd e ys) = insert e (set ys)" for ys by (induction ys) auto
  then show ?case using Cons by (auto simp: before_key)
qed simp

end
