(* ===== verification/Phys_Map.thy ===== *)
theory Phys_Map
  imports Memory_Topology
begin

text \<open>
  The map of physical pages of \<open>exec.c\<close> that every access of the machine goes through: the
  two-level table of page descriptors, the table of I/O slots, pages shared between several
  regions (subpages), and \<open>cpu_register_physical_memory_log\<close>, which theory
  \<open>Memory_Topology\<close> calls for every range of the flat view. A target page has
  \<open>2\<^sup>1\<^sup>0\<close> bytes, a physical address 32 bits and a \<open>ram_addr_t\<close> 64. The clients that are
  told about changes (KVM) and the flush of the translator's TLB are not modelled.
\<close>

section \<open>State\<close>

definition TARGET_PAGE_BITS :: nat where "TARGET_PAGE_BITS = 10"
definition TARGET_PAGE_SIZE :: nat where "TARGET_PAGE_SIZE = 2 ^ TARGET_PAGE_BITS"
definition L2_BITS :: nat where "L2_BITS = 10"
definition P_L1_SHIFT :: nat where "P_L1_SHIFT = 10"
definition IO_MEM_SHIFT :: nat where "IO_MEM_SHIFT = 3"
definition IO_MEM_NB_ENTRIES :: nat where "IO_MEM_NB_ENTRIES = 2 ^ (TARGET_PAGE_BITS - IO_MEM_SHIFT)"
definition IO_MEM_SUBPAGE :: u64 where "IO_MEM_SUBPAGE = 2"

text \<open>An address rounded down to its page, and its offset in the page.\<close>

definition page_of :: "u64 \<Rightarrow> u64" where "page_of a = a AND TARGET_PAGE_MASK"
definition in_page :: "u64 \<Rightarrow> u64" where "in_page a = a AND NOT TARGET_PAGE_MASK"

record PhysPageDesc =
  phys_offset :: u64
  region_offset :: u64

record subpage_t =
  sub_base :: phys_addr
  sub_io_index :: "nat \<Rightarrow> nat"
  sub_region_offset :: "nat \<Rightarrow> u64"

text \<open>
  The functions of an I/O slot, by the access size (0, 1, 2 for 8, 16 and 32 bits), with the
  state \<open>'w\<close> of the devices; or the slot of a shared page.
\<close>

record 'w io_funcs =
  io_rd :: "nat \<Rightarrow> phys_addr \<Rightarrow> 'w \<Rightarrow> (u32 \<times> 'w) res"
  io_wr :: "nat \<Rightarrow> phys_addr \<Rightarrow> u32 \<Rightarrow> 'w \<Rightarrow> 'w res"

datatype 'w io_slot = io_free | io_device "'w io_funcs" | io_subpage subpage_t

record 'w phys_map =
  l1_phys_map :: "nat \<Rightarrow> (nat \<Rightarrow> PhysPageDesc) option"
  io_mem :: "nat \<Rightarrow> 'w io_slot"

section \<open>The table of pages\<close>

definition l1_index :: "nat \<Rightarrow> nat" where
  "l1_index index = drop_bit P_L1_SHIFT index"

definition l2_index :: "nat \<Rightarrow> nat" where
  "l2_index index = take_bit L2_BITS index"

text \<open>
  \<open>phys_page_find_alloc\<close> without and with allocation. There is no level between the first and
  the last; an index has 22 bits, so that the mask of the first level has no effect. The region offsets of a new block count from the index that was asked for.
\<close>

definition phys_page_find :: "nat \<Rightarrow> 'w phys_map \<Rightarrow> PhysPageDesc option" where
  "phys_page_find index m = map_option (\<lambda>pd. pd (l2_index index)) (l1_phys_map m (l1_index index))"

definition new_block :: "nat \<Rightarrow> nat \<Rightarrow> PhysPageDesc" where
  "new_block index i = \<lparr>phys_offset = IO_MEM_UNASSIGNED,
     region_offset = ucast (word_of_nat (index + i) * 2 ^ TARGET_PAGE_BITS :: phys_addr)\<rparr>"

definition phys_page_find_alloc :: "nat \<Rightarrow> 'w phys_map \<Rightarrow> 'w phys_map" where
  "phys_page_find_alloc index m =
     (case l1_phys_map m (l1_index index) of
        Some pd \<Rightarrow> m
      | None \<Rightarrow> m\<lparr>l1_phys_map := (l1_phys_map m)(l1_index index \<mapsto> new_block index)\<rparr>)"

text \<open>A store through the pointer that the lookup returned.\<close>

definition set_page :: "nat \<Rightarrow> (PhysPageDesc \<Rightarrow> PhysPageDesc) \<Rightarrow> 'w phys_map \<Rightarrow> 'w phys_map" where
  "set_page index f m =
     (case l1_phys_map m (l1_index index) of
        None \<Rightarrow> m
      | Some pd \<Rightarrow> m\<lparr>l1_phys_map := (l1_phys_map m)
          (l1_index index \<mapsto> pd(l2_index index := f (pd (l2_index index))))\<rparr>)"

definition cpu_get_physical_page_desc :: "phys_addr \<Rightarrow> 'w phys_map \<Rightarrow> u64" where
  "cpu_get_physical_page_desc addr m =
     (case phys_page_find (unat (drop_bit TARGET_PAGE_BITS addr)) m of
        None \<Rightarrow> IO_MEM_UNASSIGNED
      | Some p \<Rightarrow> phys_offset p)"

section \<open>I/O slots\<close>

fun first_free :: "nat list \<Rightarrow> 'w phys_map \<Rightarrow> nat option" where
  "first_free [] m = None"
| "first_free (i # is) m = (if io_mem m i = io_free then Some i else first_free is m)"

definition get_free_io_mem_idx :: "'w phys_map \<Rightarrow> nat option" where
  "get_free_io_mem_idx m = first_free [0..<IO_MEM_NB_ENTRIES] m"

text \<open>
  \<open>cpu_register_io_memory\<close>: a slot with the given functions; the result is the slot's number
  shifted, or -1. Functions a device leaves out and the byte swapping of big-endian devices
  are part of \<open>io_funcs\<close>.
\<close>

definition register_io_memory :: "'w io_slot \<Rightarrow> 'w phys_map \<Rightarrow> u64 \<times> 'w phys_map" where
  "register_io_memory slot m =
     (case get_free_io_mem_idx m of
        None \<Rightarrow> (- 1, m)
      | Some i \<Rightarrow> (push_bit IO_MEM_SHIFT (word_of_nat i), m\<lparr>io_mem := (io_mem m)(i := slot)\<rparr>))"

definition cpu_unregister_io_memory :: "u64 \<Rightarrow> 'w phys_map \<Rightarrow> 'w phys_map" where
  "cpu_unregister_io_memory a m = m\<lparr>io_mem := (io_mem m)(unat (drop_bit IO_MEM_SHIFT a) := io_free)\<rparr>"

definition unassigned_mem :: "'w io_funcs" where
  "unassigned_mem = \<lparr>io_rd = (\<lambda>sz addr w. Inr (0, w)), io_wr = (\<lambda>sz addr val w. Inr w)\<rparr>"

text \<open>
  The slots after \<open>io_mem_init\<close>: RAM, ROM and unassigned memory, clean RAM and the
  unused fifth, and the slot of watchpoints. Clean RAM and watchpoints are reached from the
  translator's TLB only, which is not modelled.
\<close>

definition io_mem_init :: "'w phys_map" where
  "io_mem_init = \<lparr>l1_phys_map = (\<lambda>_. None),
     io_mem = (\<lambda>i. if i < 6 then io_device unassigned_mem else io_free)\<rparr>"

definition io_index :: "u64 \<Rightarrow> nat" where
  "io_index pd = unat (drop_bit IO_MEM_SHIFT pd AND (word_of_nat IO_MEM_NB_ENTRIES - 1))"

section \<open>Pages shared by several regions\<close>

definition subpage_register :: "nat \<Rightarrow> nat \<Rightarrow> u64 \<Rightarrow> u64 \<Rightarrow> subpage_t \<Rightarrow> subpage_t" where
  "subpage_register st en mem ro sp =
     (if st \<ge> TARGET_PAGE_SIZE \<or> en \<ge> TARGET_PAGE_SIZE then sp
      else let mem = (if in_page mem = 0 then IO_MEM_UNASSIGNED else mem)
           in fold (\<lambda>idx sp. sp\<lparr>sub_io_index := (sub_io_index sp)(idx := io_index mem),
                sub_region_offset := (sub_region_offset sp)(idx := ro)\<rparr>) [st..<en + 1] sp)"

text \<open>
  The value for the page descriptor and the new shared page. When no slot is left, the value
  is -1 and the shared page is in no slot.
\<close>

definition subpage_init ::
  "phys_addr \<Rightarrow> u64 \<Rightarrow> u64 \<Rightarrow> 'w phys_map \<Rightarrow> u64 \<times> nat option \<times> subpage_t \<times> 'w phys_map" where
  "subpage_init base orig_memory ro m =
     (let mmio = subpage_register 0 (TARGET_PAGE_SIZE - 1) orig_memory ro
            \<lparr>sub_base = base, sub_io_index = (\<lambda>_. 0), sub_region_offset = (\<lambda>_. 0)\<rparr>;
          slot = get_free_io_mem_idx m;
          (subpage_memory, m) = register_io_memory (io_subpage mmio) m
      in (subpage_memory OR IO_MEM_SUBPAGE, slot, mmio, m))"

definition put_subpage :: "nat option \<Rightarrow> subpage_t \<Rightarrow> 'w phys_map \<Rightarrow> 'w phys_map" where
  "put_subpage slot sp m =
     (case slot of None \<Rightarrow> m | Some i \<Rightarrow> m\<lparr>io_mem := (io_mem m)(i := io_subpage sp)\<rparr>)"

section \<open>Registering physical memory\<close>

text \<open>\<open>CHECK_SUBPAGE\<close>: the first and the last offset in the page, and whether it is shared.\<close>

definition CHECK_SUBPAGE :: "phys_addr \<Rightarrow> phys_addr \<Rightarrow> u64 \<Rightarrow> nat \<times> nat \<times> bool" where
  "CHECK_SUBPAGE addr start_addr orig_size =
     (let start_addr2 = (if addr > start_addr then 0 else in_page (ucast start_addr));
          whole = ((ucast start_addr + orig_size) - ucast addr \<ge> word_of_nat TARGET_PAGE_SIZE);
          end_addr2 = (if whole then word_of_nat TARGET_PAGE_SIZE - 1 else in_page (ucast start_addr + orig_size - 1))
      in (unat start_addr2, unat end_addr2,
          start_addr2 > 0 \<or> \<not> whole \<and> end_addr2 < word_of_nat TARGET_PAGE_SIZE - 1))"

definition is_ram_or_rom :: "u64 \<Rightarrow> bool" where
  "is_ram_or_rom pd \<longleftrightarrow> in_page pd \<le> IO_MEM_ROM \<or> pd AND IO_MEM_ROMD \<noteq> 0"

definition next_offset :: "u64 \<Rightarrow> u64" where
  "next_offset po = (if is_ram_or_rom po then po + word_of_nat TARGET_PAGE_SIZE else po)"

text \<open>
  The body of the loop for a page that has been assigned and for one that has not. The
  result has the \<open>phys_offset\<close> of the next round.
\<close>

definition register_assigned ::
  "phys_addr \<Rightarrow> phys_addr \<Rightarrow> u64 \<Rightarrow> u64 \<Rightarrow> u64 \<Rightarrow> PhysPageDesc \<Rightarrow> 'w phys_map \<Rightarrow> (u64 \<times> 'w phys_map) res" where
  "register_assigned addr start_addr orig_size po ro p m =
     (let index = unat (drop_bit TARGET_PAGE_BITS addr);
          orig_memory = phys_offset p;
          (start_addr2, end_addr2, need_subpage) = CHECK_SUBPAGE addr start_addr orig_size
      in if need_subpage then
           bindE (if orig_memory AND IO_MEM_SUBPAGE = 0
                  then Inr (subpage_init (addr AND ucast TARGET_PAGE_MASK) orig_memory (region_offset p) m)
                  else let slot = unat (drop_bit IO_MEM_SHIFT (in_page orig_memory))
                       in case io_mem m slot of
                            io_subpage sp \<Rightarrow> Inr (orig_memory, Some slot, sp, m)
                          | _ \<Rightarrow> Inl (aborted ''io_mem_opaque is no subpage''))
             (\<lambda>(desc, slot, sp, m).
                let m = put_subpage slot (subpage_register start_addr2 end_addr2 po ro sp) m
                in Inr (po, set_page index (\<lambda>p. p\<lparr>phys_offset := desc, region_offset := 0\<rparr>) m))
         else Inr (next_offset po, set_page index (\<lambda>p. p\<lparr>phys_offset := po\<rparr>) m))"

definition register_unassigned ::
  "phys_addr \<Rightarrow> phys_addr \<Rightarrow> u64 \<Rightarrow> u64 \<Rightarrow> u64 \<Rightarrow> 'w phys_map \<Rightarrow> (u64 \<times> 'w phys_map) res" where
  "register_unassigned addr start_addr orig_size po ro m =
     (let index = unat (drop_bit TARGET_PAGE_BITS addr);
          m = set_page index (\<lambda>p. p\<lparr>phys_offset := po, region_offset := ro\<rparr>) (phys_page_find_alloc index m);
          (start_addr2, end_addr2, need_subpage) = CHECK_SUBPAGE addr start_addr orig_size;
          base = addr AND ucast TARGET_PAGE_MASK
      in if is_ram_or_rom po then Inr (next_offset po, m)
         else if need_subpage then
           case subpage_init base IO_MEM_UNASSIGNED (ucast base) m of
             (desc, slot, sp, m) \<Rightarrow>
               let m = put_subpage slot (subpage_register start_addr2 end_addr2 po ro sp) m
               in Inr (po, set_page index (\<lambda>p. p\<lparr>phys_offset := desc, region_offset := 0\<rparr>) m)
         else Inr (po, m))"

definition register_page ::
  "phys_addr \<Rightarrow> phys_addr \<Rightarrow> u64 \<Rightarrow> u64 \<Rightarrow> u64 \<Rightarrow> 'w phys_map \<Rightarrow> (u64 \<times> 'w phys_map) res" where
  "register_page addr start_addr orig_size po ro m =
     (case phys_page_find (unat (drop_bit TARGET_PAGE_BITS addr)) m of
        Some p \<Rightarrow> if phys_offset p \<noteq> IO_MEM_UNASSIGNED
          then register_assigned addr start_addr orig_size po ro p m
          else register_unassigned addr start_addr orig_size po ro m
      | None \<Rightarrow> register_unassigned addr start_addr orig_size po ro m)"

text \<open>
  The loop ends when the address, which wraps at 32 bits, meets the end; there are at most
  \<open>2\<^sup>2\<^sup>2\<close> pages.
\<close>

fun register_loop ::
  "nat \<Rightarrow> phys_addr \<Rightarrow> phys_addr \<Rightarrow> phys_addr \<Rightarrow> u64 \<Rightarrow> u64 \<Rightarrow> u64 \<Rightarrow> 'w phys_map \<Rightarrow> 'w phys_map res" where
  "register_loop 0 addr end_addr start_addr orig_size po ro m =
     Inl (no_termination ''cpu_register_physical_memory_log'')"
| "register_loop (Suc n) addr end_addr start_addr orig_size po ro m =
     bindE (register_page addr start_addr orig_size po ro m) (\<lambda>(po, m).
       let ro = ro + word_of_nat TARGET_PAGE_SIZE;
           addr = addr + word_of_nat TARGET_PAGE_SIZE
       in if addr = end_addr then Inr m
          else register_loop n addr end_addr start_addr orig_size po ro m)"

definition register_physical_memory ::
  "nat \<Rightarrow> phys_addr \<Rightarrow> u64 \<Rightarrow> u64 \<Rightarrow> u64 \<Rightarrow> 'w phys_map \<Rightarrow> 'w phys_map res" where
  "register_physical_memory n start_addr orig_size po ro m =
     (if orig_size = 0 then Inl (assert_failed ''size'')
      else let ro = page_of (if po = IO_MEM_UNASSIGNED then ucast start_addr else ro);
               sz = page_of (orig_size + word_of_nat TARGET_PAGE_SIZE - 1);
               end_addr = start_addr + ucast sz
           in register_loop n start_addr end_addr start_addr orig_size po ro m)"

section \<open>Accesses to I/O slots\<close>

text \<open>
  \<open>subpage_readlen\<close> and \<open>subpage_writelen\<close> pass an access on to the slot of the byte. Shared pages
  do not contain shared pages, so that two steps are enough.
\<close>

definition subpage_target :: "subpage_t \<Rightarrow> phys_addr \<Rightarrow> nat \<times> phys_addr" where
  "subpage_target sp addr =
     (let idx = unat (in_page (ucast addr)) in (sub_io_index sp idx, addr + ucast (sub_region_offset sp idx)))"

fun io_mem_read :: "nat \<Rightarrow> 'w phys_map \<Rightarrow> nat \<Rightarrow> nat \<Rightarrow> phys_addr \<Rightarrow> 'w \<Rightarrow> (u32 \<times> 'w) res" where
  "io_mem_read 0 m slot sz addr w = Inl (no_termination ''io_mem_read'')"
| "io_mem_read (Suc n) m slot sz addr w =
     (case io_mem m slot of
        io_free \<Rightarrow> io_rd unassigned_mem sz addr w
      | io_device f \<Rightarrow> io_rd f sz addr w
      | io_subpage sp \<Rightarrow> (case subpage_target sp addr of (slot, addr) \<Rightarrow> io_mem_read n m slot sz addr w))"

fun io_mem_write :: "nat \<Rightarrow> 'w phys_map \<Rightarrow> nat \<Rightarrow> nat \<Rightarrow> phys_addr \<Rightarrow> u32 \<Rightarrow> 'w \<Rightarrow> 'w res" where
  "io_mem_write 0 m slot sz addr val w = Inl (no_termination ''io_mem_write'')"
| "io_mem_write (Suc n) m slot sz addr val w =
     (case io_mem m slot of
        io_free \<Rightarrow> io_wr unassigned_mem sz addr val w
      | io_device f \<Rightarrow> io_wr f sz addr val w
      | io_subpage sp \<Rightarrow> (case subpage_target sp addr of (slot, addr) \<Rightarrow> io_mem_write n m slot sz addr val w))"

section \<open>Where an address leads\<close>

text \<open>
  The abstract view of the map: a byte address is memory (with its flags and its address
  in RAM), belongs to a device (with the offset the device sees), or is unassigned.
\<close>

datatype phys_dest = Unassigned | Mem u64 u64 | Io nat phys_addr

definition io_dest :: "nat \<Rightarrow> phys_addr \<Rightarrow> phys_dest" where
  "io_dest slot addr = (if slot = 2 then Unassigned else Io slot addr)"

definition page_dest :: "u64 \<Rightarrow> u64 \<Rightarrow> u64 \<Rightarrow> phys_dest" where
  "page_dest po ro b = (if is_ram_or_rom po then Mem (in_page po) (page_of po + b) else io_dest (io_index po) (ucast (b + ro)))"

definition page_byte :: "'w phys_map \<Rightarrow> nat \<Rightarrow> u64 \<Rightarrow> phys_dest" where
  "page_byte m i b =
     (case phys_page_find i m of
        None \<Rightarrow> Unassigned
      | Some p \<Rightarrow>
          if \<not> is_ram_or_rom (phys_offset p) \<and> phys_offset p AND IO_MEM_SUBPAGE \<noteq> 0
          then case io_mem m (io_index (phys_offset p)) of
                 io_subpage sp \<Rightarrow> (case subpage_target sp (ucast (b + region_offset p)) of (slot, addr) \<Rightarrow> io_dest slot addr)
               | _ \<Rightarrow> Unassigned
          else page_dest (phys_offset p) (region_offset p) b)"

definition phys_resolve :: "'w phys_map \<Rightarrow> phys_addr \<Rightarrow> phys_dest" where
  "phys_resolve m a = page_byte m (unat (drop_bit TARGET_PAGE_BITS a)) (in_page (ucast a))"

section \<open>Descriptors\<close>

definition dev_desc :: "nat \<Rightarrow> u64" where
  "dev_desc k = push_bit IO_MEM_SHIFT (word_of_nat k)"

definition sub_desc :: "nat \<Rightarrow> u64" where
  "sub_desc k = dev_desc k OR IO_MEM_SUBPAGE"

lemma in_page_take_bit: "in_page a = take_bit 10 a"
  by (simp add: in_page_def TARGET_PAGE_MASK_def take_bit_eq_mask mask_eq_exp_minus_1)

lemma unat_in_page: "unat (in_page a) = unat a mod 1024"
  by (simp add: in_page_take_bit take_bit_eq_mod unat_mod_distrib)

lemma io_index_nat: "io_index pd = unat pd div 8 mod 128"
proof -
  have "io_index pd = unat (take_bit 7 (drop_bit 3 pd))"
    by (simp add: io_index_def IO_MEM_SHIFT_def IO_MEM_NB_ENTRIES_def TARGET_PAGE_BITS_def take_bit_eq_mask mask_eq_exp_minus_1)
  then show ?thesis by (simp add: take_bit_eq_mod drop_bit_eq_div unat_mod_distrib unat_div_distrib)
qed

lemma subpage_bit: "pd AND IO_MEM_SUBPAGE = 0 \<longleftrightarrow> \<not> bit pd (Suc 0)" "pd AND IO_MEM_ROMD = 0 \<longleftrightarrow> \<not> bit pd 0"
  using and_2_power_eq_0_iff [of pd 1] and_2_power_eq_0_iff [of pd 0] by (simp_all add: IO_MEM_SUBPAGE_def IO_MEM_ROMD_def)

lemma desc_bits:
  "bit (dev_desc k) (Suc 0) = False" "bit (dev_desc k) 0 = False" "bit (sub_desc k) (Suc 0) = True" "bit (sub_desc k) 0 = False"
  by (simp_all add: sub_desc_def dev_desc_def IO_MEM_SUBPAGE_def IO_MEM_SHIFT_def bit_simps)

lemma unat_desc:
  assumes "k < 128"
  shows "unat (dev_desc k) = 8 * k" "unat (sub_desc k) = 8 * k + 2"
proof -
  show d: "unat (dev_desc k) = 8 * k"
    using assms by (simp add: dev_desc_def IO_MEM_SHIFT_def push_bit_eq_mult unat_word_ariths unat_of_nat)
  have "sub_desc k = dev_desc k + 2"
    unfolding sub_desc_def IO_MEM_SUBPAGE_def
    by (rule disjunctive_add [symmetric]) (auto simp: dev_desc_def IO_MEM_SHIFT_def bit_simps)
  then show "unat (sub_desc k) = 8 * k + 2" using d assms by (simp add: unat_word_ariths)
qed

lemma desc:
  assumes "k < 128"
  shows "io_index (dev_desc k) = k" "io_index (sub_desc k) = k" "dev_desc k AND IO_MEM_SUBPAGE = 0"
    "sub_desc k AND IO_MEM_SUBPAGE \<noteq> 0" "unat (drop_bit IO_MEM_SHIFT (in_page (sub_desc k))) = k"
    "2 \<le> k \<Longrightarrow> \<not> is_ram_or_rom (dev_desc k)" "2 \<le> k \<Longrightarrow> \<not> is_ram_or_rom (sub_desc k)"
    "dev_desc k = IO_MEM_UNASSIGNED \<longleftrightarrow> k = 2" "sub_desc k \<noteq> IO_MEM_UNASSIGNED" "2 \<le> k \<Longrightarrow> in_page (dev_desc k) \<noteq> 0"
proof -
  note n = assms unat_desc [OF assms]
  show "io_index (dev_desc k) = k" "io_index (sub_desc k) = k" "dev_desc k AND IO_MEM_SUBPAGE = 0"
    "sub_desc k AND IO_MEM_SUBPAGE \<noteq> 0"
    using n by (simp_all add: io_index_nat subpage_bit desc_bits)
  show "unat (drop_bit IO_MEM_SHIFT (in_page (sub_desc k))) = k"
    using n by (simp add: drop_bit_eq_div unat_div_distrib IO_MEM_SHIFT_def unat_in_page)
  have r: "is_ram_or_rom pd \<longleftrightarrow> unat pd mod 1024 \<le> 8 \<or> bit pd 0" for pd
    by (simp add: is_ram_or_rom_def subpage_bit word_le_nat_alt unat_in_page IO_MEM_ROM_def)
  show "\<not> is_ram_or_rom (dev_desc k)" "\<not> is_ram_or_rom (sub_desc k)" if "2 \<le> k"
    using n that by (simp_all add: r desc_bits)
  have u: "unat IO_MEM_UNASSIGNED = 16" by (simp add: IO_MEM_UNASSIGNED_def)
  show "dev_desc k = IO_MEM_UNASSIGNED \<longleftrightarrow> k = 2" using n u by (simp add: word_unat_eq_iff)
  show "sub_desc k \<noteq> IO_MEM_UNASSIGNED" using n u by (simp add: word_unat_eq_iff) presburger
  show "in_page (dev_desc k) \<noteq> 0" if "2 \<le> k" using n that by (simp add: word_unat_eq_iff unat_in_page)
qed

lemma unassigned_desc: "IO_MEM_UNASSIGNED = dev_desc 2" "\<not> is_ram_or_rom IO_MEM_UNASSIGNED" "in_page IO_MEM_UNASSIGNED \<noteq> 0"
  "io_index IO_MEM_UNASSIGNED = 2"
proof -
  show u: "IO_MEM_UNASSIGNED = dev_desc 2" by (simp add: dev_desc_def IO_MEM_UNASSIGNED_def IO_MEM_SHIFT_def push_bit_eq_mult)
  show "\<not> is_ram_or_rom IO_MEM_UNASSIGNED" "in_page IO_MEM_UNASSIGNED \<noteq> 0" "io_index IO_MEM_UNASSIGNED = 2"
    unfolding u by (simp_all add: desc)
qed

section \<open>Well-formed maps\<close>

definition is_device :: "'w phys_map \<Rightarrow> nat \<Rightarrow> bool" where
  "is_device m k \<longleftrightarrow> (\<exists>f. io_mem m k = io_device f)"

definition dev_slot :: "'w phys_map \<Rightarrow> nat \<Rightarrow> bool" where
  "dev_slot m k \<longleftrightarrow> 2 \<le> k \<and> k < 128 \<and> is_device m k"

definition mem_desc :: "u64 \<Rightarrow> bool" where
  "mem_desc po \<longleftrightarrow> is_ram_or_rom po \<and> po AND IO_MEM_SUBPAGE = 0"

definition sub_slot :: "'w phys_map \<Rightarrow> PhysPageDesc \<Rightarrow> nat \<Rightarrow> bool" where
  "sub_slot m p k \<longleftrightarrow> 6 \<le> k \<and> k < 128 \<and> phys_offset p = sub_desc k \<and> region_offset p = 0 \<and> (\<exists>sp. io_mem m k = io_subpage sp)"

definition page_ok :: "'w phys_map \<Rightarrow> PhysPageDesc \<Rightarrow> bool" where
  "page_ok m p \<longleftrightarrow> mem_desc (phys_offset p) \<or> (\<exists>k. dev_slot m k \<and> phys_offset p = dev_desc k) \<or> (\<exists>k. sub_slot m p k)"

definition phys_ok :: "'w phys_map \<Rightarrow> bool" where
  "phys_ok m \<longleftrightarrow>
     (\<forall>k<6. is_device m k) \<and>
     (\<forall>i p. phys_page_find i m = Some p \<longrightarrow> page_ok m p) \<and>
     (\<forall>k sp. io_mem m k = io_subpage sp \<longrightarrow> (\<forall>b<1024. dev_slot m (sub_io_index sp b))) \<and>
     (\<forall>i j p q k. phys_page_find i m = Some p \<longrightarrow> phys_page_find j m = Some q \<longrightarrow> sub_slot m p k \<longrightarrow> sub_slot m q k \<longrightarrow>
        i = j)"

lemma phys_okD:
  assumes "phys_ok m"
  shows "k < 6 \<Longrightarrow> is_device m k" "phys_page_find i m = Some p \<Longrightarrow> page_ok m p"
    "io_mem m k = io_subpage sp \<Longrightarrow> b < 1024 \<Longrightarrow> dev_slot m (sub_io_index sp b)"
    "phys_page_find i m = Some p \<Longrightarrow> phys_page_find j m = Some q \<Longrightarrow> sub_slot m p k \<Longrightarrow> sub_slot m q k \<Longrightarrow> i = j"
  using assms unfolding phys_ok_def by blast+

section \<open>Lookup\<close>

lemma page_index: "l1_index i = i div 1024" "l2_index i = i mod 1024"
  by (simp_all add: l1_index_def l2_index_def P_L1_SHIFT_def L2_BITS_def drop_bit_eq_div take_bit_eq_mod)

lemma page_index_inj: "i div 1024 = j div 1024 \<Longrightarrow> i mod 1024 = j mod 1024 \<Longrightarrow> i = (j :: nat)"
  by (metis div_mult_mod_eq)

lemma find_set_page:
  "phys_page_find j (set_page i f m) = (if j = i then map_option f (phys_page_find i m) else phys_page_find j m)"
  using page_index_inj [of j i]
  by (auto simp: phys_page_find_def set_page_def page_index split: option.splits)

lemma find_alloc:
  "phys_page_find j (phys_page_find_alloc i m) =
     (if phys_page_find j m = None \<and> j div 1024 = i div 1024 then Some (new_block i (j mod 1024)) else phys_page_find j m)"
  by (auto simp: phys_page_find_def phys_page_find_alloc_def page_index split: option.splits)

lemma io_mem_page [simp]:
  "io_mem (set_page i f m) = io_mem m" "io_mem (phys_page_find_alloc i m) = io_mem m"
  by (auto simp: set_page_def phys_page_find_alloc_def split: option.splits)

lemma find_io_mem [simp]: "phys_page_find i (m\<lparr>io_mem := x\<rparr>) = phys_page_find i m"
  by (simp add: phys_page_find_def)

lemma page_ok_cong:
  assumes "\<And>k. k < 128 \<Longrightarrow> io_mem m k \<noteq> io_free \<Longrightarrow> is_device m' k = is_device m k \<and>
      ((\<exists>sp. io_mem m' k = io_subpage sp) = (\<exists>sp. io_mem m k = io_subpage sp))"
    and "page_ok m p"
  shows "page_ok m' p"
  using assms unfolding page_ok_def dev_slot_def sub_slot_def is_device_def by (metis io_slot.distinct(1,3))

lemma page_byte_unassigned: "page_byte m i b = Unassigned"
  if "phys_page_find i m = None \<or> (\<exists>p. phys_page_find i m = Some p \<and> phys_offset p = IO_MEM_UNASSIGNED)"
  using that by (auto simp: page_byte_def page_dest_def io_dest_def unassigned_desc(2,4) unassigned_desc(1) desc)

lemma page_byte_cong:
  assumes "phys_page_find i m' = phys_page_find i m"
    and "\<And>p k. phys_page_find i m = Some p \<Longrightarrow> sub_slot m p k \<Longrightarrow> io_mem m' k = io_mem m k"
    and "phys_ok m"
  shows "page_byte m' i b = page_byte m i b"
proof (cases "phys_page_find i m")
  case None
  then show ?thesis using assms(1) by (simp add: page_byte_def)
next
  case (Some p)
  then have "page_ok m p" using assms(3) phys_okD by blast
  then consider "mem_desc (phys_offset p)" | k where "dev_slot m k" "phys_offset p = dev_desc k" | k where "sub_slot m p k"
    unfolding page_ok_def by blast
  then show ?thesis
  proof cases
    case 1
    then show ?thesis using Some assms(1) by (simp add: page_byte_def mem_desc_def)
  next
    case 2
    then show ?thesis using Some assms(1) by (simp add: page_byte_def desc dev_slot_def)
  next
    case 3
    then have "io_mem m' k = io_mem m k" using assms(2) Some by blast
    then show ?thesis using Some assms(1) 3 by (simp add: page_byte_def sub_slot_def desc)
  qed
qed

lemma page_byte_sub:
  assumes "phys_page_find i m = Some p" "sub_slot m p k" "io_mem m k = io_subpage sp" "b < 1024"
  shows "page_byte m i b = io_dest (sub_io_index sp (unat b)) (ucast b + ucast (sub_region_offset sp (unat b)))"
proof -
  have "unat b < 1024" using assms(4) by (simp add: word_less_nat_alt)
  then have "unat (in_page (ucast (ucast b :: phys_addr))) = unat b"
    by (simp add: unat_in_page unsigned_ucast_eq take_bit_eq_mod unat_mod_distrib)
  then show ?thesis using assms by (simp add: page_byte_def sub_slot_def desc subpage_target_def Let_def)
qed

section \<open>Shared pages\<close>

definition sub_mem :: "u64 \<Rightarrow> nat" where
  "sub_mem mem = io_index (if in_page mem = 0 then IO_MEM_UNASSIGNED else mem)"

lemma subpage_fold:
  "sub_io_index (fold (\<lambda>idx sp. sp\<lparr>sub_io_index := (sub_io_index sp)(idx := k),
      sub_region_offset := (sub_region_offset sp)(idx := ro)\<rparr>) xs sp) b = (if b \<in> set xs then k else sub_io_index sp b)"
  "sub_region_offset (fold (\<lambda>idx sp. sp\<lparr>sub_io_index := (sub_io_index sp)(idx := k),
      sub_region_offset := (sub_region_offset sp)(idx := ro)\<rparr>) xs sp) b = (if b \<in> set xs then ro else sub_region_offset sp b)"
  by (induction xs arbitrary: sp) auto

lemma subpage_register_at:
  assumes "en < 1024" "st \<le> en"
  shows "sub_io_index (subpage_register st en mem ro sp) b = (if st \<le> b \<and> b \<le> en then sub_mem mem else sub_io_index sp b)"
    "sub_region_offset (subpage_register st en mem ro sp) b = (if st \<le> b \<and> b \<le> en then ro else sub_region_offset sp b)"
  using assms unfolding subpage_register_def Let_def
  by (simp_all add: subpage_fold sub_mem_def TARGET_PAGE_SIZE_def TARGET_PAGE_BITS_def less_Suc_eq_le)

lemma sub_mem_dev: "dev_slot m k \<Longrightarrow> sub_mem (dev_desc k) = k"
  by (simp add: sub_mem_def dev_slot_def desc)

lemma first_free_SomeD: "first_free xs m = Some k \<Longrightarrow> k \<in> set xs \<and> io_mem m k = io_free"
  by (induction xs) (auto split: if_splits)

lemma free_idx_cong: "io_mem m = io_mem m' \<Longrightarrow> get_free_io_mem_idx m = get_free_io_mem_idx m'"
proof -
  assume "io_mem m = io_mem m'"
  then have "first_free xs m = first_free xs m'" for xs by (induction xs) auto
  then show ?thesis by (simp add: get_free_io_mem_idx_def)
qed

lemma free_slot:
  assumes "get_free_io_mem_idx m = Some k" "phys_ok m"
  shows "io_mem m k = io_free" "6 \<le> k" "k < 128"
proof -
  show k: "io_mem m k = io_free" "k < 128"
    using assms(1) first_free_SomeD [of "[0..<IO_MEM_NB_ENTRIES]" m k]
    by (auto simp: get_free_io_mem_idx_def IO_MEM_NB_ENTRIES_def TARGET_PAGE_BITS_def IO_MEM_SHIFT_def)
  show "6 \<le> k"
  proof (rule ccontr)
    assume "\<not> 6 \<le> k"
    then have "is_device m k" using phys_okD(1) [OF assms(2), of k] by simp
    then show False using k(1) by (simp add: is_device_def)
  qed
qed

text \<open>A page gets a slot of its own, or the slot of a shared page changes.\<close>

lemma set_subpage:
  fixes m :: "'w phys_map"
  assumes "phys_ok m" "phys_page_find i m = Some p" "6 \<le> k" "k < 128"
    and "io_mem m k = io_free \<or> sub_slot m p k"
    and "\<And>b. b < 1024 \<Longrightarrow> dev_slot m (sub_io_index sp b)"
  defines "m' \<equiv> set_page i (\<lambda>p. p\<lparr>phys_offset := sub_desc k, region_offset := 0\<rparr>) (m\<lparr>io_mem := (io_mem m)(k := io_subpage sp)\<rparr>)"
  shows "phys_ok m'"
    "b < 1024 \<Longrightarrow> page_byte m' j b = (if j = i then io_dest (sub_io_index sp (unat b)) (ucast b + ucast (sub_region_offset sp (unat b)))
       else page_byte m j b)"
    "is_device m l \<Longrightarrow> io_mem m' l = io_mem m l"
proof -
  have io: "io_mem m' = (io_mem m)(k := io_subpage sp)" by (simp add: m'_def)
  have find: "phys_page_find j m' = (if j = i then Some (p\<lparr>phys_offset := sub_desc k, region_offset := 0\<rparr>) else phys_page_find j m)" for j
    using assms(2) by (simp add: m'_def find_set_page)
  have kd: "\<not> is_device m k" using assms(5) by (auto simp: is_device_def sub_slot_def)
  have dev: "dev_slot m' l = dev_slot m l" for l using kd by (auto simp: dev_slot_def is_device_def io)
  have sub_k: "sub_slot m q k \<Longrightarrow> phys_page_find j m = Some q \<Longrightarrow> j = i" for j q
  proof -
    assume q: "sub_slot m q k" "phys_page_find j m = Some q"
    then have "sub_slot m p k" using assms(5) by (auto simp: sub_slot_def)
    then show "j = i" using q assms(2) phys_okD(4) [OF assms(1)] by blast
  qed
  have new: "sub_slot m' (p\<lparr>phys_offset := sub_desc k, region_offset := 0\<rparr>) k" using assms(3,4) by (simp add: sub_slot_def io)
  have inj: "sub_desc a = sub_desc b \<Longrightarrow> a < 128 \<Longrightarrow> b < 128 \<Longrightarrow> a = b" for a b using desc(2) by metis
  have old: "sub_slot m' q l = sub_slot m q l" if "phys_page_find j m = Some q" "j \<noteq> i" for q j l
  proof (cases "l = k")
    case True
    have "phys_offset q \<noteq> sub_desc k \<or> region_offset q \<noteq> 0"
    proof (rule ccontr)
      assume "\<not> ?thesis"
      then have q: "phys_offset q = sub_desc k" "region_offset q = 0" by auto
      have "page_ok m q" using that phys_okD(2) [OF assms(1)] by blast
      then have "sub_slot m q k"
      proof -
        from \<open>page_ok m q\<close> consider "mem_desc (phys_offset q)" | l where "dev_slot m l" "phys_offset q = dev_desc l" | l where "sub_slot m q l"
          unfolding page_ok_def by blast
        then show ?thesis
        proof cases
          case 1
          then show ?thesis using q desc(4) [OF assms(4)] by (simp add: mem_desc_def)
        next
          case 2
          then show ?thesis using q desc(4) [OF assms(4)] desc(3) [of l] by (simp add: dev_slot_def)
        next
          case 3
          then show ?thesis using q inj [of k l] assms(4) by (simp add: sub_slot_def)
        qed
      qed
      then show False using sub_k that by blast
    qed
    then show ?thesis using True by (auto simp: sub_slot_def)
  next
    case False
    then show ?thesis by (simp add: sub_slot_def io)
  qed
  show "phys_ok m'" unfolding phys_ok_def
  proof (intro conjI allI impI)
    show "is_device m' l" if "l < 6" for l using that phys_okD(1) [OF assms(1)] assms(3) by (simp add: is_device_def io)
    show "page_ok m' q" if "phys_page_find j m' = Some q" for j q
    proof (cases "j = i")
      case True
      then show ?thesis using that new find by (auto simp: page_ok_def)
    next
      case False
      then have q: "phys_page_find j m = Some q" using that find by simp
      then show ?thesis using phys_okD(2) [OF assms(1) q] old [OF q False] dev by (simp add: page_ok_def)
    qed
    show "dev_slot m' (sub_io_index sp' b)" if "io_mem m' l = io_subpage sp'" "b < 1024" for l sp' b
      using that assms(6) phys_okD(3) [OF assms(1)] dev by (auto simp: io split: if_splits)
    show "j = j'" if "phys_page_find j m' = Some q" "phys_page_find j' m' = Some q'" "sub_slot m' q l" "sub_slot m' q' l" for j j' q q' l
    proof -
      have s: "sub_slot m q l" if "phys_page_find j m' = Some q" "j \<noteq> i" "sub_slot m' q l" for j q l
        using that old find by auto
      have i: "l = k" if "phys_page_find i m' = Some q" "sub_slot m' q l" for q l
        using that find [of i] inj assms(4) by (auto simp: sub_slot_def)
      have f: "phys_page_find j m = Some q" if "phys_page_find j m' = Some q" "j \<noteq> i" for j q using that find by simp
      consider "j = i" "j' = i" | "j = i" "j' \<noteq> i" | "j \<noteq> i" "j' = i" | "j \<noteq> i" "j' \<noteq> i" by blast
      then show ?thesis
      proof cases
        case 2
        then show ?thesis using that i s [OF that(2)] sub_k [OF _ f [OF that(2)]] by blast
      next
        case 3
        then show ?thesis using that i s [OF that(1)] sub_k [OF _ f [OF that(1)]] by blast
      next
        case 4
        then show ?thesis using that s phys_okD(4) [OF assms(1) f f] by blast
      qed simp
    qed
  qed
  show "page_byte m' j b = (if j = i then io_dest (sub_io_index sp (unat b)) (ucast b + ucast (sub_region_offset sp (unat b)))
       else page_byte m j b)" if "b < 1024"
  proof (cases "j = i")
    case True
    then show ?thesis using page_byte_sub [OF _ new, of i sp b] find [of i] that by (simp add: io)
  next
    case False
    have "io_mem m' l = io_mem m l" if "phys_page_find j m = Some q" "sub_slot m q l" for q l
      using that sub_k False by (auto simp: io)
    then show ?thesis using False page_byte_cong [of j m' m b] find assms(1) by auto
  qed
  show "is_device m l \<Longrightarrow> io_mem m' l = io_mem m l" using kd by (auto simp: io)
qed

section \<open>One page\<close>

definition slot_left :: "nat \<Rightarrow> 'w phys_map \<Rightarrow> bool" where
  "slot_left i m \<longleftrightarrow> get_free_io_mem_idx m \<noteq> None \<or> (\<exists>p k. phys_page_find i m = Some p \<and> sub_slot m p k)"

definition page_free :: "nat \<Rightarrow> 'w phys_map \<Rightarrow> bool" where
  "page_free i m \<longleftrightarrow> (\<forall>p. phys_page_find i m = Some p \<longrightarrow> phys_offset p = IO_MEM_UNASSIGNED)"

definition no_mem :: "nat \<Rightarrow> 'w phys_map \<Rightarrow> bool" where
  "no_mem i m \<longleftrightarrow> (\<forall>p. phys_page_find i m = Some p \<longrightarrow> \<not> mem_desc (phys_offset p))"

definition desc_ok :: "'w phys_map \<Rightarrow> u64 \<Rightarrow> bool" where
  "desc_ok m po \<longleftrightarrow> mem_desc po \<or> (\<exists>k. dev_slot m k \<and> po = dev_desc k)"

text \<open>The effect of registering a part of a page.\<close>

definition maps_part :: "nat \<Rightarrow> nat \<Rightarrow> nat \<Rightarrow> u64 \<Rightarrow> u64 \<Rightarrow> 'w phys_map \<Rightarrow> 'w phys_map \<Rightarrow> bool" where
  "maps_part i st en po ro m m' \<longleftrightarrow> phys_ok m' \<and>
     (\<forall>j b. b < 1024 \<longrightarrow> page_byte m' j b = (if j = i \<and> st \<le> unat b \<and> unat b \<le> en then page_dest po ro b else page_byte m j b)) \<and>
     (\<forall>k. is_device m k \<longrightarrow> io_mem m' k = io_mem m k)"

lemma ucast_add: "ucast (b + r :: u64) = (ucast b + ucast r :: phys_addr)"
  by (simp add: word_unat_eq_iff unsigned_ucast_eq take_bit_eq_mod unat_word_ariths mod_simps mod_mod_cancel)

lemma page_dest_dev: "dev_slot m k \<Longrightarrow> page_dest (dev_desc k) ro b = io_dest k (ucast b + ucast ro)"
  by (simp add: page_dest_def dev_slot_def desc ucast_add)

lemma set_page_desc:
  fixes g :: "PhysPageDesc \<Rightarrow> u64"
  assumes "phys_ok m" "desc_ok m po" "phys_page_find i m = Some p"
  defines "m' \<equiv> set_page i (\<lambda>p. p\<lparr>phys_offset := po, region_offset := g p\<rparr>) m"
  shows "phys_ok m'" "page_byte m' j b = (if j = i then page_dest po (g p) b else page_byte m j b)"
proof -
  have find: "phys_page_find j m' = (if j = i then Some (p\<lparr>phys_offset := po, region_offset := g p\<rparr>) else phys_page_find j m)" for j
    using assms(3) by (simp add: m'_def find_set_page)
  have io: "io_mem m' = io_mem m" by (simp add: m'_def)
  then have c: "dev_slot m' = dev_slot m" "sub_slot m' = sub_slot m" "is_device m' = is_device m"
    by (intro ext; simp add: dev_slot_def sub_slot_def is_device_def)+
  have d: "po AND IO_MEM_SUBPAGE = 0" using assms(2) by (auto simp: desc_ok_def mem_desc_def dev_slot_def desc)
  then have nsub: "\<not> sub_slot m (p\<lparr>phys_offset := po, region_offset := r\<rparr>) k" for r k
    using desc(4) by (auto simp: sub_slot_def)
  show "phys_ok m'"
    using assms(1,2) nsub unfolding phys_ok_def page_ok_def desc_ok_def c io find by (auto split: if_splits)
  show "page_byte m' j b = (if j = i then page_dest po (g p) b else page_byte m j b)"
  proof (cases "j = i")
    case True
    then show ?thesis using find [of i] d by (simp add: page_byte_def)
  next
    case False
    then show ?thesis using page_byte_cong [of j m' m b] find io assms(1) by simp
  qed
qed

lemma alloc_ok:
  assumes "phys_ok m"
  shows "phys_ok (phys_page_find_alloc i m)" "page_byte (phys_page_find_alloc i m) j b = page_byte m j b"
    "\<exists>p. phys_page_find i (phys_page_find_alloc i m) = Some p"
proof -
  let ?m = "phys_page_find_alloc i m"
  have c: "dev_slot ?m = dev_slot m" "sub_slot ?m = sub_slot m" "is_device ?m = is_device m"
    by (intro ext; simp add: dev_slot_def sub_slot_def is_device_def)+
  have new: "phys_offset (new_block i b) = dev_desc 2" for b by (simp add: new_block_def unassigned_desc)
  have 2: "dev_slot m 2" using phys_okD(1) [OF assms] by (simp add: dev_slot_def)
  have nsub: "\<not> sub_slot m (new_block i b) k" for b k using desc(3) [of 2] desc(4) new by (auto simp: sub_slot_def)
  show "phys_ok ?m" using assms new nsub 2 unfolding phys_ok_def page_ok_def c io_mem_page find_alloc
    by (auto split: if_splits)
  show "page_byte ?m j b = page_byte m j b"
  proof (cases "phys_page_find j m")
    case None
    then have "page_byte m j b = Unassigned" by (simp add: page_byte_def)
    moreover have "page_byte ?m j b = Unassigned"
      using None new by (intro page_byte_unassigned) (auto simp: find_alloc unassigned_desc)
    ultimately show ?thesis by simp
  next
    case (Some p)
    then show ?thesis using page_byte_cong [of j ?m m b] assms by (simp add: find_alloc)
  qed
  show "\<exists>p. phys_page_find i ?m = Some p" by (cases "phys_page_find i m") (auto simp: find_alloc)
qed

lemma next_offset_dev: "dev_slot m k \<Longrightarrow> next_offset (dev_desc k) = dev_desc k"
  by (simp add: next_offset_def dev_slot_def desc)

lemma subpage_init_slot:
  assumes "get_free_io_mem_idx m = Some k"
  shows "subpage_init base mem ro m = (sub_desc k, Some k,
    subpage_register 0 1023 mem ro \<lparr>sub_base = base, sub_io_index = (\<lambda>_. 0), sub_region_offset = (\<lambda>_. 0)\<rparr>,
    m\<lparr>io_mem := (io_mem m)(k := io_subpage (subpage_register 0 1023 mem ro
        \<lparr>sub_base = base, sub_io_index = (\<lambda>_. 0), sub_region_offset = (\<lambda>_. 0)\<rparr>))\<rparr>)"
  using assms by (simp add: subpage_init_def register_io_memory_def sub_desc_def dev_desc_def TARGET_PAGE_SIZE_def TARGET_PAGE_BITS_def Let_def)

text \<open>Adding a part to a page whose bytes lead to devices, as a shared page.\<close>

lemma share_page:
  fixes m :: "'w phys_map"
  assumes "phys_ok m" "phys_page_find i m = Some p" "6 \<le> k" "k < 128" "io_mem m k = io_free \<or> sub_slot m p k"
    and "dev_slot m d" "st \<le> en" "en < 1024"
    and sp: "\<And>b. b < 1024 \<Longrightarrow> dev_slot m (sub_io_index sp b)"
    and old: "\<And>b. b < 1024 \<Longrightarrow> io_dest (sub_io_index sp (unat b)) (ucast b + ucast (sub_region_offset sp (unat b))) = page_byte n i b"
    and n: "\<And>j b. j \<noteq> i \<Longrightarrow> b < 1024 \<Longrightarrow> page_byte m j b = page_byte n j b" "io_mem n = io_mem m"
  shows "maps_part i st en (dev_desc d) ro n (set_page i (\<lambda>p. p\<lparr>phys_offset := sub_desc k, region_offset := 0\<rparr>)
    (m\<lparr>io_mem := (io_mem m)(k := io_subpage (subpage_register st en (dev_desc d) ro sp))\<rparr>))"
proof -
  let ?sp = "subpage_register st en (dev_desc d) ro sp"
  have at: "sub_io_index ?sp b = (if st \<le> b \<and> b \<le> en then d else sub_io_index sp b)"
    "sub_region_offset ?sp b = (if st \<le> b \<and> b \<le> en then ro else sub_region_offset sp b)" for b
    using subpage_register_at [OF assms(8,7)] sub_mem_dev [OF assms(6)] by simp_all
  have dev: "\<And>b. b < 1024 \<Longrightarrow> dev_slot m (sub_io_index ?sp b)" using sp assms(6) by (simp add: at)
  note s = set_subpage [OF assms(1-5) dev]
  have "is_device n l = is_device m l" for l using n(2) by (simp add: is_device_def)
  then show ?thesis unfolding maps_part_def using s old n page_dest_dev [OF assms(6)] by (auto simp: at)
qed

lemma page_free_byte: "page_free i m \<Longrightarrow> page_byte m i b = Unassigned"
  by (rule page_byte_unassigned) (cases "phys_page_find i m", auto simp: page_free_def)

lemma register_unassigned_maps:
  assumes "phys_ok m" "desc_ok m po" "CHECK_SUBPAGE addr start sz = (st, en, need)" "st \<le> en" "en < 1024"
    and need: "need \<longleftrightarrow> st \<noteq> 0 \<or> en \<noteq> 1023" "need \<Longrightarrow> \<not> mem_desc po \<and> get_free_io_mem_idx m \<noteq> None"
    and i: "i = unat (drop_bit TARGET_PAGE_BITS addr)" "page_free i m"
  shows "\<exists>m'. register_unassigned addr start sz po ro m = Inr (next_offset po, m') \<and> maps_part i st en po ro m m'"
proof -
  define m0 where "m0 = phys_page_find_alloc i m"
  define m1 where "m1 = set_page i (\<lambda>p. p\<lparr>phys_offset := po, region_offset := ro\<rparr>) m0"
  obtain p where p: "phys_page_find i m0 = Some p" using alloc_ok(3) [OF assms(1), of i] by (auto simp: m0_def)
  have io: "io_mem m1 = io_mem m" "io_mem m0 = io_mem m" by (simp_all add: m1_def m0_def)
  have m0: "phys_ok m0" "desc_ok m0 po"
    using alloc_ok(1) [OF assms(1)] assms(2) io(2) by (auto simp: m0_def desc_ok_def dev_slot_def is_device_def)
  note sp = set_page_desc [OF m0 p, of "\<lambda>_. ro", folded m1_def]
  have byte: "page_byte m1 j b = (if j = i then page_dest po ro b else page_byte m j b)" for j b
    using sp(2) alloc_ok(2) [OF assms(1)] by (simp add: m0_def)
  show ?thesis
  proof (cases need)
    case False
    then have "st = 0" "en = 1023" using need(1) by auto
    then have "maps_part i st en po ro m m1" using sp(1) byte io by (auto simp: maps_part_def word_less_nat_alt)
    moreover have "register_unassigned addr start sz po ro m = Inr (next_offset po, m1)"
      using False by (simp add: register_unassigned_def assms(3) Let_def i(1) [symmetric] m0_def [symmetric] m1_def [symmetric] next_offset_def)
    ultimately show ?thesis by blast
  next
    case True
    then obtain d k where d: "dev_slot m d" "po = dev_desc d" and k: "get_free_io_mem_idx m1 = Some k"
      using need(2) assms(2) free_idx_cong [OF io(1)] by (auto simp: desc_ok_def)
    have nr: "\<not> is_ram_or_rom po" using d desc [of d] by (simp add: dev_slot_def)
    have d1: "dev_slot m1 d" "dev_slot m1 2" using d(1) phys_okD(1) [OF sp(1)] io by (auto simp: dev_slot_def is_device_def)
    have f1: "phys_page_find i m1 = Some (p\<lparr>phys_offset := po, region_offset := ro\<rparr>)" using p by (simp add: m1_def find_set_page)
    note k' = free_slot [OF k sp(1)]
    define base where "base = addr AND ucast TARGET_PAGE_MASK"
    define sp0 where "sp0 = subpage_register 0 1023 IO_MEM_UNASSIGNED (ucast base)
      \<lparr>sub_base = base, sub_io_index = (\<lambda>_. 0), sub_region_offset = (\<lambda>_. 0)\<rparr>"
    have at: "sub_io_index sp0 b = 2" if "b < 1024" for b
      using that subpage_register_at [of 1023 0] sub_mem_dev [OF d1(2)] by (simp add: sp0_def unassigned_desc(1))
    define m2 where "m2 = set_page i (\<lambda>p. p\<lparr>phys_offset := sub_desc k, region_offset := 0\<rparr>)
      (m1\<lparr>io_mem := (io_mem m1)(k := io_subpage (subpage_register st en (dev_desc d) ro sp0))\<rparr>)"
    have "register_unassigned addr start sz po ro m = Inr (po, m2)"
      using True nr subpage_init_slot [OF k, of base IO_MEM_UNASSIGNED "ucast base"]
      by (simp add: register_unassigned_def assms(3) Let_def i(1) [symmetric] m0_def [symmetric] m1_def [symmetric] base_def [symmetric]
          sp0_def [symmetric] put_subpage_def m2_def d(2) [symmetric])
    moreover have "maps_part i st en (dev_desc d) ro m m2" unfolding m2_def
    proof (rule share_page [OF sp(1) f1 k'(2,3) _ d1(1) assms(4,5)])
      show "io_dest (sub_io_index sp0 (unat b)) (ucast b + ucast (sub_region_offset sp0 (unat b))) = page_byte m i b" if "b < 1024" for b
        using that at page_free_byte [OF i(2)] by (simp add: io_dest_def word_less_nat_alt)
    qed (use k'(1) at d1 byte io in auto)
    ultimately show ?thesis using next_offset_dev [OF d(1)] d(2) by auto
  qed
qed

lemma page_cases:
  assumes "phys_ok m" "phys_page_find i m = Some p"
  obtains "mem_desc (phys_offset p)" | k where "dev_slot m k" "phys_offset p = dev_desc k" | k sp where "sub_slot m p k" "io_mem m k = io_subpage sp"
  using phys_okD(2) [OF assms] by (auto simp: page_ok_def sub_slot_def)

lemma register_assigned_maps:
  assumes "phys_ok m" "desc_ok m po" "CHECK_SUBPAGE addr start sz = (st, en, need)" "st \<le> en" "en < 1024"
    and need: "need \<longleftrightarrow> st \<noteq> 0 \<or> en \<noteq> 1023" "need \<Longrightarrow> \<not> mem_desc po \<and> \<not> mem_desc (phys_offset p) \<and> slot_left i m"
    and i: "i = unat (drop_bit TARGET_PAGE_BITS addr)" "phys_page_find i m = Some p"
    and whole: "need \<or> mem_desc po \<or> po = IO_MEM_UNASSIGNED"
  shows "\<exists>m'. register_assigned addr start sz po ro p m = Inr (next_offset po, m') \<and> maps_part i st en po ro m m'"
proof (cases need)
  case False
  define m1 where "m1 = set_page i (\<lambda>p. p\<lparr>phys_offset := po\<rparr>) m"
  have m1: "m1 = set_page i (\<lambda>p. p\<lparr>phys_offset := po, region_offset := region_offset p\<rparr>) m"
    unfolding m1_def by (rule arg_cong [where f = "\<lambda>f. set_page i f m"]) (auto intro: PhysPageDesc.equality)
  note sp = set_page_desc [OF assms(1,2) i(2), of region_offset, folded m1]
  have "st = 0" "en = 1023" using False need(1) by auto
  moreover have "page_dest po r b = page_dest po ro b" for r b
    using whole False by (auto simp: page_dest_def mem_desc_def io_dest_def unassigned_desc(2,4))
  ultimately have "maps_part i st en po ro m m1" using sp by (auto simp: maps_part_def word_less_nat_alt m1_def)
  moreover have "register_assigned addr start sz po ro p m = Inr (next_offset po, m1)"
    using False by (simp add: register_assigned_def assms(3) Let_def i(1) [symmetric] m1_def)
  ultimately show ?thesis by blast
next
  case True
  then obtain d where d: "dev_slot m d" "po = dev_desc d" using need(2) assms(2) by (auto simp: desc_ok_def)
  note result = next_offset_dev [OF d(1)]
  from assms(1) i(2) consider "mem_desc (phys_offset p)" | l where "dev_slot m l" "phys_offset p = dev_desc l"
    | l sp where "sub_slot m p l" "io_mem m l = io_subpage sp" by (rule page_cases)
  then show ?thesis
  proof cases
    case 1
    then show ?thesis using need(2) True by simp
  next
    case 2
    have nsub: "\<not> sub_slot m p k" for k using 2 desc(3) [of l] desc(4) [of k] by (auto simp: dev_slot_def sub_slot_def)
    then obtain k where k: "get_free_io_mem_idx m = Some k" using need(2) True i(2) by (auto simp: slot_left_def)
    note k' = free_slot [OF k assms(1)]
    define base where "base = addr AND ucast TARGET_PAGE_MASK"
    define sp0 where "sp0 = subpage_register 0 1023 (dev_desc l) (region_offset p)
      \<lparr>sub_base = base, sub_io_index = (\<lambda>_. 0), sub_region_offset = (\<lambda>_. 0)\<rparr>"
    have at: "sub_io_index sp0 b = l" "sub_region_offset sp0 b = region_offset p" if "b < 1024" for b
      using that subpage_register_at [of 1023 0] sub_mem_dev [OF 2(1)] by (simp_all add: sp0_def)
    define m2 where "m2 = set_page i (\<lambda>p. p\<lparr>phys_offset := sub_desc k, region_offset := 0\<rparr>)
      (m\<lparr>io_mem := (io_mem m)(k := io_subpage (subpage_register st en (dev_desc d) ro sp0))\<rparr>)"
    have "register_assigned addr start sz po ro p m = Inr (po, m2)"
      using True d desc(3) [of l] 2 subpage_init_slot [OF k, of base "dev_desc l" "region_offset p"]
      by (simp add: register_assigned_def assms(3) Let_def i(1) [symmetric] base_def [symmetric] sp0_def [symmetric] put_subpage_def
          m2_def dev_slot_def)
    moreover have "maps_part i st en (dev_desc d) ro m m2" unfolding m2_def
    proof (rule share_page [OF assms(1) i(2) k'(2,3) _ d(1) assms(4,5)])
      show "io_dest (sub_io_index sp0 (unat b)) (ucast b + ucast (sub_region_offset sp0 (unat b))) = page_byte m i b" if "b < 1024" for b
        using that at page_dest_dev [OF 2(1)] i(2) desc(3) [of l] 2 by (simp add: word_less_nat_alt page_byte_def dev_slot_def)
    qed (use k'(1) at 2 in auto)
    ultimately show ?thesis using result d(2) by auto
  next
    case 3
    then have l: "6 \<le> l" "l < 128" "phys_offset p = sub_desc l" by (simp_all add: sub_slot_def)
    define m2 where "m2 = set_page i (\<lambda>p. p\<lparr>phys_offset := sub_desc l, region_offset := 0\<rparr>)
      (m\<lparr>io_mem := (io_mem m)(l := io_subpage (subpage_register st en (dev_desc d) ro sp))\<rparr>)"
    have "register_assigned addr start sz po ro p m = Inr (po, m2)"
      using True d desc [OF l(2)] l(3) 3(2)
      by (simp add: register_assigned_def assms(3) Let_def i(1) [symmetric] put_subpage_def m2_def)
    moreover have "maps_part i st en (dev_desc d) ro m m2" unfolding m2_def
      by (rule share_page [OF assms(1) i(2) l(1,2) _ d(1) assms(4,5)])
        (use 3 phys_okD(3) [OF assms(1) 3(2)] page_byte_sub [OF i(2) 3] in auto)
    ultimately show ?thesis using result d(2) by auto
  qed
qed

lemma register_page_maps:
  assumes "phys_ok m" "desc_ok m po" "CHECK_SUBPAGE addr start sz = (st, en, need)" "st \<le> en" "en < 1024"
    and "need \<longleftrightarrow> st \<noteq> 0 \<or> en \<noteq> 1023" "i = unat (drop_bit TARGET_PAGE_BITS addr)"
    and part: "need \<Longrightarrow> \<not> mem_desc po \<and> no_mem i m \<and> slot_left i m"
    and whole: "need \<or> mem_desc po \<or> po = IO_MEM_UNASSIGNED \<or> page_free i m"
  shows "\<exists>m'. register_page addr start sz po ro m = Inr (next_offset po, m') \<and> maps_part i st en po ro m m'"
proof (cases "page_free i m")
  case True
  have "\<not> sub_slot m p k" if "phys_page_find i m = Some p" for p k
    using that True desc(9) [of k] by (auto simp: page_free_def sub_slot_def)
  then have "need \<Longrightarrow> get_free_io_mem_idx m \<noteq> None" using part by (auto simp: slot_left_def)
  then have "\<exists>m'. register_unassigned addr start sz po ro m = Inr (next_offset po, m') \<and> maps_part i st en po ro m m'"
    using part by (intro register_unassigned_maps [OF assms(1-6) _ assms(7) True]) auto
  then show ?thesis using True by (auto simp: register_page_def assms(7) [symmetric] page_free_def split: option.splits)
next
  case False
  then obtain p where p: "phys_page_find i m = Some p" "phys_offset p \<noteq> IO_MEM_UNASSIGNED" by (auto simp: page_free_def)
  have "\<exists>m'. register_assigned addr start sz po ro p m = Inr (next_offset po, m') \<and> maps_part i st en po ro m m'"
    using part whole False p(1) by (intro register_assigned_maps [OF assms(1-6) _ assms(7) p(1)]) (auto simp: no_mem_def)
  then show ?thesis using p by (simp add: register_page_def assms(7) [symmetric])
qed

text \<open>What a round leaves alone.\<close>

definition page_kept :: "nat \<Rightarrow> 'w phys_map \<Rightarrow> 'w phys_map \<Rightarrow> bool" where
  "page_kept j m m' \<longleftrightarrow> phys_page_find j m' = phys_page_find j m \<or>
     phys_page_find j m = None \<and> (\<exists>p. phys_page_find j m' = Some p \<and> phys_offset p = IO_MEM_UNASSIGNED)"

lemma subpage_init_find: "subpage_init base mem ro m = (d, slot, sp, m') \<Longrightarrow> phys_page_find j m' = phys_page_find j m"
  by (auto simp: subpage_init_def register_io_memory_def Let_def split: option.splits)

lemma put_subpage_find [simp]: "phys_page_find j (put_subpage slot sp m) = phys_page_find j m"
  by (auto simp: put_subpage_def split: option.splits)

lemma register_page_frame:
  assumes "register_page addr start sz po ro m = Inr (po', m')" "j \<noteq> unat (drop_bit TARGET_PAGE_BITS addr)"
  shows "page_kept j m m'"
  using assms unfolding register_page_def register_assigned_def register_unassigned_def Let_def
  by (auto simp: page_kept_def find_set_page find_alloc new_block_def subpage_init_find
      split: option.splits if_splits prod.splits io_slot.splits)

lemma register_page_io:
  assumes "register_page addr start sz po ro m = Inr (po', m')" "CHECK_SUBPAGE addr start sz = (st, en, False)"
  shows "io_mem m' = io_mem m"
  using assms unfolding register_page_def register_assigned_def register_unassigned_def Let_def
  by (auto split: option.splits if_splits)

lemma page_kept_free:
  assumes "page_kept j m m'"
  shows "page_free j m \<Longrightarrow> page_free j m'" "no_mem j m \<Longrightarrow> no_mem j m'"
  using assms by (auto simp: page_kept_def page_free_def no_mem_def mem_desc_def unassigned_desc(2))

section \<open>The whole range\<close>

lemma unat_page [simp]: "unat (drop_bit TARGET_PAGE_BITS (a :: phys_addr)) = unat a div 1024"
  by (simp add: TARGET_PAGE_BITS_def drop_bit_eq_div unat_div_distrib)

lemma page_size [simp]: "word_of_nat TARGET_PAGE_SIZE = (1024 :: u64)" "word_of_nat TARGET_PAGE_SIZE = (1024 :: phys_addr)"
  by (simp_all add: TARGET_PAGE_SIZE_def TARGET_PAGE_BITS_def)

lemma unat_ucast_addr [simp]: "unat (ucast (a :: phys_addr) :: u64) = unat a"
proof -
  have "unat a < 2 ^ 32" using unsigned_less [of a] by simp
  then show ?thesis by (simp add: unsigned_ucast_eq take_bit_eq_mod)
qed

lemma check_subpage_eq:
  assumes "unat start + unat sz \<le> 2 ^ 32" "unat start \<le> unat addr" "unat addr < unat start + unat sz"
  shows "CHECK_SUBPAGE addr start sz =
    (let st = if unat addr > unat start then 0 else unat start mod 1024;
         whole = (1024 \<le> unat start + unat sz - unat addr);
         en = if whole then 1023 else (unat start + unat sz - 1) mod 1024
     in (st, en, st \<noteq> 0 \<or> \<not> whole \<and> en < 1023))"
proof -
  let ?s = "ucast start :: u64"
  have sum: "unat (?s + sz) = unat start + unat sz" using assms(1) by (simp add: unat_word_ariths)
  have le: "ucast addr \<le> ?s + sz" using sum assms(3) by (simp add: word_le_nat_alt)
  have d: "unat (?s + sz - ucast addr) = unat start + unat sz - unat addr" using unat_sub [OF le] sum by simp
  have o: "unat (?s + sz - 1) = unat start + unat sz - 1"
    using unat_sub [of 1 "?s + sz"] sum assms(3) by (simp add: word_le_nat_alt)
  show ?thesis
    unfolding CHECK_SUBPAGE_def Let_def page_size
    by (simp add: word_le_nat_alt word_less_nat_alt d o unat_in_page)
qed

text \<open>
  The descriptor and the region offset of page \<open>j\<close> of a range, counted from its first page.
\<close>

definition desc_at :: "u64 \<Rightarrow> nat \<Rightarrow> u64" where
  "desc_at po j = (if is_ram_or_rom po then po + word_of_nat (1024 * j) else po)"

definition offset_at :: "u64 \<Rightarrow> nat \<Rightarrow> u64" where
  "offset_at ro j = ro + word_of_nat (1024 * j)"

lemma low_bits_page: "in_page (po + 1024) = in_page po" "bit (po + 1024) 0 = bit po 0" "bit (po + 1024) (Suc 0) = bit po (Suc 0)"
proof -
  show p: "in_page (po + 1024) = in_page po"
    by (simp add: word_unat_eq_iff unat_in_page unat_word_ariths mod_mod_cancel)
  have "bit (po + 1024) n = bit po n" if "n < 10" for n
    using p that by (metis bit_take_bit_iff in_page_take_bit)
  then show "bit (po + 1024) 0 = bit po 0" "bit (po + 1024) (Suc 0) = bit po (Suc 0)" by simp_all
qed

lemma next_offset_at:
  "is_ram_or_rom (po + 1024) = is_ram_or_rom po" "mem_desc (next_offset po) = mem_desc po"
  "next_offset po = desc_at po 1" "desc_at (next_offset po) j = desc_at po (Suc j)"
  "offset_at (ro + 1024) j = offset_at ro (Suc j)"
proof -
  show r: "is_ram_or_rom (po + 1024) = is_ram_or_rom po"
    by (simp add: is_ram_or_rom_def low_bits_page subpage_bit)
  then show "mem_desc (next_offset po) = mem_desc po"
    by (simp add: mem_desc_def next_offset_def subpage_bit low_bits_page)
  show "next_offset po = desc_at po 1" "desc_at (next_offset po) j = desc_at po (Suc j)" "offset_at (ro + 1024) j = offset_at ro (Suc j)"
    using r by (simp_all add: next_offset_def desc_at_def offset_at_def)
qed

text \<open>
  A range that may be registered at this map: memory comes in whole pages; a device is put
  on pages that are free; the last page, if only a part of it belongs to the range, holds no
  memory and there is a slot to share it.
\<close>

definition may_register :: "nat \<Rightarrow> nat \<Rightarrow> nat \<Rightarrow> nat \<Rightarrow> u64 \<Rightarrow> 'w phys_map \<Rightarrow> bool" where
  "may_register S Z first n po m \<longleftrightarrow> phys_ok m \<and> desc_ok m po \<and>
     (mem_desc po \<or> po = IO_MEM_UNASSIGNED \<or> (\<forall>j. first \<le> j \<longrightarrow> j < first + n \<longrightarrow>
        S \<le> 1024 * j \<longrightarrow> 1024 * Suc j \<le> S + Z \<longrightarrow> page_free j m)) \<and>
     (\<forall>j. first \<le> j \<longrightarrow> j < first + n \<longrightarrow> (1024 * j < S \<or> S + Z < 1024 * Suc j) \<longrightarrow>
        \<not> mem_desc po \<and> no_mem j m \<and> get_free_io_mem_idx m \<noteq> None)"

lemma may_register_step:
  assumes "may_register S Z first (Suc n) po m" "register_page addr start sz po ro m = Inr (next_offset po, m')"
    and "maps_part first st en po ro m m'" "unat addr div 1024 = first" "CHECK_SUBPAGE addr start sz = (st, en, False)"
  shows "may_register S Z (Suc first) n (next_offset po) m'"
proof -
  have io: "io_mem m' = io_mem m" by (rule register_page_io [OF assms(2,5)])
  have kept: "page_kept j m m'" if "Suc first \<le> j" for j using register_page_frame [OF assms(2), of j] assms(4) that by simp
  have d: "desc_ok m po" using assms(1) by (simp add: may_register_def)
  then have po: "mem_desc po \<or> next_offset po = po" using next_offset_dev by (auto simp: desc_ok_def)
  have "desc_ok m' (next_offset po)"
    using d io next_offset_at(2) [of po] po next_offset_dev
    by (auto simp: desc_ok_def dev_slot_def is_device_def)
  moreover have "phys_ok m'" using assms(3) by (simp add: maps_part_def)
  moreover have "mem_desc (next_offset po) \<or> next_offset po = IO_MEM_UNASSIGNED \<or> (\<forall>j. Suc first \<le> j \<longrightarrow> j < Suc first + n \<longrightarrow>
        S \<le> 1024 * j \<longrightarrow> 1024 * Suc j \<le> S + Z \<longrightarrow> page_free j m')"
    using assms(1) po next_offset_at(2) [of po] page_kept_free(1) [OF kept] unfolding may_register_def by fastforce
  moreover have "\<not> mem_desc (next_offset po) \<and> no_mem j m' \<and> get_free_io_mem_idx m' \<noteq> None"
    if "Suc first \<le> j" "j < Suc first + n" "1024 * j < S \<or> S + Z < 1024 * Suc j" for j
  proof -
    have "first \<le> j" "j < first + Suc n" using that by auto
    then have "\<not> mem_desc po \<and> no_mem j m \<and> get_free_io_mem_idx m \<noteq> None"
      using assms(1) that(3) unfolding may_register_def by blast
    then show ?thesis using page_kept_free(2) [OF kept [OF that(1)]] next_offset_at(2) [of po] free_idx_cong [OF io] by simp
  qed
  ultimately show ?thesis unfolding may_register_def by blast
qed

definition in_range :: "nat \<Rightarrow> nat \<Rightarrow> nat \<Rightarrow> u64 \<Rightarrow> bool" where
  "in_range S Z j b \<longleftrightarrow> S \<le> 1024 * j + unat b \<and> 1024 * j + unat b < S + Z"

text \<open>The part of a page that belongs to a range.\<close>

lemma check_subpage_part:
  assumes "unat start + unat sz \<le> 2 ^ 32" "1024 dvd unat start \<or> unat start mod 1024 + unat sz \<le> 1024"
    and "unat addr = unat start + 1024 * r" "1024 * r < unat sz" "f = unat start div 1024 + r"
  obtains st en need where "CHECK_SUBPAGE addr start sz = (st, en, need)" "st \<le> en" "en < 1024" "need \<longleftrightarrow> st \<noteq> 0 \<or> en \<noteq> 1023"
    "need \<longleftrightarrow> 1024 * f < unat start \<or> unat start + unat sz < 1024 * Suc f"
    "\<forall>b :: u64. b < 1024 \<longrightarrow> (st \<le> unat b \<and> unat b \<le> en \<longleftrightarrow> in_range (unat start) (unat sz) f b)"
proof -
  define S Z where "S = unat start" and "Z = unat sz"
  obtain q t where q: "S = 1024 * q + t" "t < 1024" by (metis div_mult_mod_eq mod_less_divisor mult.commute zero_less_numeral)
  have f: "f = q + r" using assms(5) q by (simp add: S_def [symmetric])
  have al: "t = 0 \<or> r = 0 \<and> t + Z \<le> 1024"
    using assms(2,4) q by (auto simp: S_def [symmetric] Z_def [symmetric] dvd_eq_mod_eq_0)
  have c: "CHECK_SUBPAGE addr start sz =
    (let st = if 0 < r then 0 else t; whole = (1024 \<le> Z - 1024 * r); en = if whole then 1023 else (S + Z - 1) mod 1024
     in (st, en, st \<noteq> 0 \<or> \<not> whole \<and> en < 1023))"
    using check_subpage_eq [OF assms(1), of addr] assms(3,4) q by (simp add: S_def [symmetric] Z_def [symmetric] Let_def)
  define e where "e = (if 1024 \<le> Z - 1024 * r then 1023 else t + (Z - 1024 * r) - 1)"
  have e: "(if 1024 \<le> Z - 1024 * r then 1023 else (S + Z - 1) mod 1024) = e"
  proof (cases "1024 \<le> Z - 1024 * r")
    case False
    have "S + Z - 1 = (t + (Z - 1024 * r) - 1) + 1024 * (q + r)" "t + (Z - 1024 * r) - 1 < 1024"
      using q(1) assms(4) al False q(2) by (auto simp: Z_def [symmetric])
    then have "(S + Z - 1) mod 1024 = t + (Z - 1024 * r) - 1" by (metis mod_less mod_mult_self2)
    then show ?thesis using False by (simp add: e_def)
  qed (simp add: e_def)
  have st: "(if 0 < r then 0 else t) = t" using al by auto
  define need where "need \<longleftrightarrow> t \<noteq> 0 \<or> \<not> 1024 \<le> Z - 1024 * r \<and> e < 1023"
  have c': "CHECK_SUBPAGE addr start sz = (t, e, need)" unfolding c Let_def e st need_def ..
  have z: "1024 * r < Z" using assms(4) by (simp add: Z_def)
  show ?thesis
  proof (rule that [OF c'])
    show "t \<le> e" "e < 1024" "need \<longleftrightarrow> t \<noteq> 0 \<or> e \<noteq> 1023" using al z q(2) by (auto simp: e_def need_def)
    show "need \<longleftrightarrow> 1024 * f < unat start \<or> unat start + unat sz < 1024 * Suc f"
      unfolding S_def [symmetric] Z_def [symmetric] f q(1) need_def e_def using al z by auto
    show "\<forall>b :: u64. b < 1024 \<longrightarrow> (t \<le> unat b \<and> unat b \<le> e \<longleftrightarrow> in_range (unat start) (unat sz) f b)"
      using al z unfolding S_def [symmetric] Z_def [symmetric] in_range_def f q(1) e_def
      by (auto simp: word_less_nat_alt)
  qed
qed

text \<open>The effect of registering a range, from page \<open>first\<close> on.\<close>

definition maps_range :: "nat \<Rightarrow> nat \<Rightarrow> nat \<Rightarrow> u64 \<Rightarrow> u64 \<Rightarrow> 'w phys_map \<Rightarrow> 'w phys_map \<Rightarrow> bool" where
  "maps_range S Z first po ro m m' \<longleftrightarrow> phys_ok m' \<and>
     (\<forall>j b. b < 1024 \<longrightarrow> page_byte m' j b =
        (if first \<le> j \<and> in_range S Z j b then page_dest (desc_at po (j - first)) (offset_at ro (j - first)) b else page_byte m j b)) \<and>
     (\<forall>k. is_device m k \<longrightarrow> io_mem m' k = io_mem m k)"

lemma maps_part_range:
  assumes "maps_part first st en po ro m m'"
    and "\<forall>b :: u64. b < 1024 \<longrightarrow> (st \<le> unat b \<and> unat b \<le> en \<longleftrightarrow> in_range S Z first b)"
  shows "S + Z \<le> 1024 * Suc first \<Longrightarrow> maps_range S Z first po ro m m'"
    "maps_range S Z (Suc first) (next_offset po) (ro + 1024) m' m'' \<Longrightarrow> maps_range S Z first po ro m m''"
proof -
  have p: "phys_ok m'" "\<And>k. is_device m k \<Longrightarrow> io_mem m' k = io_mem m k"
    "\<And>j b. b < 1024 \<Longrightarrow> page_byte m' j b = (if j = first \<and> in_range S Z first b then page_dest po ro b else page_byte m j b)"
    using assms by (auto simp: maps_part_def)
  have at0: "desc_at po 0 = po" "offset_at ro 0 = ro" by (simp_all add: desc_at_def offset_at_def)
  show "maps_range S Z first po ro m m'" if "S + Z \<le> 1024 * Suc first"
  proof -
    have "first \<le> j \<and> in_range S Z j b \<longleftrightarrow> j = first \<and> in_range S Z first b" for j b
    proof -
      have "j \<le> first" if "1024 * j + unat b < S + Z" using that \<open>S + Z \<le> 1024 * Suc first\<close> by simp
      then show ?thesis by (auto simp: in_range_def)
    qed
    then show ?thesis using p at0 by (auto simp: maps_range_def)
  qed
  show "maps_range S Z first po ro m m''" if "maps_range S Z (Suc first) (next_offset po) (ro + 1024) m' m''"
  proof -
    have byte: "page_byte m'' j b =
        (if first \<le> j \<and> in_range S Z j b then page_dest (desc_at po (j - first)) (offset_at ro (j - first)) b else page_byte m j b)"
      if b: "b < 1024" for j b
    proof (cases "Suc first \<le> j")
      case True
      then have "j - first = Suc (j - Suc first)" by simp
      then show ?thesis using \<open>maps_range _ _ _ _ _ _ _\<close> p(3) [OF b, of j] b True by (simp add: maps_range_def next_offset_at(4,5))
    next
      case False
      then have "page_byte m'' j b = page_byte m' j b" using \<open>maps_range _ _ _ _ _ _ _\<close> b by (simp add: maps_range_def)
      then show ?thesis using p(3) [OF b, of j] False at0 by (cases "j = first") auto
    qed
    moreover have "io_mem m'' k = io_mem m k" if "is_device m k" for k
      using that p(2) \<open>maps_range _ _ _ _ _ _ _\<close> by (auto simp: maps_range_def is_device_def)
    ultimately show ?thesis using \<open>maps_range _ _ _ _ _ _ _\<close> unfolding maps_range_def by blast
  qed
qed

lemma register_page_step:
  assumes "unat start + unat sz \<le> 2 ^ 32" "1024 dvd unat start \<or> unat start mod 1024 + unat sz \<le> 1024"
    and "unat addr = unat start + 1024 * r" "1024 * r < unat sz" "f = unat start div 1024 + r"
    and "may_register (unat start) (unat sz) f (Suc k) po m"
  obtains m' st en need where "register_page addr start sz po ro m = Inr (next_offset po, m')" "maps_part f st en po ro m m'"
    "CHECK_SUBPAGE addr start sz = (st, en, need)" "need \<longleftrightarrow> 1024 * f < unat start \<or> unat start + unat sz < 1024 * Suc f"
    "\<forall>b :: u64. b < 1024 \<longrightarrow> (st \<le> unat b \<and> unat b \<le> en \<longleftrightarrow> in_range (unat start) (unat sz) f b)"
proof -
  obtain st en need where c: "CHECK_SUBPAGE addr start sz = (st, en, need)" "st \<le> en" "en < 1024" "need \<longleftrightarrow> st \<noteq> 0 \<or> en \<noteq> 1023"
    "need \<longleftrightarrow> 1024 * f < unat start \<or> unat start + unat sz < 1024 * Suc f"
    "\<forall>b :: u64. b < 1024 \<longrightarrow> (st \<le> unat b \<and> unat b \<le> en \<longleftrightarrow> in_range (unat start) (unat sz) f b)"
    by (rule check_subpage_part [OF assms(1-5)])
  have i: "f = unat (drop_bit TARGET_PAGE_BITS addr)" using assms(3,5) by simp
  have m: "phys_ok m" "desc_ok m po" using assms(6) by (simp_all add: may_register_def)
  have part: "\<not> mem_desc po \<and> no_mem f m \<and> slot_left f m" if need
  proof -
    have "1024 * f < unat start \<or> unat start + unat sz < 1024 * Suc f" using that c(5) by blast
    then have "\<not> mem_desc po \<and> no_mem f m \<and> get_free_io_mem_idx m \<noteq> None"
      using assms(6) unfolding may_register_def by (metis le_refl less_add_same_cancel1 zero_less_Suc)
    then show ?thesis by (simp add: slot_left_def)
  qed
  have whole: "need \<or> mem_desc po \<or> po = IO_MEM_UNASSIGNED \<or> page_free f m"
  proof (cases "need \<or> mem_desc po \<or> po = IO_MEM_UNASSIGNED")
    case False
    then have "unat start \<le> 1024 * f" "1024 * Suc f \<le> unat start + unat sz" using c(5) by auto
    then show ?thesis using False assms(6) unfolding may_register_def by (metis le_refl less_add_same_cancel1 zero_less_Suc)
  qed blast
  show thesis
    using register_page_maps [OF m c(1-4) i part whole, of ro] c(1,5,6) by (blast intro: that)
qed

lemma page_count: "Suc r = (Z + 1023) div 1024 \<Longrightarrow> 1024 * r < Z" "Suc r = (Z + 1023) div 1024 \<Longrightarrow> Z \<le> 1024 * Suc r" for Z :: nat
proof -
  have "(Z + 1023) div 1024 * 1024 + (Z + 1023) mod 1024 = Z + 1023" "(Z + 1023) mod 1024 < 1024" by simp_all
  then show "Suc r = (Z + 1023) div 1024 \<Longrightarrow> 1024 * r < Z" "Suc r = (Z + 1023) div 1024 \<Longrightarrow> Z \<le> 1024 * Suc r"
    by simp_all
qed

lemma register_loop_maps:
  assumes "unat start + unat sz \<le> 2 ^ 32" "1024 dvd unat start \<or> unat start mod 1024 + unat sz \<le> 1024"
    and "N = (unat sz + 1023) div 1024" "unat end_addr = (unat start + 1024 * N) mod 2 ^ 32"
  shows "may_register (unat start) (unat sz) first (Suc k) po m \<Longrightarrow> first = unat start div 1024 + r \<Longrightarrow>
    unat addr = unat start + 1024 * r \<Longrightarrow> r + Suc k = N \<Longrightarrow> Suc k \<le> n \<Longrightarrow>
    \<exists>m'. register_loop n addr end_addr start sz po ro m = Inr m' \<and> maps_range (unat start) (unat sz) first po ro m m' \<and>
      (1024 dvd unat start \<longrightarrow> 1024 dvd unat sz \<longrightarrow> io_mem m' = io_mem m)"
proof (induction k arbitrary: first r addr po ro m n)
  case (Suc k)
  have z: "1024 * Suc r < unat sz" using Suc.prems(4) assms(3) by (simp add: less_eq_div_iff_mult_less_eq [symmetric])
  then have r: "1024 * r < unat sz" by simp
  have al: "unat start = 1024 * (unat start div 1024)" using assms(2) z by auto
  obtain n' where n: "n = Suc n'" using Suc.prems(5) by (cases n) auto
  obtain m1 st en need where s: "register_page addr start sz po ro m = Inr (next_offset po, m1)" "maps_part first st en po ro m m1"
    "CHECK_SUBPAGE addr start sz = (st, en, need)" "need \<longleftrightarrow> 1024 * first < unat start \<or> unat start + unat sz < 1024 * Suc first"
    "\<forall>b :: u64. b < 1024 \<longrightarrow> (st \<le> unat b \<and> unat b \<le> en \<longleftrightarrow> in_range (unat start) (unat sz) first b)"
    by (rule register_page_step [OF assms(1,2) Suc.prems(3) r Suc.prems(2,1), of ro])
  have "\<not> need" using s(4) al z Suc.prems(2) by (auto simp: distrib_left)
  then have c: "CHECK_SUBPAGE addr start sz = (st, en, False)" using s(3) by simp
  have f: "unat addr div 1024 = first" using Suc.prems(2,3) by simp
  have next_addr: "unat (addr + 1024) = unat start + 1024 * Suc r"
    using Suc.prems(3) z assms(1) by (simp add: unat_word_ariths)
  have "unat (addr + 1024) \<noteq> unat end_addr"
  proof
    assume "unat (addr + 1024) = unat end_addr"
    then obtain q where "unat start + 1024 * N = unat start + 1024 * Suc r + 2 ^ 32 * q"
      using next_addr assms(4) mult_div_mod_eq [of "2 ^ 32" "unat start + 1024 * N"] by (metis add.commute)
    moreover have "1024 * N \<le> unat sz + 1023" using assms(3) by simp
    ultimately show False using assms(1) Suc.prems(4) by (cases q) auto
  qed
  then have ne: "addr + 1024 \<noteq> end_addr" by auto
  obtain m2 where m2: "register_loop n' (addr + 1024) end_addr start sz (next_offset po) (ro + 1024) m1 = Inr m2"
    "maps_range (unat start) (unat sz) (Suc first) (next_offset po) (ro + 1024) m1 m2"
    "1024 dvd unat start \<longrightarrow> 1024 dvd unat sz \<longrightarrow> io_mem m2 = io_mem m1"
    using Suc.IH [OF may_register_step [OF Suc.prems(1) s(1,2) f c] _ next_addr, of n' "ro + 1024"] Suc.prems n by auto
  have "register_loop n addr end_addr start sz po ro m = Inr m2" using s(1) ne m2(1) by (simp add: n bindE_def Let_def)
  moreover have "maps_range (unat start) (unat sz) first po ro m m2" by (rule maps_part_range(2) [OF s(2,5) m2(2)])
  ultimately show ?case using m2(3) register_page_io [OF s(1) c] by auto
next
  case 0
  have z: "1024 * r < unat sz" "unat sz \<le> 1024 * Suc r" using page_count [of r "unat sz"] 0(4) assms(3) by simp_all
  obtain n' where n: "n = Suc n'" using 0(5) by (cases n) auto
  obtain m1 st en need where s: "register_page addr start sz po ro m = Inr (next_offset po, m1)" "maps_part first st en po ro m m1"
    "CHECK_SUBPAGE addr start sz = (st, en, need)" "need \<longleftrightarrow> 1024 * first < unat start \<or> unat start + unat sz < 1024 * Suc first"
    "\<forall>b :: u64. b < 1024 \<longrightarrow> (st \<le> unat b \<and> unat b \<le> en \<longleftrightarrow> in_range (unat start) (unat sz) first b)"
    by (rule register_page_step [OF assms(1,2) 0(3) z(1) 0(2,1), of ro])
  have "unat addr + 1024 = unat start + 1024 * N" using 0(3,4) by simp
  then have "unat (addr + 1024) = unat end_addr" using assms(4) by (simp add: unat_word_ariths)
  then have e: "addr + 1024 = end_addr" by (simp add: word_unat_eq_iff)
  have "unat start + unat sz \<le> 1024 * Suc first"
  proof -
    have "unat start + unat sz = 1024 * (unat start div 1024) + (unat start mod 1024 + unat sz)" by simp
    also have "\<dots> \<le> 1024 * (unat start div 1024) + 1024 * Suc r"
      by (rule add_left_mono) (use assms(2) z in \<open>auto simp: dvd_eq_mod_eq_0\<close>)
    finally show ?thesis using 0(2) by (simp add: distrib_left)
  qed
  then have "maps_range (unat start) (unat sz) first po ro m m1" by (rule maps_part_range(1) [OF s(2,5)])
  moreover have "io_mem m1 = io_mem m" if "1024 dvd unat start" "1024 dvd unat sz"
  proof -
    obtain q p where "unat start = 1024 * q" "unat sz = 1024 * p" using \<open>1024 dvd unat start\<close> \<open>1024 dvd unat sz\<close> by (auto elim!: dvdE)
    then have "\<not> need" using s(4) z 0(2) by auto
    then show ?thesis using register_page_io [OF s(1)] s(3) by simp
  qed
  moreover have "register_loop n addr end_addr start sz po ro m = Inr m1" using s(1) e by (simp add: n bindE_def Let_def)
  ultimately show ?case by blast
qed

text \<open>
  Where an address of a range leads: for memory the offset in the range is added to the RAM
  address; a device sees the offset from the start of the range plus the region offset,
  both rounded down to a page, as the comment at \<open>cpu_register_physical_memory_log\<close> says.
\<close>

definition range_dest :: "phys_addr \<Rightarrow> u64 \<Rightarrow> u64 \<Rightarrow> phys_addr \<Rightarrow> phys_dest" where
  "range_dest start po ro a =
     (let off = a - (start AND ucast TARGET_PAGE_MASK)
      in if is_ram_or_rom po then Mem (in_page po) (page_of po + ucast off)
         else if po = IO_MEM_UNASSIGNED then Unassigned
         else Io (io_index po) (ucast (page_of ro) + off))"

lemma page_start: "unat (a AND ucast TARGET_PAGE_MASK) = 1024 * (unat a div 1024)" for a :: phys_addr
proof -
  have "a AND ucast TARGET_PAGE_MASK = push_bit 10 (drop_bit 10 a)"
    by (rule u32_eqI) (simp add: TARGET_PAGE_MASK_def bit_simps)
  moreover have "1024 * (unat a div 1024) < 2 ^ 32"
  proof (rule order_le_less_trans)
    show "1024 * (unat a div 1024) \<le> unat a" by simp
    show "unat a < 2 ^ 32" using unsigned_less [of a] by simp
  qed
  ultimately show ?thesis by (simp add: push_bit_eq_mult drop_bit_eq_div unat_word_ariths unat_div_distrib)
qed

lemma offset_in_range:
  fixes a start :: phys_addr
  assumes "unat start div 1024 \<le> unat a div 1024"
  shows "unat (a - (start AND ucast TARGET_PAGE_MASK)) =
    1024 * (unat a div 1024 - unat start div 1024) + unat (in_page (ucast a))"
proof -
  have "start AND ucast TARGET_PAGE_MASK \<le> a"
    unfolding word_le_nat_alt page_start using assms by (simp add: less_eq_div_iff_mult_less_eq mult.commute)
  then have "unat (a - (start AND ucast TARGET_PAGE_MASK)) = unat a - 1024 * (unat start div 1024)"
    by (simp add: unat_sub page_start)
  also have "unat a = 1024 * (unat a div 1024) + unat a mod 1024" by simp
  finally show ?thesis using assms by (simp add: unat_in_page diff_mult_distrib2)
qed

lemma page_of_diff: "page_of a = a - in_page a"
proof -
  have "a = page_of a + in_page a"
    unfolding page_of_def in_page_def by (subst disjunctive_add) (auto simp: bit_simps intro: bit_eqI)
  then show ?thesis by (metis add_diff_cancel_right')
qed

lemma unat_page_of: "unat (page_of a) = 1024 * (unat a div 1024)"
proof -
  have "in_page a \<le> a" by (simp add: word_le_nat_alt unat_in_page)
  then show ?thesis by (simp add: page_of_diff unat_sub unat_in_page minus_mod_eq_mult_div)
qed

lemma desc_at_bits:
  "in_page (desc_at po i) = in_page po" "is_ram_or_rom (desc_at po i) = is_ram_or_rom po"
  "page_of (desc_at po i) = (if is_ram_or_rom po then page_of po + word_of_nat (1024 * i) else page_of po)"
proof -
  have step: "desc_at po (Suc i) = desc_at po i \<or> desc_at po (Suc i) = desc_at po i + 1024" for i
    by (auto simp: desc_at_def algebra_simps)
  show p: "in_page (desc_at po i) = in_page po" for i
  proof (induction i)
    case (Suc i)
    then show ?case using step [of i] low_bits_page(1) [of "desc_at po i"] by auto
  qed (simp add: desc_at_def)
  show "is_ram_or_rom (desc_at po i) = is_ram_or_rom po"
  proof (induction i)
    case (Suc i)
    then show ?case using step [of i] next_offset_at(1) [of "desc_at po i"] by auto
  qed (simp add: desc_at_def)
  show "page_of (desc_at po i) = (if is_ram_or_rom po then page_of po + word_of_nat (1024 * i) else page_of po)"
    unfolding page_of_diff p by (simp add: desc_at_def)
qed

lemma ucast_nat: "ucast (word_of_nat n :: u64) = (word_of_nat n :: phys_addr)"
  by (simp add: word_unat_eq_iff unsigned_ucast_eq take_bit_eq_mod unat_of_nat mod_mod_cancel)

lemma range_dest_page:
  fixes a start :: phys_addr
  assumes "unat start div 1024 \<le> unat a div 1024" "desc_ok m po"
  shows "page_dest (desc_at po (unat a div 1024 - unat start div 1024)) (offset_at (page_of ro) (unat a div 1024 - unat start div 1024))
    (in_page (ucast a)) = range_dest start po ro a"
proof -
  let ?i = "unat a div 1024 - unat start div 1024" and ?o = "a - (start AND ucast TARGET_PAGE_MASK)"
  have o: "?o = word_of_nat (1024 * ?i) + ucast (in_page (ucast a))"
  proof -
    have "word_of_nat (unat ?o) = ?o" by simp
    then show ?thesis unfolding offset_in_range [OF assms(1)] by simp
  qed
  have u: "ucast ?o = (word_of_nat (1024 * ?i) + in_page (ucast a) :: u64)"
  proof -
    have "ucast ?o = (word_of_nat (unat ?o) :: u64)" by simp
    then show ?thesis unfolding offset_in_range [OF assms(1)] by simp
  qed
  show ?thesis
  proof (cases "is_ram_or_rom po")
    case True
    then show ?thesis by (simp add: page_dest_def desc_at_bits range_dest_def u Let_def add.assoc)
  next
    case False
    then obtain k where k: "dev_slot m k" "po = dev_desc k" using assms(2) by (auto simp: desc_ok_def mem_desc_def)
    have "ucast (in_page (ucast a) + offset_at (page_of ro) ?i) = ucast (page_of ro) + ?o"
      unfolding o offset_at_def ucast_add ucast_nat by (simp add: algebra_simps)
    then show ?thesis using False k desc(1) [of k] desc(8) [of k]
      by (simp add: page_dest_def desc_at_def range_dest_def Let_def io_dest_def dev_slot_def)
  qed
qed

lemma phys_resolve_range:
  assumes "maps_range (unat start) (unat sz) (unat start div 1024) po (page_of ro) m m'" "desc_ok m po"
  shows "phys_resolve m' a = (if unat start \<le> unat a \<and> unat a < unat start + unat sz then range_dest start po ro a else phys_resolve m a)"
proof -
  have "in_page (ucast a) < 1024" by (simp add: word_less_nat_alt unat_in_page)
  then have r: "phys_resolve m' a = (if unat start div 1024 \<le> unat a div 1024 \<and> in_range (unat start) (unat sz) (unat a div 1024) (in_page (ucast a))
      then page_dest (desc_at po (unat a div 1024 - unat start div 1024)) (offset_at (page_of ro) (unat a div 1024 - unat start div 1024))
        (in_page (ucast a)) else phys_resolve m a)"
    using assms(1) unfolding maps_range_def by (simp add: phys_resolve_def)
  have "in_range (unat start) (unat sz) (unat a div 1024) (in_page (ucast a)) \<longleftrightarrow> unat start \<le> unat a \<and> unat a < unat start + unat sz"
    by (simp add: in_range_def unat_in_page)
  moreover have "unat start \<le> unat a \<Longrightarrow> unat start div 1024 \<le> unat a div 1024" by (rule div_le_mono)
  ultimately show ?thesis unfolding r using range_dest_page [OF _ assms(2)] by auto
qed

lemma register_start:
  fixes start :: phys_addr
  assumes "sz \<noteq> 0" "unat start + unat sz \<le> 2 ^ 32"
  shows "unat (start + ucast (page_of (sz + word_of_nat TARGET_PAGE_SIZE - 1))) = (unat start + 1024 * ((unat sz + 1023) div 1024)) mod 2 ^ 32"
proof -
  let ?n = "unat sz + 1023"
  have "unat (sz + 1024 - 1) = ?n" using assms(2) by (simp add: unat_word_ariths)
  then have "unat (page_of (sz + 1024 - 1)) = 1024 * (?n div 1024)" unfolding unat_page_of by simp
  then show ?thesis unfolding page_size by (simp add: unat_word_ariths unsigned_ucast_eq take_bit_eq_mod mod_simps)
qed

lemma register_physical_memory_maps:
  assumes "sz \<noteq> 0" "unat start + unat sz \<le> 2 ^ 32" "1024 dvd unat start \<or> unat start mod 1024 + unat sz \<le> 1024"
    and "may_register (unat start) (unat sz) (unat start div 1024) ((unat sz + 1023) div 1024) po m" "2 ^ 22 \<le> n"
  shows "\<exists>m'. register_physical_memory n start sz po ro m = Inr m' \<and>
    maps_range (unat start) (unat sz) (unat start div 1024) po (page_of (if po = IO_MEM_UNASSIGNED then ucast start else ro)) m m' \<and>
    (1024 dvd unat start \<longrightarrow> 1024 dvd unat sz \<longrightarrow> io_mem m' = io_mem m)"
proof -
  have "unat sz \<noteq> 0" using assms(1) by (simp add: unat_eq_zero)
  then have "0 < (unat sz + 1023) div 1024" by (simp add: div_greater_zero_iff)
  then obtain k where k: "(unat sz + 1023) div 1024 = Suc k" by (cases "(unat sz + 1023) div 1024") auto
  have "unat sz \<le> 2 ^ 32" using assms(2) by simp
  then have "(unat sz + 1023) div 1024 \<le> (2 ^ 32 + 1023) div 1024" by (intro div_le_mono) simp
  then have n: "Suc k \<le> n" using k assms(5) by simp
  show ?thesis
    using register_loop_maps [OF assms(2,3) refl register_start [OF assms(1,2)], of "unat start div 1024" k po m 0 start n]
      assms(1,4) k n by (simp add: register_physical_memory_def Let_def)
qed

lemma register_resolves:
  assumes "sz \<noteq> 0" "unat start + unat sz \<le> 2 ^ 32" "1024 dvd unat start \<or> unat start mod 1024 + unat sz \<le> 1024"
    and "may_register (unat start) (unat sz) (unat start div 1024) ((unat sz + 1023) div 1024) po m" "2 ^ 22 \<le> n"
  obtains m' where "register_physical_memory n start sz po ro m = Inr m'" "phys_ok m'"
    "\<And>a. phys_resolve m' a = (if unat start \<le> unat a \<and> unat a < unat start + unat sz then range_dest start po ro a else phys_resolve m a)"
    "1024 dvd unat start \<Longrightarrow> 1024 dvd unat sz \<Longrightarrow> io_mem m' = io_mem m"
proof -
  let ?ro = "if po = IO_MEM_UNASSIGNED then ucast start else ro"
  obtain m' where m': "register_physical_memory n start sz po ro m = Inr m'"
    "maps_range (unat start) (unat sz) (unat start div 1024) po (page_of ?ro) m m'"
    "1024 dvd unat start \<longrightarrow> 1024 dvd unat sz \<longrightarrow> io_mem m' = io_mem m"
    using register_physical_memory_maps [OF assms] by blast
  have d: "desc_ok m po" using assms(4) by (simp add: may_register_def)
  have "range_dest start po ?ro a = range_dest start po ro a" for a by (simp add: range_dest_def Let_def unassigned_desc(2))
  then show thesis using m' phys_resolve_range [OF m'(2) d] by (intro that [of m']) (auto simp: maps_range_def)
qed

section \<open>Properties\<close>

lemma io_mem_init_ok: "phys_ok io_mem_init"
  by (simp add: phys_ok_def io_mem_init_def is_device_def phys_page_find_def)

text \<open>
  C5: \<open>cpu_register_physical_memory_log\<close> maps exactly the bytes of its range: with as many
  rounds as there are pages it returns, every address of the range leads to the memory
  (at its offset in RAM) or to the device (at the offset the comment of the function
  promises) that was registered, and every other address leads where it led before; the
  map stays well formed. The range starts at a page boundary or lies in a single page; it
  is memory in whole pages, unassigned, or a device whose whole pages are free and whose
  partial page holds no memory, while there is an I/O slot left to share it.
\<close>

theorem register_exact:
  assumes "sz \<noteq> 0" "unat start + unat sz \<le> 2 ^ 32" "1024 dvd unat start \<or> unat start mod 1024 + unat sz \<le> 1024"
    and "may_register (unat start) (unat sz) (unat start div 1024) ((unat sz + 1023) div 1024) po m" "2 ^ 22 \<le> n"
  shows "\<exists>m'. register_physical_memory n start sz po ro m = Inr m' \<and> phys_ok m' \<and>
    (\<forall>a. phys_resolve m' a = (if unat start \<le> unat a \<and> unat a < unat start + unat sz then range_dest start po ro a else phys_resolve m a))"
proof -
  show ?thesis by (rule register_resolves [OF assms, of ro]) blast
qed

definition one_device :: "unit phys_map" where
  "one_device = snd (register_io_memory (io_device unassigned_mem) io_mem_init)"

lemma one_device_ok:
  "phys_ok one_device" "desc_ok one_device (dev_desc 6)" "page_free i one_device" "get_free_io_mem_idx one_device \<noteq> None"
proof -
  have f: "get_free_io_mem_idx (io_mem_init :: unit phys_map) = Some 6"
    by (simp add: get_free_io_mem_idx_def IO_MEM_NB_ENTRIES_def TARGET_PAGE_BITS_def IO_MEM_SHIFT_def upt_conv_Cons io_mem_init_def)
  have io: "io_mem one_device k = (if k < 7 then io_device unassigned_mem else io_free)" for k
    by (simp add: one_device_def register_io_memory_def f) (simp add: io_mem_init_def)
  have find: "phys_page_find i one_device = None" for i
    by (simp add: one_device_def register_io_memory_def f) (simp add: phys_page_find_def io_mem_init_def)
  show "phys_ok one_device" by (simp add: phys_ok_def io find is_device_def)
  show "desc_ok one_device (dev_desc 6)" unfolding desc_ok_def dev_slot_def is_device_def io
    by (rule disjI2, rule exI [of _ 6]) simp
  show "page_free i one_device" by (simp add: page_free_def find)
  show "get_free_io_mem_idx one_device \<noteq> None"
    by (simp add: get_free_io_mem_idx_def IO_MEM_NB_ENTRIES_def TARGET_PAGE_BITS_def IO_MEM_SHIFT_def upt_conv_Cons io)
qed

text \<open>A device of 0x500 bytes at 0x40020000: one whole page and a shared one.\<close>

lemma register_exact_witness:
  "\<exists>m'. register_physical_memory (2 ^ 22) 0x40020000 0x500 (dev_desc 6) 0 one_device = Inr m' \<and> phys_ok m' \<and>
     phys_resolve m' 0x40020410 = Io 6 0x410 \<and> phys_resolve m' 0x40020500 = Unassigned"
proof -
  have r: "may_register (unat (0x40020000 :: u32)) (unat (0x500 :: u64)) (unat (0x40020000 :: u32) div 1024)
    ((unat (0x500 :: u64) + 1023) div 1024) (dev_desc 6) one_device"
    using one_device_ok by (auto simp: may_register_def no_mem_def page_free_def mem_desc_def unassigned_desc(2) desc)
  have "range_dest 0x40020000 (dev_desc 6) 0 0x40020410 = Io 6 0x410"
    by (simp add: range_dest_def desc Let_def page_of_def TARGET_PAGE_MASK_def)
  moreover have "phys_resolve one_device 0x40020500 = Unassigned"
    using one_device_ok(3) by (simp add: phys_resolve_def page_free_byte)
  ultimately show ?thesis using register_exact [OF _ _ _ r order_refl, of 0] by (simp add: dvd_eq_mod_eq_0; force)
qed

text \<open>
  A range that does not start at a page boundary and goes beyond its page: the size is
  rounded up without the offset in the page, so that the loop ends before the last page,
  which stays unassigned. The device sees the offset in the page, not in the range.
\<close>

lemma unaligned_range_loses_tail:
  "\<exists>m'. register_physical_memory 1 0x200 0x400 (dev_desc 6) 0 one_device = Inr m' \<and>
     phys_resolve m' 0x200 = Io 6 0x200 \<and> phys_resolve m' 0x500 = Unassigned"
proof -
  let ?po = "dev_desc 6"
  have c: "CHECK_SUBPAGE 0x200 0x200 0x400 = (512, 1023, True)" by (simp add: check_subpage_eq Let_def)
  have "\<exists>m'. register_page 0x200 0x200 0x400 ?po 0 one_device = Inr (next_offset ?po, m') \<and> maps_part 0 512 1023 ?po 0 one_device m'"
    using one_device_ok by (intro register_page_maps [OF one_device_ok(1,2) c])
      (simp_all add: mem_desc_def desc no_mem_def page_free_def slot_left_def unassigned_desc(2))
  then obtain m' where m': "register_page 0x200 0x200 0x400 ?po 0 one_device = Inr (next_offset ?po, m')"
    "maps_part 0 512 1023 ?po 0 one_device m'" by blast
  have "page_of 0 = 0" "page_of (0x400 + 1024 - 1) = 0x400" by (simp_all add: page_of_def TARGET_PAGE_MASK_def)
  then have r: "register_physical_memory 1 0x200 0x400 ?po 0 one_device = Inr m'"
    using m'(1) desc(8) [of 6] by (simp add: register_physical_memory_def Let_def bindE_def)
  have b: "page_byte m' j b = (if j = 0 \<and> 512 \<le> unat b \<and> unat b \<le> 1023 then page_dest ?po 0 b else page_byte one_device j b)"
    if "b < 1024" for j b using m'(2) that by (simp add: maps_part_def)
  have "phys_resolve m' 0x200 = Io 6 0x200"
    by (simp add: phys_resolve_def b in_page_def TARGET_PAGE_MASK_def page_dest_def io_dest_def desc)
  moreover have "phys_resolve m' 0x500 = Unassigned"
    using page_free_byte [OF one_device_ok(3)] by (simp add: phys_resolve_def b in_page_def TARGET_PAGE_MASK_def)
  ultimately show ?thesis using r by blast
qed

text \<open>
  A page that was shared keeps its region offset 0 when a device takes it over as a whole,
  even when all that shared it has been unassigned: the offset of the new range is lost.
\<close>

lemma shared_page_loses_offset:
  assumes "phys_page_find i m = Some p" "sub_slot m p k" "i = unat (drop_bit TARGET_PAGE_BITS addr)"
    and "CHECK_SUBPAGE addr start sz = (0, 1023, False)" "dev_slot m d" "2 < d"
  shows "\<exists>m'. register_page addr start sz (dev_desc d) ro m = Inr (dev_desc d, m') \<and> page_byte m' i b = Io d (ucast b)"
proof -
  have d: "\<not> is_ram_or_rom (dev_desc d)" "io_index (dev_desc d) = d" "dev_desc d AND IO_MEM_SUBPAGE = 0"
    using assms(5,6) desc [of d] by (simp_all add: dev_slot_def)
  have p: "phys_offset p \<noteq> IO_MEM_UNASSIGNED" "region_offset p = 0" using assms(2) desc(9) by (auto simp: sub_slot_def)
  let ?m = "set_page i (\<lambda>p. p\<lparr>phys_offset := dev_desc d\<rparr>) m"
  have "register_page addr start sz (dev_desc d) ro m = Inr (dev_desc d, ?m)"
    using assms p by (simp add: register_page_def register_assigned_def Let_def next_offset_dev [OF assms(5)])
  moreover have "page_byte ?m i b = Io d (ucast b)"
    using assms(1,6) p(2) d by (simp add: page_byte_def find_set_page page_dest_def io_dest_def)
  ultimately show ?thesis by blast
qed

end
