(* ===== verification/Phys_Topology.thy ===== *)
theory Phys_Topology
  imports Phys_Map
begin

text \<open>
  The composition of \<open>memory.c\<close> and \<open>exec.c\<close>: the calls that a topology update issues, run on
  the map of physical pages. For views whose ranges are made of whole pages the map then
  leads every address where the new flat view says.
\<close>

section \<open>Running the calls\<close>

definition apply_call :: "nat \<Rightarrow> phys_call \<Rightarrow> 'w phys_map \<Rightarrow> 'w phys_map res" where
  "apply_call n c m =
     (case c of
        cpu_register_physical_memory_log start sz po ro log \<Rightarrow> register_physical_memory n (ucast start) sz po ro m
      | _ \<Rightarrow> Inr m)"

text \<open>The call of \<open>as_memory_range_add\<close> for a region that has its backing.\<close>

definition range_po :: "mr_store \<Rightarrow> FlatRange \<Rightarrow> u64" where
  "range_po \<sigma> fr =
     (let po = ram_addr (\<sigma> (fr_mr fr));
          po = (if in_page po \<le> IO_MEM_ROM then po + ucast (offset_in_region fr) else po)
      in if fr_readonly fr then po OR IO_MEM_ROM else po)"

definition range_ro :: "mr_store \<Rightarrow> FlatRange \<Rightarrow> u64" where
  "range_ro \<sigma> fr = (if in_page (ram_addr (\<sigma> (fr_mr fr))) \<le> IO_MEM_ROM then 0 else ucast (offset_in_region fr))"

text \<open>Where the flat view wants an address to lead.\<close>

definition view_dest :: "mr_store \<Rightarrow> phys_target option \<Rightarrow> phys_dest" where
  "view_dest \<sigma> t =
     (case t of None \<Rightarrow> Unassigned
      | Some (m, off, rd, ro) \<Rightarrow>
          if in_page (ram_addr (\<sigma> m)) = 0 then Mem (if ro then IO_MEM_ROM else 0) (ram_addr (\<sigma> m) + ucast off)
          else Io (io_index (ram_addr (\<sigma> m))) off)"

section \<open>Ranges of whole pages\<close>

definition backed :: "'w phys_map \<Rightarrow> MemoryRegion \<Rightarrow> bool \<Rightarrow> bool" where
  "backed m mr ro \<longleftrightarrow> backend_registered mr \<and>
     (in_page (ram_addr mr) = 0 \<or> \<not> ro \<and> (\<exists>k. dev_slot m k \<and> 2 < k \<and> ram_addr mr = dev_desc k))"

definition fits :: "'w phys_map \<Rightarrow> mr_store \<Rightarrow> FlatRange \<Rightarrow> bool" where
  "fits m \<sigma> fr \<longleftrightarrow>
     0 \<le> ar_start (fr_addr fr) \<and> 0 < ar_size (fr_addr fr) \<and> addrrange_end (fr_addr fr) \<le> 2 ^ 32 \<and>
     1024 dvd ar_start (fr_addr fr) \<and> 1024 dvd ar_size (fr_addr fr) \<and> 1024 dvd uint (offset_in_region fr) \<and>
     uint (offset_in_region fr) + ar_size (fr_addr fr) \<le> 2 ^ 32 \<and>
     fr_readable fr \<and> backed m (\<sigma> (fr_mr fr)) (fr_readonly fr)"

text \<open>No page is shared and every address leads where the view says.\<close>

definition represents :: "mr_store \<Rightarrow> 'w phys_map \<Rightarrow> (int \<Rightarrow> phys_target option) \<Rightarrow> bool" where
  "represents \<sigma> m f \<longleftrightarrow> phys_ok m \<and> (\<forall>k sp. io_mem m k \<noteq> io_subpage sp) \<and>
     (\<forall>a. phys_resolve m a = view_dest \<sigma> (f (uint a)))"

lemma fits_cong: "io_mem m' = io_mem m \<Longrightarrow> fits m' \<sigma> fr = fits m \<sigma> fr"
  by (simp add: fits_def backed_def dev_slot_def is_device_def)

lemma range_words:
  assumes "fits m \<sigma> fr"
  obtains start :: phys_addr and sz :: u64 where
    "get64 (ar_start (fr_addr fr)) = Inr (ucast start)" "get64 (ar_size (fr_addr fr)) = Inr sz"
    "uint start = ar_start (fr_addr fr)" "uint sz = ar_size (fr_addr fr)" "sz \<noteq> 0"
    "unat start + unat sz \<le> 2 ^ 32" "1024 dvd unat start" "1024 dvd unat sz"
    "\<And>a :: phys_addr. unat start \<le> unat a \<and> unat a < unat start + unat sz \<longleftrightarrow> addrrange_contains (fr_addr fr) (uint a)"
proof -
  let ?s = "ar_start (fr_addr fr)" and ?z = "ar_size (fr_addr fr)"
  define start :: phys_addr where "start = word_of_int ?s"
  define sz :: u64 where "sz = word_of_int ?z"
  have r: "0 \<le> ?s" "0 < ?z" "?s + ?z \<le> 2 ^ 32" "1024 dvd ?s" "1024 dvd ?z"
    using assms by (auto simp: fits_def addrrange_end_def)
  have s: "uint start = ?s" using r by (simp add: start_def unsigned_of_int take_bit_int_eq_self)
  have z: "uint sz = ?z" using r by (simp add: sz_def unsigned_of_int take_bit_int_eq_self)
  have n: "int (unat start) = ?s" "int (unat sz) = ?z" using s z by simp_all
  have g: "get64 ?s = Inr (ucast start)"
    using r s by (simp add: get64_def) (metis ucast_eq)
  show thesis
  proof (rule that [of start sz])
    show "get64 ?s = Inr (ucast start)" by (rule g)
    show "get64 ?z = Inr sz" using r by (simp add: get64_def sz_def)
    show "sz \<noteq> 0" using z r by auto
    have "int (unat start + unat sz) \<le> int (2 ^ 32)" using n r by simp
    then show "unat start + unat sz \<le> 2 ^ 32" unfolding of_nat_le_iff .
    show "1024 dvd unat start" "1024 dvd unat sz" using n r by (metis int_dvd_int_iff of_nat_numeral)+
    show "unat start \<le> unat a \<and> unat a < unat start + unat sz \<longleftrightarrow> addrrange_contains (fr_addr fr) (uint a)" for a :: phys_addr
    proof -
      have "int (unat a) = uint a" by simp
      then show ?thesis using n unfolding addrrange_contains_def addrrange_end_def by linarith
    qed
  qed (use s z in auto)
qed

lemma whole_pages:
  assumes "1024 dvd S" "1024 dvd Z" "S div 1024 \<le> j" "j < S div 1024 + (Z + 1023) div 1024"
  shows "\<not> 1024 * j < S" "\<not> S + Z < 1024 * Suc j"
proof -
  obtain q p where "S = 1024 * q" "Z = 1024 * p" using assms(1,2) by (auto elim!: dvdE)
  then show "\<not> 1024 * j < S" "\<not> S + Z < 1024 * Suc j" using assms(3,4) by auto
qed

lemma page_addr: "j < 2 ^ 22 \<Longrightarrow> unat (word_of_nat (1024 * j) :: phys_addr) = 1024 * j"
  by (subst unat_of_nat) simp

text \<open>A page whose bytes are all unassigned is free when no page is shared.\<close>

lemma unassigned_page_free:
  assumes "phys_ok m" "\<forall>k sp. io_mem m k \<noteq> io_subpage sp" "j < 2 ^ 22"
    and "phys_resolve m (word_of_nat (1024 * j)) = Unassigned"
  shows "page_free j m"
  unfolding page_free_def
proof (intro allI impI)
  fix p
  assume p: "phys_page_find j m = Some p"
  have u: "unat (word_of_nat (1024 * j) :: phys_addr) = 1024 * j" by (rule page_addr [OF assms(3)])
  have "in_page (ucast (word_of_nat (1024 * j) :: phys_addr)) = 0"
    unfolding word_unat_eq_iff unat_in_page unat_ucast_addr u by simp
  then have b: "page_byte m j 0 = Unassigned" using assms(4) unfolding phys_resolve_def unat_page u by simp
  from assms(1) p show "phys_offset p = IO_MEM_UNASSIGNED"
  proof (cases rule: page_cases)
    case 1
    then show ?thesis using b p by (simp add: page_byte_def page_dest_def mem_desc_def)
  next
    case (2 k)
    then show ?thesis using b p desc [of k] by (auto simp: page_byte_def page_dest_def io_dest_def dev_slot_def split: if_splits)
  next
    case (3 k sp)
    then show ?thesis using assms(2) by blast
  qed
qed

lemma register_whole_pages:
  fixes m :: "'w phys_map"
  assumes "represents \<sigma> m f" "sz \<noteq> 0" "unat start + unat sz \<le> 2 ^ 32" "1024 dvd unat start" "1024 dvd unat sz" "2 ^ 22 \<le> n"
    and "desc_ok m po"
    and free: "mem_desc po \<or> po = IO_MEM_UNASSIGNED \<or>
      (\<forall>a :: phys_addr. unat start \<le> unat a \<longrightarrow> unat a < unat start + unat sz \<longrightarrow> f (uint a) = None)"
    and g: "\<And>a. view_dest \<sigma> (g (uint a)) = (if unat start \<le> unat a \<and> unat a < unat start + unat sz
      then range_dest start po ro a else view_dest \<sigma> (f (uint a)))"
  shows "\<exists>m'. register_physical_memory n start sz po ro m = Inr m' \<and> represents \<sigma> m' g \<and> io_mem m' = io_mem m"
proof -
  have m: "phys_ok m" "\<forall>k sp. io_mem m k \<noteq> io_subpage sp" "\<And>a. phys_resolve m a = view_dest \<sigma> (f (uint a))"
    using assms(1) by (auto simp: represents_def)
  have page: "page_free j m" if "\<not> mem_desc po" "po \<noteq> IO_MEM_UNASSIGNED" "unat start \<le> 1024 * j" "1024 * Suc j \<le> unat start + unat sz" for j
  proof (rule unassigned_page_free [OF m(1,2)])
    show j: "j < 2 ^ 22" using that(4) assms(3) by simp
    then have "unat (word_of_nat (1024 * j) :: phys_addr) = 1024 * j" by (rule page_addr)
    then have "f (uint (word_of_nat (1024 * j) :: phys_addr)) = None" using free that by auto
    then show "phys_resolve m (word_of_nat (1024 * j)) = Unassigned" by (simp only: m(3) view_dest_def option.case)
  qed
  have may: "may_register (unat start) (unat sz) (unat start div 1024) ((unat sz + 1023) div 1024) po m"
    unfolding may_register_def using m(1) assms(7) page whole_pages [OF assms(4,5)] by blast
  show ?thesis
  proof (rule register_resolves [OF assms(2,3) _ may assms(6), of ro])
    show "1024 dvd unat start \<or> unat start mod 1024 + unat sz \<le> 1024" using assms(4) by blast
    fix m'
    assume m': "register_physical_memory n start sz po ro m = Inr m'" "phys_ok m'"
      "\<And>a. phys_resolve m' a = (if unat start \<le> unat a \<and> unat a < unat start + unat sz then range_dest start po ro a else phys_resolve m a)"
      "1024 dvd unat start \<Longrightarrow> 1024 dvd unat sz \<Longrightarrow> io_mem m' = io_mem m"
    then have "represents \<sigma> m' g" using m assms(4,5) g by (simp add: represents_def)
    then show ?thesis using m' assms(4,5) by blast
  qed
qed

section \<open>The descriptor of a range\<close>

lemma in_page_0: "in_page x = 0 \<longleftrightarrow> unat x mod 1024 = 0"
  by (simp add: word_unat_eq_iff unat_in_page)

lemma rom_flag:
  assumes "in_page x = 0"
  shows "in_page (x OR IO_MEM_ROM) = IO_MEM_ROM" "page_of (x OR IO_MEM_ROM) = x" "page_of x = x"
proof -
  show x: "page_of x = x" using assms by (simp add: page_of_diff)
  show "in_page (x OR IO_MEM_ROM) = IO_MEM_ROM" using assms by (simp add: in_page_take_bit IO_MEM_ROM_def)
  have "page_of (x OR IO_MEM_ROM) = page_of x OR page_of IO_MEM_ROM" by (simp add: page_of_def bit.conj_disj_distrib2)
  then show "page_of (x OR IO_MEM_ROM) = x" using x by (simp add: page_of_def IO_MEM_ROM_def TARGET_PAGE_MASK_def)
qed

lemma flags_mem_desc: "in_page po = 0 \<or> in_page po = IO_MEM_ROM \<Longrightarrow> mem_desc po"
proof -
  assume p: "in_page po = 0 \<or> in_page po = IO_MEM_ROM"
  have "bit po (Suc 0) = bit (in_page po) (Suc 0)" by (simp add: in_page_take_bit bit_simps)
  also have "\<dots> = False" using p by (auto simp: IO_MEM_ROM_def)
  finally show ?thesis using p by (auto simp: mem_desc_def is_ram_or_rom_def subpage_bit)
qed

lemma ucast_back: "ucast (ucast a :: u64) = a" for a :: phys_addr
proof -
  have "unat a < 2 ^ 32" using unsigned_less [of a] by simp
  then show ?thesis by (simp add: word_unat_eq_iff unsigned_ucast_eq [of "ucast a :: u64"] take_bit_eq_mod)
qed

lemma range_desc:
  fixes start a :: phys_addr
  assumes "fits m \<sigma> fr" "uint start = ar_start (fr_addr fr)"
  shows "desc_ok m (range_po \<sigma> fr)"
    "addrrange_contains (fr_addr fr) (uint a) \<Longrightarrow>
       range_dest start (range_po \<sigma> fr) (range_ro \<sigma> fr) a = view_dest \<sigma> (Some (phys_part (fr_at fr (uint a))))"
proof -
  let ?r = "ram_addr (\<sigma> (fr_mr fr))" and ?o = "offset_in_region fr"
  have f: "1024 dvd uint start" "1024 dvd uint ?o" "backed m (\<sigma> (fr_mr fr)) (fr_readonly fr)"
    using assms by (auto simp: fits_def)
  have n: "unat w mod 1024 = 0" if "1024 dvd uint w" for w :: phys_addr
  proof -
    have "int 1024 dvd int (unat w)" using that by simp
    then show ?thesis unfolding int_dvd_int_iff by (simp add: dvd_eq_mod_eq_0)
  qed
  note n = n [OF f(1)] n [OF f(2)]
  have st: "start AND ucast TARGET_PAGE_MASK = start"
    unfolding word_unat_eq_iff page_start using n(1) by (metis add.right_neutral mult_div_mod_eq)
  have off: "word_of_int (ar_start (fr_addr fr)) = start" unfolding assms(2) [symmetric] by simp
  have o0: "in_page (ucast ?o) = 0" using n(2) by (simp add: in_page_0)
  have sum: "ucast (?o + (a - start)) = (ucast ?o + ucast (a - start) :: u64)" if "addrrange_contains (fr_addr fr) (uint a)"
  proof -
    have "start \<le> a" "uint a - uint start < ar_size (fr_addr fr)"
      using that assms(2) by (simp_all add: addrrange_contains_def addrrange_end_def word_le_def)
    then have "uint ?o + uint (a - start) < 2 ^ 32" using assms(1) uint_sub_lem [of start a] by (simp add: fits_def word_le_def)
    then have "unat ?o + unat (a - start) < 2 ^ 32" by (simp flip: of_nat_less_iff [where 'a = int])
    then show ?thesis by (simp add: word_unat_eq_iff unat_word_ariths)
  qed
  have dev: "desc_ok m (range_po \<sigma> fr) \<and> (addrrange_contains (fr_addr fr) (uint a) \<longrightarrow>
       range_dest start (range_po \<sigma> fr) (range_ro \<sigma> fr) a = view_dest \<sigma> (Some (phys_part (fr_at fr (uint a)))))"
    if k: "dev_slot m k" "2 < k" "?r = dev_desc k" "\<not> fr_readonly fr" for k
  proof -
    have nr: "\<not> is_ram_or_rom ?r" using k desc(6) [of k] by (simp add: dev_slot_def)
    then have po: "range_po \<sigma> fr = dev_desc k" "range_ro \<sigma> fr = ucast ?o"
      using k(3,4) by (auto simp: range_po_def range_ro_def is_ram_or_rom_def Let_def)
    have "in_page ?r \<noteq> 0" using k desc(10) [of k] by (simp add: dev_slot_def)
    then have "view_dest \<sigma> (Some (phys_part (fr_at fr (uint a)))) = Io k (?o + (a - start))"
      using k desc(1) [of k] by (simp add: view_dest_def phys_part_def fr_at_def off dev_slot_def)
    moreover have "range_dest start (dev_desc k) (ucast ?o) a = Io k (?o + (a - start))"
      using k desc [of k] rom_flag(3) [OF o0] by (simp add: range_dest_def st dev_slot_def Let_def ucast_back)
    ultimately show ?thesis using po k(1) by (auto simp: desc_ok_def)
  qed
  have ram: "desc_ok m (range_po \<sigma> fr) \<and> (addrrange_contains (fr_addr fr) (uint a) \<longrightarrow>
       range_dest start (range_po \<sigma> fr) (range_ro \<sigma> fr) a = view_dest \<sigma> (Some (phys_part (fr_at fr (uint a)))))"
    if r: "in_page ?r = 0"
  proof -
    let ?x = "?r + ucast ?o"
    have x: "in_page ?x = 0" 
    proof -
      have "1024 dvd unat ?r" "1024 dvd unat ?o" using r n(2) by (simp_all add: in_page_0 dvd_eq_mod_eq_0)
      then have "1024 dvd (unat ?r + unat ?o) mod 2 ^ 64" by (intro dvd_mod) simp_all
      then show ?thesis unfolding in_page_0 by (simp add: unat_word_ariths dvd_eq_mod_eq_0)
    qed
    have po: "range_po \<sigma> fr = (if fr_readonly fr then ?x OR IO_MEM_ROM else ?x)" using r by (simp add: range_po_def Let_def)
    have d: "in_page (range_po \<sigma> fr) = (if fr_readonly fr then IO_MEM_ROM else 0)" "page_of (range_po \<sigma> fr) = ?x"
      using rom_flag [OF x] x by (simp_all add: po)
    then have mem: "mem_desc (range_po \<sigma> fr)" by (intro flags_mem_desc) (auto split: if_splits)
    then have "range_dest start (range_po \<sigma> fr) ro a = Mem (if fr_readonly fr then IO_MEM_ROM else 0) (?x + ucast (a - start))" for ro
      by (simp add: range_dest_def d st mem_desc_def Let_def)
    then show ?thesis using mem r sum
      by (auto simp: desc_ok_def view_dest_def phys_part_def fr_at_def off add.assoc)
  qed
  show "desc_ok m (range_po \<sigma> fr)" "addrrange_contains (fr_addr fr) (uint a) \<Longrightarrow>
       range_dest start (range_po \<sigma> fr) (range_ro \<sigma> fr) a = view_dest \<sigma> (Some (phys_part (fr_at fr (uint a))))"
    using f(3) dev ram unfolding backed_def by blast+
qed

section \<open>One call\<close>

fun event_ok :: "'w phys_map \<Rightarrow> mr_store \<Rightarrow> (int \<Rightarrow> phys_target option) \<Rightarrow> as_event \<Rightarrow> bool" where
  "event_ok m \<sigma> f (range_add fr) \<longleftrightarrow> fits m \<sigma> fr \<and> (\<forall>x. addrrange_contains (fr_addr fr) x \<longrightarrow> f x = None)"
| "event_ok m \<sigma> f (range_del fr) \<longleftrightarrow> fits m \<sigma> fr"
| "event_ok m \<sigma> f e \<longleftrightarrow> True"

text \<open>A step of \<open>memory.c\<close> and of the page map: the calls it adds keep the map in step with the view.\<close>

definition tracks :: "nat \<Rightarrow> mem_state \<Rightarrow> mem_state \<Rightarrow> 'w phys_map \<Rightarrow> (int \<Rightarrow> phys_target option) \<Rightarrow> bool" where
  "tracks n s t m g \<longleftrightarrow> regions t = regions s \<and>
     (\<exists>calls m'. phys_calls t = phys_calls s @ calls \<and> foldE (apply_call n) calls m = Inr m' \<and>
        represents (regions s) m' g \<and> io_mem m' = io_mem m)"

lemma range_add_call:
  assumes "fits m (regions s) fr" "get64 (ar_start (fr_addr fr)) = Inr start" "get64 (ar_size (fr_addr fr)) = Inr sz"
  shows "as_memory_range_add env fr s = Inr (emit (cpu_register_physical_memory_log start sz
    (range_po (regions s) fr) (range_ro (regions s) fr) (fr_dirty_log_mask fr)) s)"
proof -
  have "backend_registered (regions s (fr_mr fr))" "fr_readable fr" using assms(1) by (simp_all add: fits_def backed_def)
  then show ?thesis using assms(2,3)
    by (simp add: as_memory_range_add_def memory_region_prepare_ram_addr_def range_po_def range_ro_def in_page_def [symmetric] Let_def
        del: get64_Inr)
qed

lemma tracks_add:
  assumes "represents (regions s) m f" "event_ok m (regions s) f (range_add fr)" "2 ^ 22 \<le> n"
    and "as_memory_range_add env fr s = Inr t"
  shows "tracks n s t m (apply_event (range_add fr) f)"
proof -
  have fr: "fits m (regions s) fr" "\<And>x. addrrange_contains (fr_addr fr) x \<Longrightarrow> f x = None" using assms(2) by auto
  obtain start :: phys_addr and sz :: u64 where w:
    "get64 (ar_start (fr_addr fr)) = Inr (ucast start)" "get64 (ar_size (fr_addr fr)) = Inr sz"
    "uint start = ar_start (fr_addr fr)" "uint sz = ar_size (fr_addr fr)" "sz \<noteq> 0"
    "unat start + unat sz \<le> 2 ^ 32" "1024 dvd unat start" "1024 dvd unat sz"
    "\<And>a :: phys_addr. unat start \<le> unat a \<and> unat a < unat start + unat sz \<longleftrightarrow> addrrange_contains (fr_addr fr) (uint a)"
    by (rule range_words [OF fr(1)]) blast
  let ?c = "cpu_register_physical_memory_log (ucast start) sz (range_po (regions s) fr) (range_ro (regions s) fr) (fr_dirty_log_mask fr)"
  have t: "t = emit ?c s" using assms(4) range_add_call [OF fr(1) w(1,2)] by simp
  have "\<exists>m'. register_physical_memory n start sz (range_po (regions s) fr) (range_ro (regions s) fr) m = Inr m' \<and>
      represents (regions s) m' (apply_event (range_add fr) f) \<and> io_mem m' = io_mem m"
    using fr(2) w(9) range_desc [OF fr(1) w(3)]
    by (intro register_whole_pages [OF assms(1) w(5-8) assms(3)]) auto
  then show ?thesis by (auto simp: tracks_def t emit_def apply_call_def ucast_back bindE_def intro!: exI [of _ "[?c]"])
qed

lemma range_del_calls:
  assumes "as_memory_range_del fr s = Inr t" "get64 (ar_start (fr_addr fr)) = Inr start" "get64 (ar_size (fr_addr fr)) = Inr sz"
  shows "\<exists>cs. phys_calls t = phys_calls s @ cs @ [cpu_register_physical_memory_log start sz IO_MEM_UNASSIGNED 0 0] \<and>
    regions t = regions s \<and> (\<forall>m :: 'w phys_map. foldE (apply_call n) cs m = Inr m)"
proof (cases "fr_dirty_log_mask fr = 0")
  case True
  then show ?thesis using assms by (auto simp: as_memory_range_del_def emit_def bindE_def)
next
  case False
  then show ?thesis using assms
    by (auto simp: as_memory_range_del_def emit_def apply_call_def bindE_def split: sum.splits)
qed

lemma tracks_del:
  fixes m :: "'w phys_map"
  assumes "represents (regions s) m f" "fits m (regions s) fr" "2 ^ 22 \<le> n" "as_memory_range_del fr s = Inr t"
  shows "tracks n s t m (apply_event (range_del fr) f)"
proof -
  obtain start :: phys_addr and sz :: u64 where w:
    "get64 (ar_start (fr_addr fr)) = Inr (ucast start)" "get64 (ar_size (fr_addr fr)) = Inr sz"
    "uint start = ar_start (fr_addr fr)" "uint sz = ar_size (fr_addr fr)" "sz \<noteq> 0"
    "unat start + unat sz \<le> 2 ^ 32" "1024 dvd unat start" "1024 dvd unat sz"
    "\<And>a :: phys_addr. unat start \<le> unat a \<and> unat a < unat start + unat sz \<longleftrightarrow> addrrange_contains (fr_addr fr) (uint a)"
    by (rule range_words [OF assms(2)]) blast
  let ?c = "cpu_register_physical_memory_log (ucast start) sz IO_MEM_UNASSIGNED 0 0"
  obtain cs where t: "phys_calls t = phys_calls s @ cs @ [?c]" "regions t = regions s"
    and cs: "foldE (apply_call n) cs m = Inr m" for m :: "'w phys_map"
    using range_del_calls [OF assms(4) w(1,2), of n] by blast
  have "phys_ok m" using assms(1) by (simp add: represents_def)
  then have "desc_ok m IO_MEM_UNASSIGNED"
    using phys_okD(1) [of m 2] unassigned_desc(1) by (auto simp: desc_ok_def dev_slot_def)
  then have "\<exists>m'. register_physical_memory n start sz IO_MEM_UNASSIGNED 0 m = Inr m' \<and>
      represents (regions s) m' (apply_event (range_del fr) f) \<and> io_mem m' = io_mem m"
    using w(9) by (intro register_whole_pages [OF assms(1) w(5-8) assms(3)]) (auto simp: range_dest_def unassigned_desc(2) view_dest_def)
  then obtain m' where "register_physical_memory n start sz IO_MEM_UNASSIGNED 0 m = Inr m'"
      "represents (regions s) m' (apply_event (range_del fr) f)" "io_mem m' = io_mem m" by blast
  moreover have "foldE (apply_call n) (cs @ [?c]) m = register_physical_memory n start sz IO_MEM_UNASSIGNED 0 m"
    using cs by (simp add: foldE_append apply_call_def ucast_back)
  ultimately show ?thesis using t unfolding tracks_def by auto
qed

lemma tracks_event:
  assumes "represents (regions s) m f" "event_ok m (regions s) f e" "2 ^ 22 \<le> n" "as_ops env address_space_memory e s = Inr t"
  shows "tracks n s t m (apply_event e f)"
proof -
  consider fr where "e = range_add fr" | fr where "e = range_del fr" | "\<forall>fr. e \<noteq> range_add fr \<and> e \<noteq> range_del fr" by blast
  then show ?thesis
  proof cases
    case 1
    show ?thesis unfolding 1 by (rule tracks_add [OF assms(1) _ assms(3)]) (use assms(2,4) 1 in simp_all)
  next
    case 2
    show ?thesis unfolding 2 by (rule tracks_del [OF assms(1) _ assms(3)]) (use assms(2,4) 2 in simp_all)
  next
    case False: 3
    have ext: "apply_event e f = f" using False by (cases e) auto
    have "regions t = regions s \<and> (\<exists>calls. phys_calls t = phys_calls s @ calls \<and> foldE (apply_call n) calls m = Inr m)"
      using False assms(4) by (cases e) (auto simp: as_ops_defs emit_def apply_call_def split: if_splits)
    then show ?thesis using assms(1) by (auto simp: tracks_def ext)
  qed
qed

section \<open>The passes\<close>

fun events_ok :: "'w phys_map \<Rightarrow> mr_store \<Rightarrow> (int \<Rightarrow> phys_target option) \<Rightarrow> as_event list \<Rightarrow> bool" where
  "events_ok m \<sigma> f [] \<longleftrightarrow> True"
| "events_ok m \<sigma> f (e # es) \<longleftrightarrow> event_ok m \<sigma> f e \<and> events_ok m \<sigma> (apply_event e f) es"

lemma events_ok_cong:
  assumes "io_mem m' = io_mem m"
  shows "events_ok m' \<sigma> f es = events_ok m \<sigma> f es"
proof -
  have "event_ok m' \<sigma> f e = event_ok m \<sigma> f e" for f e by (cases e) (simp_all add: fits_cong [OF assms])
  then show ?thesis by (induction es arbitrary: f) simp_all
qed

lemma tracks_trans:
  assumes "tracks n s u m f" "\<And>m'. represents (regions u) m' f \<Longrightarrow> io_mem m' = io_mem m \<Longrightarrow> tracks n u t m' g"
  shows "tracks n s t m g"
proof -
  obtain cs m' where c: "regions u = regions s" "phys_calls u = phys_calls s @ cs" "foldE (apply_call n) cs m = Inr m'"
    "represents (regions s) m' f" "io_mem m' = io_mem m" using assms(1) unfolding tracks_def by blast
  then have "tracks n u t m' g" using assms(2) by simp
  then obtain ds m'' where "regions t = regions u" "phys_calls t = phys_calls u @ ds" "foldE (apply_call n) ds m' = Inr m''"
    "represents (regions u) m'' g" "io_mem m'' = io_mem m'" unfolding tracks_def by blast
  then show ?thesis using c unfolding tracks_def by (intro conjI exI [of _ "cs @ ds"] exI [of _ m'']) (simp_all add: foldE_append)
qed

lemma tracks_events:
  fixes m :: "'w phys_map"
  assumes "represents (regions s) m f" "events_ok m (regions s) f es" "2 ^ 22 \<le> n" "foldE (as_ops env address_space_memory) es s = Inr t"
  shows "tracks n s t m (fold apply_event es f)"
  using assms
proof (induction es arbitrary: s m f)
  case Nil
  then show ?case by (auto simp: tracks_def)
next
  case (Cons e es)
  then obtain u where u: "as_ops env address_space_memory e s = Inr u" "foldE (as_ops env address_space_memory) es u = Inr t" by auto
  have e: "tracks n s u m (apply_event e f)" using Cons.prems u(1) by (intro tracks_event) auto
  then have r: "regions u = regions s" by (simp add: tracks_def)
  have "tracks n s t m (fold apply_event es (apply_event e f))"
    using e
  proof (rule tracks_trans)
    fix m' :: "'w phys_map"
    assume "represents (regions u) m' (apply_event e f)" "io_mem m' = io_mem m"
    then show "tracks n u t m' (fold apply_event es (apply_event e f))"
      using Cons.prems(2-4) u(2) r events_ok_cong [of m' m] by (intro Cons.IH) simp_all
  qed
  then show ?case by simp
qed

lemma del_events_ok: "(\<And>fr. fr \<in> set fs \<Longrightarrow> fits m \<sigma> fr) \<Longrightarrow> events_ok m \<sigma> f (map range_del fs)"
  by (induction fs arbitrary: f) auto

lemma add_events_ok:
  assumes "\<And>fr. range_del fr \<notin> set es" "filter is_add es = map range_add fs" "flat_ok fs"
    and "\<And>fr. fr \<in> set fs \<Longrightarrow> fits m \<sigma> fr" "\<And>fr x. fr \<in> set fs \<Longrightarrow> addrrange_contains (fr_addr fr) x \<Longrightarrow> f x = None"
  shows "events_ok m \<sigma> f es"
  using assms
proof (induction es arbitrary: fs f)
  case (Cons e es)
  show ?case
  proof (cases e)
    case (range_add g)
    then obtain gs where gs: "fs = g # gs" "filter is_add es = map range_add gs" using Cons.prems(2) by (cases fs) auto
    have "events_ok m \<sigma> (apply_event e f) es"
    proof (rule Cons.IH [OF _ gs(2)])
      show "apply_event e f x = None" if "fr \<in> set gs" "addrrange_contains (fr_addr fr) x" for fr x
        using that Cons.prems(3,5) unfolding gs(1) range_add by (fastforce simp: flat_ok_Cons addrrange_contains_def)
    qed (use Cons.prems gs in \<open>auto simp: flat_ok_Cons\<close>)
    then show ?thesis using Cons.prems(4,5) gs range_add by auto
  next
    case (range_del g)
    then show ?thesis using Cons.prems(1) by auto
  qed (use Cons in \<open>auto intro!: Cons.IH [of fs]\<close>)
qed simp

lemma passes_tracked:
  fixes m :: "'w phys_map"
  assumes "represents (regions s) m (phys_view old)" "flat_ok old" "flat_ok new" "2 ^ 22 \<le> n"
    and fits: "\<And>fr. fr \<in> set old \<union> set new \<Longrightarrow> fits m (regions s) fr"
    and "foldE (as_ops env address_space_memory) (address_space_update_topology_pass old new False) s = Inr u"
    and "foldE (as_ops env address_space_memory) (address_space_update_topology_pass old new True) u = Inr t"
  shows "tracks n s t m (phys_view new)"
proof -
  let ?del = "address_space_update_topology_pass old new False" and ?add = "address_space_update_topology_pass old new True"
  let ?M = "fold apply_event ?del (phys_view old)"
  have st: "starts_sorted old" "starts_sorted new" using assms(2,3) flat_ok_starts by auto
  have d: "?del = map range_del (filter (\<lambda>f. \<not> kept_by new f) old)" by (rule pass_del [OF st])
  have "events_ok m (regions s) (phys_view old) ?del" unfolding d using fits by (intro del_events_ok) auto
  then have u: "tracks n s u m ?M" by (rule tracks_events [OF assms(1) _ assms(4,6)])
  then have r: "regions u = regions s" by (simp add: tracks_def)
  have gap: "?M x = None" if g: "g \<in> set new" "\<not> kept_by old g" "addrrange_contains (fr_addr g) x" for g x
  proof (rule ccontr)
    assume "?M x \<noteq> None"
    then have *: "\<not> (\<exists>f\<in>set old. \<not> kept_by new f \<and> addrrange_contains (fr_addr f) x)" "phys_view old x \<noteq> None"
      unfolding d fold_apply_del by (auto split: if_splits)
    then obtain f where f: "f \<in> set old" "addrrange_contains (fr_addr f) x" by (auto simp: phys_view_def flat_lookup_None_iff)
    then obtain h where h: "h \<in> set new" "flatrange_equal f h" using * by (auto simp: kept_by_def)
    then have "h = g" using flat_ok_unique [OF assms(3) h(1) g(1) _ g(3)] flatrange_equal_target(1) [OF h(2)] f(2) by simp
    then show False using g(2) f(1) h(2) flatrange_equal_sym by (auto simp: kept_by_def)
  qed
  have "events_ok m (regions s) ?M ?add"
    by (rule add_events_ok [OF pass_add_no_del pass_add [OF st] flat_ok_filter [OF assms(3)]]) (use fits gap in auto)
  then have "tracks n u t m' (fold apply_event ?add ?M)" if "represents (regions u) m' ?M" "io_mem m' = io_mem m" for m' :: "'w phys_map"
    using tracks_events [OF that(1) _ assms(4,7)] events_ok_cong [OF that(2)] r by simp
  then have "tracks n s t m (fold apply_event ?add ?M)" by (rule tracks_trans [OF u])
  then show ?thesis using passes_update [OF assms(2,3)] by simp
qed

lemma ioeventfd_events: "e \<in> set (address_space_add_del_ioeventfds news olds) \<Longrightarrow> (\<exists>fd. e = ioeventfd_add fd \<or> e = ioeventfd_del fd)"
  by (induction news olds rule: address_space_add_del_ioeventfds.induct) (auto split: if_splits)

lemma ioeventfds_tracked:
  assumes "represents (regions s) m f" "2 ^ 22 \<le> n" "address_space_update_ioeventfds env address_space_memory s = Inr t"
  shows "tracks n s t m f"
proof -
  obtain news olds u where u: "foldE (as_ops env address_space_memory) (address_space_add_del_ioeventfds news olds) s = Inr u"
    "regions t = regions u" "phys_calls t = phys_calls u"
    using assms(3) by (auto simp: address_space_update_ioeventfds_def Let_def upd_space_def)
  let ?es = "address_space_add_del_ioeventfds news olds"
  have "events_ok m (regions s) f es \<and> fold apply_event es f = f"
    if "\<And>e. e \<in> set es \<Longrightarrow> (\<exists>fd. e = ioeventfd_add fd \<or> e = ioeventfd_del fd)" for es
    using that
  proof (induction es)
    case (Cons e es)
    then have "apply_event e f = f" "event_ok m (regions s) f e" by (force intro: ext)+
    then show ?case using Cons by simp
  qed simp
  from this [OF ioeventfd_events [of _ news olds]] have "tracks n s u m f"
    using tracks_events [OF assms(1) _ assms(2) u(1)] by metis
  then show ?thesis using u(2,3) by (simp add: tracks_def)
qed

section \<open>The composition\<close>

text \<open>
  C4: a topology update reaches the page table. When the map of physical pages agrees with
  the flat view before \<open>address_space_update_topology\<close>, the calls the update issues all
  succeed on the map and leave it in agreement with the new flat view: every one of the
  \<open>2\<^sup>3\<^sup>2\<close> addresses leads to the RAM address, the device offset or the unassigned memory that
  the new view has for it. The ranges of both views are made of whole pages of registered
  RAM, ROM or device regions, as the flash, the SRAM, the bit-band windows and the NVIC of the
  board are; a range that shares its page is registered as \<open>Phys_Map.register_exact\<close> says.
\<close>

theorem topology_reaches_pages:
  fixes m :: "'w phys_map"
  assumes "address_space_update_topology env address_space_memory root s = Inr t"
    and "represents (regions s) m (phys_view (current_map (spaces s address_space_memory)))"
    and "flat_ok (current_map (spaces s address_space_memory))" "flat_ok (current_map (spaces t address_space_memory))"
    and "\<forall>fr \<in> set (current_map (spaces s address_space_memory)) \<union> set (current_map (spaces t address_space_memory)).
      fits m (regions s) fr"
    and "2 ^ 22 \<le> n"
  shows "\<exists>calls m'. phys_calls t = phys_calls s @ calls \<and> foldE (apply_call n) calls m = Inr m' \<and> regions t = regions s \<and>
    (\<forall>a. phys_resolve m' a = view_dest (regions t) (phys_view (current_map (spaces t address_space_memory)) (uint a))) \<and>
    represents (regions t) m' (phys_view (current_map (spaces t address_space_memory)))"
proof -
  let ?as = address_space_memory
  let ?old = "current_map (spaces s ?as)"
  obtain v u1 u2 where v: "foldE (as_ops env ?as) (address_space_update_topology_pass ?old v False) s = Inr u1"
    "foldE (as_ops env ?as) (address_space_update_topology_pass ?old v True) u1 = Inr u2"
    and t: "address_space_update_ioeventfds env ?as (upd_space ?as (\<lambda>as. as\<lparr>current_map := v\<rparr>) u2) = Inr t"
    using assms(1) by (auto simp: address_space_update_topology_def Let_def)
  let ?u = "upd_space ?as (\<lambda>as. as\<lparr>current_map := v\<rparr>) u2"
  have new: "current_map (spaces t ?as) = v" using update_ioeventfds_frame [OF t] by (simp add: upd_space_def)
  have "tracks n s u2 m (phys_view v)"
    using assms(3-5) by (intro passes_tracked [OF assms(2) _ _ assms(6) _ v]) (simp_all add: new)
  then have u: "tracks n s ?u m (phys_view v)" by (simp add: tracks_def upd_space_def)
  then have "tracks n s t m (phys_view v)" by (rule tracks_trans) (rule ioeventfds_tracked [OF _ assms(6) t])
  then show ?thesis unfolding new tracks_def by (auto simp: represents_def)
qed

definition page_state :: mem_state where
  "page_state = blank_state\<lparr>regions := (\<lambda>m. blank_region\<lparr>mr_size := 2048, terminates := True, backend_registered := True,
     ram_addr := 0x8000\<rparr>)\<rparr>"

lemma page_state_update:
  "case address_space_update_topology plain_env address_space_memory 1 page_state of Inl _ \<Rightarrow> False
   | Inr t \<Rightarrow> current_map (spaces t address_space_memory) = [make_range 1 (regions page_state 1) False 0 2048 0]"
  by code_simp

lemma topology_reaches_pages_witness:
  "\<exists>t m'. address_space_update_topology plain_env address_space_memory 1 page_state = Inr t \<and>
     foldE (apply_call (2 ^ 22)) (phys_calls t) (io_mem_init :: unit phys_map) = Inr m' \<and> phys_resolve m' 0x410 = Mem 0 0x8410 \<and>
     phys_resolve m' 0x800 = Unassigned"
proof -
  let ?m = "io_mem_init :: unit phys_map" and ?fr = "make_range 1 (regions page_state 1) False 0 2048 0"
  obtain t where t: "address_space_update_topology plain_env address_space_memory 1 page_state = Inr t"
    "current_map (spaces t address_space_memory) = [?fr]"
    using page_state_update by (cases "address_space_update_topology plain_env address_space_memory 1 page_state") auto
  have old: "current_map (spaces page_state address_space_memory) = []" by (simp add: page_state_def blank_state_def)
  have "phys_resolve ?m a = Unassigned" for a
    by (simp add: phys_resolve_def page_byte_def phys_page_find_def io_mem_init_def)
  then have m: "represents (regions page_state) ?m (phys_view (current_map (spaces page_state address_space_memory)))"
    using io_mem_init_ok by (simp add: represents_def old phys_view_def view_dest_def) (simp add: io_mem_init_def)
  have f: "fits ?m (regions page_state) ?fr"
    by (simp add: fits_def backed_def make_range_def page_state_def blank_region_def addrrange_end_def addrrange_make_def
        in_page_def TARGET_PAGE_MASK_def)
  have "flat_ok [?fr]" by (simp add: flat_ok_def make_range_def addrrange_make_def)
  moreover have "phys_calls page_state = []" by (simp add: page_state_def blank_state_def)
  ultimately obtain m' where r: "foldE (apply_call (2 ^ 22)) (phys_calls t) ?m = Inr m'"
    "\<forall>a. phys_resolve m' a = view_dest (regions page_state) (phys_view [?fr] (uint a))"
    using topology_reaches_pages [OF t(1) m _ _ _ order_refl] f by (auto simp: t(2) old)
  have "phys_resolve m' 0x410 = Mem 0 0x8410" "phys_resolve m' 0x800 = Unassigned"
    using r(2) by (simp_all add: phys_view_def view_dest_def fr_at_def phys_part_def make_range_def addrrange_make_def
        addrrange_contains_def addrrange_end_def page_state_def in_page_def TARGET_PAGE_MASK_def)
  then show ?thesis using t(1) r(1) by blast
qed

text \<open>
  A read-only range of a device: the flag is one of the bits of the slot number, so that the
  range is registered for another slot.
\<close>

lemma readonly_device_other_slot:
  "case as_memory_range_add plain_env (make_range 1 blank_region True 0 1024 0)
     (page_state\<lparr>regions := \<lambda>m. blank_region\<lparr>backend_registered := True, ram_addr := dev_desc 6\<rparr>\<rparr>) of Inl _ \<Rightarrow> False
   | Inr t \<Rightarrow> phys_calls t = [cpu_register_physical_memory_log 0 1024 (dev_desc 7) 0 0]"
  by code_simp

end
