(* ===== verification/Gic.thy ===== *)
theory Gic
  imports Irq
begin

text \<open>
  The interrupt controller \<open>hw/arm_gic.c\<close> as \<open>hw/armv7m_nvic.c\<close> includes it: \<open>NVIC\<close> is
  defined, \<open>NCPU\<close> is 1 and \<open>GIC_NIRQ\<close> is 96, so the arrays over CPUs have one entry and the
  fields of one bit per CPU are booleans. Interrupts 0 to 31 are internal, 32 to 95 are the
  external lines. Every operation takes and returns the controller with the state \<open>'w\<close> that
  its output line drives. An index outside an array is the error \<open>out_of_bounds\<close>.
\<close>

section \<open>State\<close>

definition GIC_NIRQ :: nat where "GIC_NIRQ = 96"
definition GIC_BASE_IRQ :: nat where "GIC_BASE_IRQ = 32"

definition gic_id :: "u32 list" where
  "gic_id = [0x00, 0xb0, 0x1b, 0x00, 0x0d, 0xe0, 0x05, 0xb1]"

record gic_irq_state =
  irq_enabled :: bool
  irq_pending :: bool
  irq_active :: bool
  irq_level :: bool
  irq_model :: bool
  irq_trigger :: bool

record 'w gic_state =
  parent_irq :: "'w qemu_irq"
  gic_enabled :: int
  cpu_enabled :: int
  irq_state :: "gic_irq_state list"
  priority1 :: "int list"
  priority2 :: "int list"
  last_active :: "int list"
  priority_mask :: int
  running_irq :: int
  running_priority :: int
  current_pending :: int

definition upd_irq :: "nat \<Rightarrow> (gic_irq_state \<Rightarrow> gic_irq_state) \<Rightarrow> 'w gic_state \<Rightarrow> 'w gic_state" where
  "upd_irq irq f s = s\<lparr>irq_state := (irq_state s)[irq := f (irq_state s ! irq)]\<rparr>"

definition GIC_GET_PRIORITY :: "'w gic_state \<Rightarrow> nat \<Rightarrow> int" where
  "GIC_GET_PRIORITY s irq = (if irq < 32 then priority1 s ! irq else priority2 s ! (irq - 32))"

text \<open>An interrupt number used as an index into the arrays of \<open>GIC_NIRQ\<close> entries.\<close>

definition irq_index :: "int \<Rightarrow> nat res" where
  "irq_index irq = (if 0 \<le> irq \<and> irq < int GIC_NIRQ then Inr (nat irq) else Inl (out_of_bounds ''irq_state''))"

section \<open>Choosing the interrupt to signal\<close>

definition gic_scan :: "'w gic_state \<Rightarrow> nat \<Rightarrow> int \<times> int \<Rightarrow> int \<times> int" where
  "gic_scan s irq best =
     (if irq_enabled (irq_state s ! irq) \<and> irq_pending (irq_state s ! irq) \<and> GIC_GET_PRIORITY s irq < fst best
      then (GIC_GET_PRIORITY s irq, int irq) else best)"

definition gic_update :: "'w gic_state \<times> 'w \<Rightarrow> 'w gic_state \<times> 'w" where
  "gic_update = (\<lambda>(s, w).
     let s = s\<lparr>current_pending := 1023\<rparr>
     in if gic_enabled s = 0 \<or> cpu_enabled s = 0 then (s, qemu_irq_lower (parent_irq s) w)
        else let (best_prio, best_irq) = fold (gic_scan s) [0..<GIC_NIRQ] (0x100, 1023)
        in if best_prio \<le> priority_mask s
           then (s\<lparr>current_pending := best_irq\<rparr>,
                 qemu_set_irq (parent_irq s) (if best_prio < running_priority s then 1 else 0) w)
           else (s, qemu_set_irq (parent_irq s) 0 w))"

definition gic_set_pending_private :: "int \<Rightarrow> 'w gic_state \<times> 'w \<Rightarrow> ('w gic_state \<times> 'w) res" where
  "gic_set_pending_private irq = (\<lambda>(s, w).
     bindE (irq_index irq) (\<lambda>i.
       if irq_pending (irq_state s ! i) then Inr (s, w)
       else Inr (gic_update (upd_irq i (irq_pending_update (\<lambda>_. True)) s, w))))"

definition gic_set_irq :: "int \<Rightarrow> int \<Rightarrow> 'w gic_state \<times> 'w \<Rightarrow> ('w gic_state \<times> 'w) res" where
  "gic_set_irq n level = (\<lambda>(s, w).
     bindE (irq_index (n + 32)) (\<lambda>i.
       if level = (if irq_level (irq_state s ! i) then 1 else 0) then Inr (s, w)
       else if level \<noteq> 0 then
         let s = upd_irq i (irq_level_update (\<lambda>_. True)) s
         in Inr (gic_update
              (if irq_trigger (irq_state s ! i) \<or> irq_enabled (irq_state s ! i)
               then upd_irq i (irq_pending_update (\<lambda>_. True)) s else s, w))
       else Inr (gic_update (upd_irq i (irq_level_update (\<lambda>_. False)) s, w))))"

section \<open>Acknowledging and completing interrupts\<close>

definition gic_set_running_irq :: "int \<Rightarrow> 'w gic_state \<times> 'w \<Rightarrow> ('w gic_state \<times> 'w) res" where
  "gic_set_running_irq irq = (\<lambda>(s, w).
     let s = s\<lparr>running_irq := irq\<rparr>
     in if irq = 1023 then Inr (gic_update (s\<lparr>running_priority := 0x100\<rparr>, w))
        else bindE (irq_index irq) (\<lambda>i. Inr (gic_update (s\<lparr>running_priority := GIC_GET_PRIORITY s i\<rparr>, w))))"

definition gic_acknowledge_irq :: "'w gic_state \<times> 'w \<Rightarrow> (int \<times> 'w gic_state \<times> 'w) res" where
  "gic_acknowledge_irq = (\<lambda>(s, w).
     let new_irq = current_pending s
     in if new_irq = 1023 then Inr (1023, s, w)
        else bindE (irq_index new_irq) (\<lambda>i.
          if GIC_GET_PRIORITY s i \<ge> running_priority s then Inr (1023, s, w)
          else let s = s\<lparr>last_active := (last_active s)[i := running_irq s]\<rparr>;
                   s = upd_irq i (irq_pending_update (\<lambda>_. False)) s
               in bindE (gic_set_running_irq new_irq (s, w)) (\<lambda>sw. Inr (new_irq, sw))))"

text \<open>
  The loop of \<open>gic_complete_irq\<close> that looks for an interrupt below the running one in the list
  linked by \<open>last_active\<close>. It follows the links until one is 1023; a cyclic list has no end.
\<close>

fun unlink_active :: "nat \<Rightarrow> int \<Rightarrow> int \<Rightarrow> 'w gic_state \<Rightarrow> 'w gic_state res" where
  "unlink_active 0 irq tmp s = Inl (no_termination ''gic_complete_irq'')"
| "unlink_active (Suc n) irq tmp s =
     bindE (irq_index tmp) (\<lambda>t.
       if last_active s ! t = 1023 then Inr s
       else if last_active s ! t = irq
       then bindE (irq_index irq) (\<lambda>i. Inr (s\<lparr>last_active := (last_active s)[t := last_active s ! i]\<rparr>))
       else unlink_active n irq (last_active s ! t) s)"

definition gic_complete_irq :: "nat \<Rightarrow> int \<Rightarrow> 'w gic_state \<times> 'w \<Rightarrow> ('w gic_state \<times> 'w) res" where
  "gic_complete_irq fuel irq = (\<lambda>(s, w).
     if running_irq s = 1023 then Inr (s, w)
     else bindE
       (if irq \<noteq> 1023 then bindE (irq_index irq) (\<lambda>i.
          let q = irq_state s ! i
          in if \<not> irq_trigger q \<and> irq_enabled q \<and> irq_level q
             then Inr (upd_irq i (irq_pending_update (\<lambda>_. True)) s, True) else Inr (s, False))
        else Inr (s, False))
       (\<lambda>(s, update).
          if irq \<noteq> running_irq s
          then bindE (unlink_active fuel irq (running_irq s) s) (\<lambda>s. Inr (if update then gic_update (s, w) else (s, w)))
          else bindE (irq_index (running_irq s)) (\<lambda>r. gic_set_running_irq (last_active s ! r) (s, w))))"

section \<open>The distributor's registers, byte by byte\<close>

text \<open>Eight interrupts' bits as a byte, and the interrupts whose bit is set in a byte.\<close>

definition bits8 :: "(nat \<Rightarrow> bool) \<Rightarrow> nat \<Rightarrow> u32" where
  "bits8 p irq = fold (\<lambda>i res. if p (irq + i) then res OR push_bit i 1 else res) [0..<8] 0"

definition each8 :: "u32 \<Rightarrow> nat \<Rightarrow> (nat \<Rightarrow> 'w gic_state \<Rightarrow> 'w gic_state) \<Rightarrow> 'w gic_state \<Rightarrow> 'w gic_state" where
  "each8 val irq f s = fold (\<lambda>i s. if val AND push_bit i 1 \<noteq> 0 then f (irq + i) s else s) [0..<8] s"

text \<open>The interrupt a register byte starts at: \<open>per\<close> interrupts to a byte.\<close>

definition reg_irq :: "nat \<Rightarrow> nat \<Rightarrow> nat \<Rightarrow> nat" where
  "reg_irq base per offset = (offset - base) * per + GIC_BASE_IRQ"

definition gic_dist_readb :: "nat \<Rightarrow> 'w gic_state \<Rightarrow> u32 res" where
  "gic_dist_readb offset s =
     (let bad_reg = Inl (hw_error ''gic_dist_readb: Bad offset'');
          st = (\<lambda>i. irq_state s ! i)
      in if offset < 0x100 then bad_reg
         else if offset < 0x200 then
           (let irq = reg_irq (if offset < 0x180 then 0x100 else 0x180) 8 offset
            in if irq \<ge> GIC_NIRQ then bad_reg else Inr (bits8 (\<lambda>i. irq_enabled (st i)) irq))
         else if offset < 0x300 then
           (let irq = reg_irq (if offset < 0x280 then 0x200 else 0x280) 8 offset
            in if irq \<ge> GIC_NIRQ then bad_reg else Inr (bits8 (\<lambda>i. irq_pending (st i)) irq))
         else if offset < 0x400 then
           (let irq = reg_irq 0x300 8 offset
            in if irq \<ge> GIC_NIRQ then bad_reg else Inr (bits8 (\<lambda>i. irq_active (st i)) irq))
         else if offset < 0x800 then
           (let irq = reg_irq 0x400 1 offset
            in if irq \<ge> GIC_NIRQ then bad_reg else Inr (word_of_int (GIC_GET_PRIORITY s irq)))
         else if offset < 0xfe0 then bad_reg
         else if offset mod 4 \<noteq> 0 then Inr 0
         else if (offset - 0xfe0) div 4 < length gic_id then Inr (gic_id ! ((offset - 0xfe0) div 4))
         else Inl (out_of_bounds ''gic_id''))"

definition gic_dist_readw :: "nat \<Rightarrow> 'w gic_state \<Rightarrow> u32 res" where
  "gic_dist_readw offset s =
     bindE (gic_dist_readb offset s) (\<lambda>lo. bindE (gic_dist_readb (offset + 1) s) (\<lambda>hi. Inr (lo OR push_bit 8 hi)))"

definition gic_enable_irq :: "nat \<Rightarrow> 'w gic_state \<Rightarrow> 'w gic_state" where
  "gic_enable_irq i s =
     (let s = upd_irq i (irq_enabled_update (\<lambda>_. True)) s
      in if irq_level (irq_state s ! i) \<and> \<not> irq_trigger (irq_state s ! i)
         then upd_irq i (irq_pending_update (\<lambda>_. True)) s else s)"

definition set_priority :: "nat \<Rightarrow> u32 \<Rightarrow> 'w gic_state \<Rightarrow> 'w gic_state" where
  "set_priority irq val s =
     (if irq < 32 then s\<lparr>priority1 := (priority1 s)[irq := sint val]\<rparr>
      else s\<lparr>priority2 := (priority2 s)[irq - 32 := sint val]\<rparr>)"

definition gic_dist_writeb :: "nat \<Rightarrow> u32 \<Rightarrow> 'w gic_state \<times> 'w \<Rightarrow> ('w gic_state \<times> 'w) res" where
  "gic_dist_writeb offset val = (\<lambda>(s, w).
     let bad_reg = Inl (hw_error ''gic_dist_writeb: Bad offset'');
         finish = (\<lambda>irq s. if irq \<ge> GIC_NIRQ then bad_reg else Inr (gic_update (s, w)))
     in if offset < 0x100 then bad_reg
        else if offset < 0x180 then
          (let irq = reg_irq 0x100 8 offset; val = (if irq < 16 then 0xff else val)
           in finish irq (each8 val irq gic_enable_irq s))
        else if offset < 0x200 then
          (let irq = reg_irq 0x180 8 offset; val = (if irq < 16 then 0 else val)
           in finish irq (each8 val irq (\<lambda>i. upd_irq i (irq_enabled_update (\<lambda>_. False))) s))
        else if offset < 0x280 then
          (let irq = reg_irq 0x200 8 offset
           in finish irq (each8 val (if irq < 16 then 0 else irq) (\<lambda>i. upd_irq i (irq_pending_update (\<lambda>_. True))) s))
        else if offset < 0x300 then
          (let irq = reg_irq 0x280 8 offset
           in finish irq (each8 val irq (\<lambda>i. upd_irq i (irq_pending_update (\<lambda>_. False))) s))
        else if offset < 0x400 then bad_reg
        else if offset < 0x800 then
          (let irq = reg_irq 0x400 1 offset in finish irq (set_priority irq val s))
        else bad_reg)"

definition gic_dist_writew :: "nat \<Rightarrow> u32 \<Rightarrow> 'w gic_state \<times> 'w \<Rightarrow> ('w gic_state \<times> 'w) res" where
  "gic_dist_writew offset val sw =
     bindE (gic_dist_writeb offset (val AND 0xff) sw) (gic_dist_writeb (offset + 1) (drop_bit 8 val))"

text \<open>A write to 0xf00; with one CPU each target filter gives a mask of 0 or 1.\<close>

definition gic_soft_int :: "u32 \<Rightarrow> 'w gic_state \<times> 'w \<Rightarrow> ('w gic_state \<times> 'w) res" where
  "gic_soft_int val = (\<lambda>(s, w).
     let msk = (let t = drop_bit 24 val AND 3
                in if t = 0 then bit val 16 else if t = 1 then False else True)
     in bindE (irq_index (uint (val AND 0x3ff))) (\<lambda>i.
          Inr (gic_update (if msk then upd_irq i (irq_pending_update (\<lambda>_. True)) s else s, w))))"

section \<open>Reset and initialisation\<close>

definition blank_irq :: gic_irq_state where
  "blank_irq = \<lparr>irq_enabled = False, irq_pending = False, irq_active = False, irq_level = False,
     irq_model = False, irq_trigger = False\<rparr>"

definition gic_reset :: "'w gic_state \<Rightarrow> 'w gic_state" where
  "gic_reset s =
     (let s = s\<lparr>irq_state := replicate GIC_NIRQ blank_irq, priority_mask := 0xf0, current_pending := 1023,
                running_irq := 1023, running_priority := 0x100, cpu_enabled := 1\<rparr>;
          s = fold (\<lambda>i. upd_irq i (\<lambda>q. q\<lparr>irq_enabled := True, irq_trigger := True\<rparr>)) [0..<16] s
      in s\<lparr>gic_enabled := 1\<rparr>)"

text \<open>The allocated state is zero; the output line is connected after initialisation.\<close>

definition gic_init :: "'w gic_state" where
  "gic_init = gic_reset
     \<lparr>parent_irq = None, gic_enabled = 0, cpu_enabled = 0, irq_state = replicate GIC_NIRQ blank_irq,
      priority1 = replicate 32 0, priority2 = replicate (GIC_NIRQ - 32) 0, last_active = replicate GIC_NIRQ 0,
      priority_mask = 0, running_irq = 0, running_priority = 0, current_pending = 0\<rparr>"

section \<open>The most urgent interrupt\<close>

text \<open>
  The interrupts that may be signalled, and the reference for the loop of \<open>gic_update\<close>: the
  first of them when sorted by priority. Sorting is stable, so that the lowest number wins
  among equals.
\<close>

definition candidates :: "'w gic_state \<Rightarrow> nat \<Rightarrow> nat list" where
  "candidates s n =
     [i \<leftarrow> [0..<n]. irq_enabled (irq_state s ! i) \<and> irq_pending (irq_state s ! i) \<and> GIC_GET_PRIORITY s i < 0x100]"

definition most_urgent :: "'w gic_state \<Rightarrow> int \<times> int" where
  "most_urgent s =
     (case sort_key (GIC_GET_PRIORITY s) (candidates s GIC_NIRQ) of
        [] \<Rightarrow> (0x100, 1023)
      | i # _ \<Rightarrow> (GIC_GET_PRIORITY s i, int i))"

definition first_min :: "('a \<Rightarrow> 'k::linorder) \<Rightarrow> 'a list \<Rightarrow> 'a \<Rightarrow> bool" where
  "first_min f xs m \<longleftrightarrow> (\<forall>x\<in>set xs. f m \<le> f x) \<and> m \<in> set xs \<and> hd (filter (\<lambda>x. f x = f m) xs) = m"

lemma first_min_unique:
  assumes "first_min f xs m" "first_min f xs m'"
  shows "m = m'"
proof -
  have "f m = f m'" using assms by (simp add: first_min_def order_antisym)
  then show ?thesis using assms by (metis first_min_def)
qed

lemma first_min_sort_key:
  assumes "xs \<noteq> []"
  shows "first_min f xs (hd (sort_key f xs))"
proof -
  obtain m ms where m: "sort_key f xs = m # ms" using assms by (metis length_0_conv length_sort neq_Nil_conv)
  have "set (m # ms) = set xs" by (metis m set_sort)
  moreover have "\<forall>x\<in>set (m # ms). f m \<le> f x" using sorted_sort_key [of f xs] unfolding m by auto
  moreover have "filter (\<lambda>x. f x = f m) xs = filter (\<lambda>x. f x = f m) (m # ms)"
    unfolding m [symmetric] by (rule sort_key_stable [symmetric])
  ultimately show ?thesis unfolding first_min_def m by auto
qed

lemma sort_key_snoc_hd:
  assumes "xs \<noteq> []"
  shows "hd (sort_key f (xs @ [y])) = (if f y < f (hd (sort_key f xs)) then y else hd (sort_key f xs))"
proof -
  define m where "m = hd (sort_key f xs)"
  have m: "\<forall>x\<in>set xs. f m \<le> f x" "m \<in> set xs" "hd (filter (\<lambda>x. f x = f m) xs) = m"
    using first_min_sort_key [OF assms, of f] by (simp_all add: first_min_def m_def)
  have "filter (\<lambda>x. f x = f m) xs \<noteq> []" using m(2) by (auto simp: filter_empty_conv)
  moreover have "filter (\<lambda>x. f x = f y) xs = []" if "f y < f m" using m(1) that by (auto simp: filter_empty_conv)
  ultimately have "first_min f (xs @ [y]) (if f y < f m then y else m)" using m by (auto simp: first_min_def intro: order_trans)
  moreover have "first_min f (xs @ [y]) (hd (sort_key f (xs @ [y])))" by (rule first_min_sort_key) simp
  ultimately have "hd (sort_key f (xs @ [y])) = (if f y < f m then y else m)" using first_min_unique by metis
  then show ?thesis unfolding m_def .
qed

lemma scan_most_urgent:
  "fold (gic_scan s) [0..<n] (0x100, 1023) =
     (case sort_key (GIC_GET_PRIORITY s) (candidates s n) of [] \<Rightarrow> (0x100, 1023) | i # _ \<Rightarrow> (GIC_GET_PRIORITY s i, int i))"
proof (induction n)
  case 0
  then show ?case by (simp add: candidates_def)
next
  case (Suc n)
  let ?f = "GIC_GET_PRIORITY s"
  have step: "candidates s (Suc n) = candidates s n @ (if irq_enabled (irq_state s ! n) \<and> irq_pending (irq_state s ! n) \<and>
      ?f n < 0x100 then [n] else [])"
    by (simp add: candidates_def)
  show ?case
  proof (cases "sort_key ?f (candidates s n)")
    case Nil
    then have "candidates s n = []" by (metis length_0_conv length_sort)
    then show ?thesis using Suc.IH by (simp add: step gic_scan_def)
  next
    case (Cons m ms)
    then have m: "candidates s n \<noteq> []" "m = hd (sort_key ?f (candidates s n))" by auto
    have "m \<in> set (candidates s n)" using Cons by (metis list.set_intros(1) set_sort)
    then have "?f m < 0x100" by (simp add: candidates_def)
    moreover obtain k ks where k: "sort_key ?f (candidates s n @ [n]) = k # ks"
      by (metis length_0_conv length_sort neq_Nil_conv snoc_eq_iff_butlast)
    ultimately show ?thesis
      using Suc.IH Cons sort_key_snoc_hd [OF m(1), of ?f n] unfolding m(2) [symmetric]
      by (auto simp: step gic_scan_def)
  qed
qed

lemma gic_update_eq:
  "gic_update (s, w) =
     (if gic_enabled s = 0 \<or> cpu_enabled s = 0
      then (s\<lparr>current_pending := 1023\<rparr>, qemu_set_irq (parent_irq s) 0 w)
      else let (p, irq) = most_urgent s
           in (s\<lparr>current_pending := if p \<le> priority_mask s then irq else 1023\<rparr>,
               qemu_set_irq (parent_irq s) (if p \<le> priority_mask s \<and> p < running_priority s then 1 else 0) w))"
proof -
  have e: "gic_scan (s\<lparr>current_pending := c\<rparr>) = gic_scan s" for c
    by (intro ext) (auto simp: gic_scan_def GIC_GET_PRIORITY_def)
  show ?thesis
    unfolding gic_update_def most_urgent_def Let_def prod.case
    by (simp add: e scan_most_urgent qemu_irq_lower_def split: list.splits prod.splits)
qed

text \<open>
  C16: what one call of \<open>gic_update\<close> does. If the distributor or the CPU interface is disabled, nothing is chosen (1023) and the
  output is lowered. Otherwise the most urgent interrupt is chosen: of those that are enabled and pending and have a
  priority value below 0x100 the one with the lowest value, the lowest number among equals, if its value is at most
  the priority mask, and 1023 if it is not or there is none; the output is driven, to 1 exactly when the most urgent interrupt passes
  the mask and its value is below the running priority. Nothing else of the controller changes.
\<close>

theorem gic_update_most_urgent:
  "gic_update (s, w) =
     (if gic_enabled s = 0 \<or> cpu_enabled s = 0
      then (s\<lparr>current_pending := 1023\<rparr>, qemu_set_irq (parent_irq s) 0 w)
      else let (p, irq) = most_urgent s
           in (s\<lparr>current_pending := if p \<le> priority_mask s then irq else 1023\<rparr>,
               qemu_set_irq (parent_irq s) (if p \<le> priority_mask s \<and> p < running_priority s then 1 else 0) w))"
  by (rule gic_update_eq)

section \<open>The stack of active interrupts\<close>

text \<open>
  \<open>running_irq\<close> and \<open>last_active\<close> are a linked list: the running interrupt, the one it
  preempted, and so on down to 1023. The list represents the stack of interrupts that have
  been acknowledged and not completed, each more urgent than the one below it.
\<close>

primrec chain :: "int list \<Rightarrow> int \<Rightarrow> nat list \<Rightarrow> bool" where
  "chain la r [] \<longleftrightarrow> r = 1023"
| "chain la r (x # xs) \<longleftrightarrow> r = int x \<and> x < GIC_NIRQ \<and> chain la (la ! x) xs"

definition gic_sizes :: "'w gic_state \<Rightarrow> bool" where
  "gic_sizes s \<longleftrightarrow> length (irq_state s) = GIC_NIRQ \<and> length (priority1 s) = 32 \<and>
     length (priority2 s) = GIC_NIRQ - 32 \<and> length (last_active s) = GIC_NIRQ"

definition pending_ok :: "'w gic_state \<Rightarrow> bool" where
  "pending_ok s \<longleftrightarrow> current_pending s = 1023 \<or> 0 \<le> current_pending s \<and> current_pending s < int GIC_NIRQ"

definition stack_ok :: "'w gic_state \<Rightarrow> nat list \<Rightarrow> bool" where
  "stack_ok s xs \<longleftrightarrow> gic_sizes s \<and> chain (last_active s) (running_irq s) xs \<and>
     sorted_wrt (<) (map (GIC_GET_PRIORITY s) xs) \<and>
     running_priority s = (case xs of [] \<Rightarrow> 0x100 | x # _ \<Rightarrow> GIC_GET_PRIORITY s x)"

lemma priority_of_update [simp]:
  "GIC_GET_PRIORITY (s\<lparr>current_pending := c\<rparr>) = GIC_GET_PRIORITY s"
  "GIC_GET_PRIORITY (s\<lparr>irq_state := q\<rparr>) = GIC_GET_PRIORITY s"
  "GIC_GET_PRIORITY (s\<lparr>last_active := l\<rparr>) = GIC_GET_PRIORITY s"
  "GIC_GET_PRIORITY (s\<lparr>running_irq := c\<rparr>) = GIC_GET_PRIORITY s"
  "GIC_GET_PRIORITY (s\<lparr>running_priority := c\<rparr>) = GIC_GET_PRIORITY s"
  by (intro ext; simp add: GIC_GET_PRIORITY_def)+

lemma upd_irq_fields [simp]:
  "last_active (upd_irq i f s) = last_active s" "running_irq (upd_irq i f s) = running_irq s"
  "running_priority (upd_irq i f s) = running_priority s" "priority1 (upd_irq i f s) = priority1 s"
  "priority2 (upd_irq i f s) = priority2 s" "parent_irq (upd_irq i f s) = parent_irq s"
  "priority_mask (upd_irq i f s) = priority_mask s" "current_pending (upd_irq i f s) = current_pending s"
  "gic_enabled (upd_irq i f s) = gic_enabled s" "cpu_enabled (upd_irq i f s) = cpu_enabled s"
  "length (irq_state (upd_irq i f s)) = length (irq_state s)"
  "GIC_GET_PRIORITY (upd_irq i f s) = GIC_GET_PRIORITY s"
  by (simp_all add: upd_irq_def)

lemma nth_upd_irq:
  "i < length (irq_state s) \<Longrightarrow> irq_state (upd_irq i f s) ! j = (if j = i then f (irq_state s ! i) else irq_state s ! j)"
  by (simp add: upd_irq_def)

lemma most_urgent_cases:
  "most_urgent s = (0x100, 1023) \<or>
     (\<exists>i<GIC_NIRQ. most_urgent s = (GIC_GET_PRIORITY s i, int i) \<and> irq_enabled (irq_state s ! i) \<and>
        irq_pending (irq_state s ! i) \<and> GIC_GET_PRIORITY s i < 0x100)"
proof (cases "sort_key (GIC_GET_PRIORITY s) (candidates s GIC_NIRQ)")
  case Nil
  then show ?thesis by (simp add: most_urgent_def)
next
  case (Cons i js)
  then have "i \<in> set (candidates s GIC_NIRQ)" by (metis list.set_intros(1) set_sort)
  then show ?thesis using Cons by (auto simp: candidates_def most_urgent_def)
qed

lemma gic_update_keeps:
  obtains c where "fst (gic_update (s, w)) = s\<lparr>current_pending := c\<rparr>" and "c = 1023 \<or> 0 \<le> c \<and> c < int GIC_NIRQ"
proof -
  define c where "c = (if gic_enabled s = 0 \<or> cpu_enabled s = 0 \<or> \<not> fst (most_urgent s) \<le> priority_mask s then 1023
    else snd (most_urgent s))"
  have "fst (gic_update (s, w)) = s\<lparr>current_pending := c\<rparr>"
    by (simp add: gic_update_eq c_def split: prod.splits)
  moreover have "c = 1023 \<or> 0 \<le> c \<and> c < int GIC_NIRQ"
    using most_urgent_cases [of s] by (auto simp: c_def)
  ultimately show ?thesis using that by blast
qed

lemma gic_update_pending_ok: "pending_ok (fst (gic_update (s, w)))"
proof -
  obtain c where "fst (gic_update (s, w)) = s\<lparr>current_pending := c\<rparr>" "c = 1023 \<or> 0 \<le> c \<and> c < int GIC_NIRQ"
    by (rule gic_update_keeps [of s w])
  then show ?thesis by (simp add: pending_ok_def)
qed

lemma stack_ok_current_pending [simp]: "stack_ok (s\<lparr>current_pending := c\<rparr>) xs = stack_ok s xs"
  by (simp add: stack_ok_def gic_sizes_def cong: list.case_cong)

lemma stack_ok_gic_update [simp]: "stack_ok (fst (gic_update (s, w))) xs = stack_ok s xs"
  by (rule gic_update_keeps [of s w]) simp

lemma stack_ok_upd_irq [simp]: "stack_ok (upd_irq i f s) xs = stack_ok s xs"
  by (simp add: stack_ok_def gic_sizes_def cong: list.case_cong)

lemma chain_upd: "x \<notin> set xs \<Longrightarrow> chain (la[x := v]) r xs = chain la r xs"
  by (induction xs arbitrary: r) auto

lemma chain_cong: "(\<And>x. x \<in> set xs \<Longrightarrow> la ! x = lb ! x) \<Longrightarrow> chain la r xs = chain lb r xs"
  by (induction xs arbitrary: r) auto

lemma sorted_wrt_less_distinct:
  fixes f :: "'a \<Rightarrow> int"
  shows "sorted_wrt (<) (map f xs) \<Longrightarrow> distinct xs"
  by (induction xs) auto

lemma sorted_wrt_map_remove1:
  "sorted_wrt P (map f xs) \<Longrightarrow> sorted_wrt P (map f (remove1 i xs))"
  by (induction xs) (auto dest: set_mp [OF set_remove1_subset])

lemma irq_index_nat [simp]: "x < GIC_NIRQ \<Longrightarrow> irq_index (int x) = Inr x"
  by (simp add: irq_index_def)

lemma small_irq: "x < GIC_NIRQ \<Longrightarrow> int x \<noteq> 1023" "x < GIC_NIRQ \<Longrightarrow> x \<noteq> 1023"
  by (simp_all add: GIC_NIRQ_def)

lemma unlink_chain:
  assumes "chain (last_active s) (int x) (x # xs)" "distinct (x # xs)" "length xs < n" "i \<noteq> x" "i < GIC_NIRQ"
    and "length (last_active s) = GIC_NIRQ"
  shows "\<exists>la. unlink_active n (int i) (int x) s = Inr (s\<lparr>last_active := la\<rparr>) \<and> chain la (int x) (x # remove1 i xs) \<and>
    length la = GIC_NIRQ \<and> (\<forall>z. z \<notin> set (x # xs) \<longrightarrow> la ! z = last_active s ! z)"
  using assms
proof (induction xs arbitrary: x n)
  case Nil
  then show ?case by (cases n) (auto intro!: exI [of _ "last_active s"])
next
  case (Cons y ys)
  obtain m where n: "n = Suc m" using Cons.prems(3) by (cases n) auto
  let ?la = "last_active s"
  have x: "x < GIC_NIRQ" "?la ! x = int y" "y < GIC_NIRQ" "chain ?la (?la ! y) ys" using Cons.prems(1) by auto
  show ?case
  proof (cases "y = i")
    case True
    have "chain (?la[x := ?la ! y]) (int x) (x # ys)"
      using x Cons.prems(2,6) by (simp add: chain_upd)
    then show ?thesis using True x Cons.prems small_irq(1) [OF x(3)]
      by (auto simp: n intro!: exI [of _ "?la[x := ?la ! y]"])
  next
    case False
    have "chain ?la (int y) (y # ys)" using x by simp
    then obtain la where la: "unlink_active m (int i) (int y) s = Inr (s\<lparr>last_active := la\<rparr>)"
        "chain la (int y) (y # remove1 i ys)" "length la = GIC_NIRQ" "\<forall>z. z \<notin> set (y # ys) \<longrightarrow> la ! z = ?la ! z"
      using Cons.IH [of y m] Cons.prems False by (auto simp: n)
    have "la ! x = int y" using la(4) x(2) Cons.prems(2) by auto
    then show ?thesis using la x False small_irq(1) [OF x(3)] by (auto simp: n)
  qed
qed

lemma gic_set_running_top:
  assumes "gic_sizes s" "chain (last_active s) r xs" "sorted_wrt (<) (map (GIC_GET_PRIORITY s) xs)"
  obtains s' w' where "gic_set_running_irq r (s, w) = Inr (s', w')" "stack_ok s' xs" "pending_ok s'"
    "irq_state s' = irq_state s" "priority1 s' = priority1 s" "priority2 s' = priority2 s"
proof -
  let ?p = "case xs of [] \<Rightarrow> 0x100 | x # _ \<Rightarrow> GIC_GET_PRIORITY s x"
  let ?t = "s\<lparr>running_irq := r, running_priority := ?p\<rparr>"
  have "gic_set_running_irq r (s, w) = Inr (gic_update (?t, w))"
    using assms(2) by (cases xs) (auto simp: gic_set_running_irq_def small_irq Let_def)
  moreover have "stack_ok ?t xs" using assms by (simp add: stack_ok_def gic_sizes_def cong: list.case_cong)
  moreover obtain s' w' where u: "gic_update (?t, w) = (s', w')" by (cases "gic_update (?t, w)")
  moreover obtain c where "s' = ?t\<lparr>current_pending := c\<rparr>" using gic_update_keeps [of ?t w] u by (metis fst_conv)
  ultimately show ?thesis
    using that [of s' w'] gic_update_pending_ok [of ?t w] by simp
qed

lemma acknowledge_stack:
  assumes "stack_ok s xs" "pending_ok s"
  shows "\<exists>irq s' w'. gic_acknowledge_irq (s, w) = Inr (irq, s', w') \<and>
    (if irq = 1023 then (s', w') = (s, w)
     else irq = current_pending s \<and> stack_ok s' (nat irq # xs) \<and> pending_ok s' \<and>
          \<not> irq_pending (irq_state s' ! nat irq))"
proof (cases "current_pending s = 1023 \<or> running_priority s \<le> GIC_GET_PRIORITY s (nat (current_pending s))")
  case True
  then have "gic_acknowledge_irq (s, w) = Inr (1023, s, w)"
    using assms(2) by (auto simp: gic_acknowledge_irq_def irq_index_def pending_ok_def Let_def)
  then show ?thesis by simp
next
  case False
  define i where "i = nat (current_pending s)"
  have i: "current_pending s = int i" "i < GIC_NIRQ" using assms(2) False by (auto simp: i_def pending_ok_def)
  have sz: "gic_sizes s" and ch: "chain (last_active s) (running_irq s) xs"
    and srt: "sorted_wrt (<) (map (GIC_GET_PRIORITY s) xs)"
    and rp: "running_priority s = (case xs of [] \<Rightarrow> 0x100 | x # _ \<Rightarrow> GIC_GET_PRIORITY s x)"
    using assms(1) by (auto simp: stack_ok_def)
  have less: "GIC_GET_PRIORITY s i < GIC_GET_PRIORITY s x" if "x \<in> set xs" for x
    using that srt rp False by (cases xs) (auto simp: i_def)
  then have new: "i \<notin> set xs" by blast
  let ?s = "upd_irq i (irq_pending_update (\<lambda>_. False)) (s\<lparr>last_active := (last_active s)[i := running_irq s]\<rparr>)"
  have "gic_sizes ?s" using sz by (simp add: gic_sizes_def)
  moreover have "chain (last_active ?s) (int i) (i # xs)" using ch new i sz by (simp add: chain_upd gic_sizes_def)
  moreover have "sorted_wrt (<) (map (GIC_GET_PRIORITY ?s) (i # xs))" using less srt by simp
  ultimately obtain s' w' where s': "gic_set_running_irq (int i) (?s, w) = Inr (s', w')" "stack_ok s' (i # xs)" "pending_ok s'"
      "irq_state s' = irq_state ?s"
    by (rule gic_set_running_top)
  have "gic_acknowledge_irq (s, w) = Inr (int i, s', w')"
    using False i s'(1) by (simp add: gic_acknowledge_irq_def small_irq Let_def)
  moreover have "\<not> irq_pending (irq_state s' ! i)" using s'(4) sz i by (simp add: nth_upd_irq gic_sizes_def)
  ultimately show ?thesis using s' i small_irq(1) [OF i(2)] by auto
qed

text \<open>
  Acknowledging pushes: when the pending interrupt preempts, it becomes the top of the
  stack of active interrupts and is no longer pending; otherwise the answer is 1023 and
  nothing changes.
\<close>

theorem acknowledge_pushes:
  assumes "stack_ok s xs" "pending_ok s"
  shows "\<exists>irq s' w'. gic_acknowledge_irq (s, w) = Inr (irq, s', w') \<and>
    (if irq = 1023 then (s', w') = (s, w)
     else irq = current_pending s \<and> stack_ok s' (nat irq # xs) \<and> pending_ok s' \<and>
          \<not> irq_pending (irq_state s' ! nat irq))"
  using assms by (rule acknowledge_stack)

lemma complete_stack:
  assumes "stack_ok s xs" "i < GIC_NIRQ" "length xs \<le> n"
  shows "\<exists>s' w'. gic_complete_irq n (int i) (s, w) = Inr (s', w') \<and> stack_ok s' (remove1 i xs) \<and> (pending_ok s \<longrightarrow> pending_ok s')"
proof (cases xs)
  case Nil
  then show ?thesis using assms(1) by (auto simp: gic_complete_irq_def stack_ok_def)
next
  case (Cons r ys)
  let ?q = "irq_state s ! i"
  define u where "u \<longleftrightarrow> \<not> irq_trigger ?q \<and> irq_enabled ?q \<and> irq_level ?q"
  define t where "t = (if u then upd_irq i (irq_pending_update (\<lambda>_. True)) s else s)"
  have t: "stack_ok t (r # ys)" "running_irq t = running_irq s" using assms(1) Cons by (simp_all add: t_def)
  then have r: "running_irq t = int r" "r < GIC_NIRQ" and ch: "chain (last_active t) (int r) (r # ys)"
    and srt: "sorted_wrt (<) (map (GIC_GET_PRIORITY t) (r # ys))" and sz: "gic_sizes t"
    by (auto simp: stack_ok_def)
  have e: "gic_complete_irq n (int i) (s, w) =
      (if i \<noteq> r then bindE (unlink_active n (int i) (int r) t) (\<lambda>s. Inr (if u then gic_update (s, w) else (s, w)))
       else gic_set_running_irq (last_active t ! r) (t, w))"
  proof -
    have "running_irq s = int r" "int r \<noteq> 1023" "int i \<noteq> 1023" using r t(2) assms(2) small_irq(1) by simp_all
    then show ?thesis using r(2) assms(2) unfolding gic_complete_irq_def Let_def prod.case u_def [symmetric]
      by (cases u) (simp_all add: t_def u_def [symmetric])
  qed
  show ?thesis
  proof (cases "i = r")
    case True
    have below: "chain (last_active t) (last_active t ! r) ys" "sorted_wrt (<) (map (GIC_GET_PRIORITY t) ys)"
      using ch srt by auto
    obtain s' w' where "gic_set_running_irq (last_active t ! r) (t, w) = Inr (s', w')" "stack_ok s' ys" "pending_ok s'"
      by (rule gic_set_running_top [OF sz below])
    then show ?thesis using True e Cons by auto
  next
    case False
    have "distinct (r # ys)" "length ys < n" "length (last_active t) = GIC_NIRQ"
      using sorted_wrt_less_distinct [OF srt] assms(3) sz Cons by (simp_all add: gic_sizes_def)
    then obtain la where la: "unlink_active n (int i) (int r) t = Inr (t\<lparr>last_active := la\<rparr>)"
        "chain la (int r) (r # remove1 i ys)" "length la = GIC_NIRQ"
      using unlink_chain [OF ch _ _ False assms(2)] by blast
    have "sorted_wrt (<) (map (GIC_GET_PRIORITY t) (r # remove1 i ys))"
      using sorted_wrt_map_remove1 [of _ _ "r # ys" i, OF srt] False by simp
    then have ok: "stack_ok (t\<lparr>last_active := la\<rparr>) (r # remove1 i ys)"
      using t(1) la(2,3) r by (simp add: stack_ok_def gic_sizes_def)
    have "pending_ok s \<longrightarrow> pending_ok (t\<lparr>last_active := la\<rparr>)" by (simp add: pending_ok_def t_def)
    then show ?thesis using e False la(1) ok Cons stack_ok_gic_update [of "t\<lparr>last_active := la\<rparr>" w]
        gic_update_pending_ok [of "t\<lparr>last_active := la\<rparr>" w]
      by (cases "gic_update (t\<lparr>last_active := la\<rparr>, w)") auto
  qed
qed

text \<open>
  C24: completing removes: the loop that follows \<open>last_active\<close> ends within as many steps as
  there are active interrupts, and the completed interrupt, on top of the stack or below, is
  the one taken out.
\<close>

theorem complete_removes:
  assumes "stack_ok s xs" "i < GIC_NIRQ" "length xs \<le> n"
  shows "\<exists>s' w'. gic_complete_irq n (int i) (s, w) = Inr (s', w') \<and> stack_ok s' (remove1 i xs)"
  using complete_stack [OF assms] by blast

lemma stack_bound:
  assumes "stack_ok s xs"
  shows "length xs \<le> GIC_NIRQ" "set xs \<subseteq> {..<GIC_NIRQ}"
proof -
  have "chain la r xs \<Longrightarrow> set xs \<subseteq> {..<GIC_NIRQ}" for la r by (induction xs arbitrary: r) auto
  then show "set xs \<subseteq> {..<GIC_NIRQ}" using assms by (auto simp: stack_ok_def)
  moreover have "distinct xs" using assms by (intro sorted_wrt_less_distinct) (auto simp: stack_ok_def)
  ultimately show "length xs \<le> GIC_NIRQ"
    using card_mono [of "{..<GIC_NIRQ}" "set xs"] by (simp add: distinct_card)
qed

section \<open>Reachable states\<close>

text \<open>
  The controller as a state machine: the input lines, the CPU that acknowledges and completes,
  and the guest's byte writes, all of them but one kind: the priority of an interrupt that is active, on the list
  that starts at the running interrupt, is not written. A completion has as much fuel as there are interrupts.
\<close>

definition active_irq :: "'w gic_state \<Rightarrow> nat \<Rightarrow> bool" where
  "active_irq s i \<longleftrightarrow> (\<exists>xs. chain (last_active s) (running_irq s) xs \<and> i \<in> set xs)"

inductive gic_step :: "'w gic_state \<times> 'w \<Rightarrow> 'w gic_state \<times> 'w \<Rightarrow> bool" where
  set_irq: "gic_set_irq n level g = Inr g' \<Longrightarrow> gic_step g g'"
| set_pending: "gic_set_pending_private irq g = Inr g' \<Longrightarrow> gic_step g g'"
| acknowledge: "gic_acknowledge_irq g = Inr (irq, g') \<Longrightarrow> gic_step g g'"
| complete: "i < GIC_NIRQ \<Longrightarrow> gic_complete_irq GIC_NIRQ (int i) g = Inr g' \<Longrightarrow> gic_step g g'"
| write_byte: "gic_dist_writeb offset val g = Inr g' \<Longrightarrow> offset < 0x400 \<or> \<not> active_irq (fst g) (reg_irq 0x400 1 offset) \<Longrightarrow> gic_step g g'"
| soft_int: "gic_soft_int val g = Inr g' \<Longrightarrow> gic_step g g'"

definition gic_ok :: "'w gic_state \<Rightarrow> bool" where
  "gic_ok s \<longleftrightarrow> pending_ok s \<and> (\<exists>xs. stack_ok s xs)"

lemma gic_ok_update: "stack_ok s xs \<Longrightarrow> gic_ok (fst (gic_update (s, w)))"
  using gic_update_pending_ok [of s w] stack_ok_gic_update [of s w xs] unfolding gic_ok_def by blast

lemma stack_ok_enable_irq [simp]: "stack_ok (gic_enable_irq i s) xs = stack_ok s xs"
  by (simp add: gic_enable_irq_def Let_def)

lemma stack_ok_each8:
  assumes "\<And>i s. stack_ok (f i s) xs = stack_ok s xs"
  shows "stack_ok (each8 val irq f s) xs = stack_ok s xs"
proof -
  have "stack_ok (fold (\<lambda>i s. if val AND push_bit i 1 \<noteq> 0 then f (irq + i) s else s) is s) xs = stack_ok s xs" for "is"
    by (induction "is" arbitrary: s) (auto simp: assms)
  then show ?thesis by (simp only: each8_def)
qed

lemma chain_unique: "chain la r xs \<Longrightarrow> chain la r ys \<Longrightarrow> xs = ys"
proof (induction xs arbitrary: r ys)
  case Nil
  then show ?case by (cases ys) (auto simp: small_irq)
next
  case (Cons x xs)
  then show ?case by (cases ys) (auto simp: small_irq)
qed

lemma active_irq_stack: "stack_ok s xs \<Longrightarrow> active_irq s i \<longleftrightarrow> i \<in> set xs"
  by (auto simp: active_irq_def stack_ok_def dest: chain_unique)

text \<open>The stack depends on the priorities of the active interrupts only.\<close>

lemma stack_ok_priorities:
  assumes "stack_ok s xs" "\<And>x. x \<in> set xs \<Longrightarrow> GIC_GET_PRIORITY t x = GIC_GET_PRIORITY s x" "gic_sizes t"
    "last_active t = last_active s" "running_irq t = running_irq s" "running_priority t = running_priority s"
  shows "stack_ok t xs"
proof -
  have m: "map (GIC_GET_PRIORITY t) xs = map (GIC_GET_PRIORITY s) xs" using assms(2) by simp
  have "(case xs of [] \<Rightarrow> 0x100 | x # _ \<Rightarrow> GIC_GET_PRIORITY t x) = (case xs of [] \<Rightarrow> 0x100 | x # _ \<Rightarrow> GIC_GET_PRIORITY s x)"
    using assms(2) by (cases xs) simp_all
  then show ?thesis using assms(1,3-6) unfolding stack_ok_def m by simp
qed

lemma stack_ok_set_priority:
  assumes "stack_ok s xs" "i \<notin> set xs"
  shows "stack_ok (set_priority i val s) xs"
proof (rule stack_ok_priorities [OF assms(1)])
  show "GIC_GET_PRIORITY (set_priority i val s) x = GIC_GET_PRIORITY s x" if "x \<in> set xs" for x
  proof -
    have "x \<noteq> i" using that assms(2) by blast
    then show ?thesis by (auto simp: GIC_GET_PRIORITY_def set_priority_def)
  qed
qed (use assms(1) in \<open>simp_all add: stack_ok_def gic_sizes_def set_priority_def\<close>)

lemma write_byte_stack:
  assumes "gic_dist_writeb offset val (s, w) = Inr (s', w')" "stack_ok s xs" "offset < 0x400 \<or> reg_irq 0x400 1 offset \<notin> set xs"
  obtains t where "s' = fst (gic_update (t, w))" "stack_ok t xs"
proof -
  note f = stack_ok_each8 [of "\<lambda>i. upd_irq i (irq_enabled_update (\<lambda>_. False))" xs] stack_ok_each8 [of gic_enable_irq xs]
    stack_ok_each8 [of "\<lambda>i. upd_irq i (irq_pending_update (\<lambda>_. False))" xs]
    stack_ok_each8 [of "\<lambda>i. upd_irq i (irq_pending_update (\<lambda>_. True))" xs]
  have "\<exists>t. gic_update (t, w) = (s', w') \<and> stack_ok t xs"
    using assms(1) unfolding gic_dist_writeb_def Let_def prod.case
    using assms(2,3)
    by (auto split: if_splits) (rule exI, rule conjI, assumption, simp add: f stack_ok_set_priority)+
  then show ?thesis using that by (metis fst_conv)
qed

lemma gic_ok_running:
  assumes "stack_ok s xs"
  shows "running_irq s = 1023 \<longleftrightarrow> xs = []"
  using assms small_irq by (cases xs) (auto simp: stack_ok_def)

lemma gic_step_ok:
  assumes "gic_step g g'" "gic_ok (fst g)"
  shows "gic_ok (fst g')"
proof -
  obtain xs where xs: "stack_ok (fst g) xs" and p: "pending_ok (fst g)" using assms(2) by (auto simp: gic_ok_def)
  note upd = gic_ok_update [of _ xs]
  show ?thesis using assms(1)
  proof cases
    case (set_irq n level)
    then show ?thesis using xs assms(2) by (cases g) (auto simp: gic_set_irq_def Let_def intro!: upd split: if_splits)
  next
    case (set_pending irq)
    then show ?thesis using xs assms(2) by (cases g) (auto simp: gic_set_pending_private_def intro!: upd split: if_splits)
  next
    case (acknowledge irq)
    then show ?thesis using acknowledge_stack [of "fst g" xs "snd g"] xs p by (auto simp: gic_ok_def split: if_splits)
  next
    case (complete i)
    have "length xs \<le> GIC_NIRQ" using stack_bound [OF xs] by simp
    then show ?thesis using complete complete_stack [OF xs complete(1), of GIC_NIRQ "snd g"] p unfolding gic_ok_def by auto
  next
    case (write_byte offset val)
    obtain t where "fst g' = fst (gic_update (t, snd g))" "stack_ok t xs"
      using write_byte_stack [of offset val "fst g" "snd g" "fst g'" "snd g'" xs] write_byte xs active_irq_stack [OF xs] by auto
    then show ?thesis using upd by metis
  next
    case (soft_int val)
    then show ?thesis using xs by (cases g) (auto simp: gic_soft_int_def Let_def intro!: upd split: if_splits)
  qed
qed

lemma fold_upd_irq_keeps: "(\<And>i s. P (upd_irq i f s) = P s) \<Longrightarrow> P (fold (\<lambda>i. upd_irq i f) js s) = P s"
  by (induction js arbitrary: s) auto

lemma gic_init_fields:
  "running_irq gic_init = 1023" "running_priority gic_init = 0x100" "current_pending gic_init = 1023"
  "priority1 gic_init = replicate 32 0" "priority2 gic_init = replicate (GIC_NIRQ - 32) 0"
  "length (last_active gic_init) = GIC_NIRQ" "length (irq_state gic_init) = GIC_NIRQ"
  "gic_enabled gic_init = 1" "cpu_enabled gic_init = 1" "priority_mask gic_init = 0xf0"
  unfolding gic_init_def gic_reset_def Let_def
  by (simp_all add: fold_upd_irq_keeps [of running_irq] fold_upd_irq_keeps [of running_priority]
      fold_upd_irq_keeps [of current_pending] fold_upd_irq_keeps [of priority1] fold_upd_irq_keeps [of priority2]
      fold_upd_irq_keeps [of cpu_enabled] fold_upd_irq_keeps [of priority_mask]
      fold_upd_irq_keeps [of last_active] fold_upd_irq_keeps [of "\<lambda>s. length (irq_state s)"])

lemma irq_state_fold:
  "irq_state (fold (\<lambda>i. upd_irq i f) js s) = fold (\<lambda>i st. st[i := f (st ! i)]) js (irq_state s)"
  by (induction js arbitrary: s) (simp_all add: upd_irq_def)

lemma gic_init_irqs:
  "irq_state gic_init = replicate 16 (blank_irq\<lparr>irq_enabled := True, irq_trigger := True\<rparr>) @ replicate 80 blank_irq"
proof -
  have "irq_state gic_init =
      fold (\<lambda>i st. st[i := (st ! i)\<lparr>irq_enabled := True, irq_trigger := True\<rparr>]) [0..<16] (replicate GIC_NIRQ blank_irq)"
    by (simp add: gic_init_def gic_reset_def Let_def irq_state_fold)
  also have "\<dots> = replicate 16 (blank_irq\<lparr>irq_enabled := True, irq_trigger := True\<rparr>) @ replicate 80 blank_irq"
    by code_simp
  finally show ?thesis .
qed

lemma most_urgent_none:
  assumes "\<And>i. i < GIC_NIRQ \<Longrightarrow> \<not> irq_pending (irq_state s ! i)"
  shows "most_urgent s = (0x100, 1023)"
proof -
  have "candidates s GIC_NIRQ = []" using assms by (auto simp: candidates_def filter_empty_conv)
  then show ?thesis by (simp add: most_urgent_def)
qed

lemma gic_init_none_pending: "i < GIC_NIRQ \<Longrightarrow> \<not> irq_pending (irq_state gic_init ! i)"
  by (simp add: gic_init_irqs nth_append blank_irq_def GIC_NIRQ_def)

lemma gic_init_stack: "stack_ok (gic_init\<lparr>parent_irq := out\<rparr>) []" "pending_ok (gic_init\<lparr>parent_irq := out\<rparr>)"
  by (simp_all add: stack_ok_def pending_ok_def gic_sizes_def gic_init_fields)

text \<open>
  C17: whatever the input lines and the CPU do and whatever the guest writes, except the priority of an
  interrupt that is active at that time, the active interrupts form a stack:
  finite, without repetition and ordered by priority; the running interrupt is its top and
  the interrupt chosen next is a valid one. (Writing the priority of an active interrupt can make the list cyclic, as
  \<open>complete_may_not_end\<close> shows.)
\<close>

theorem gic_reachable_ok:
  assumes "gic_step\<^sup>*\<^sup>* (gic_init\<lparr>parent_irq := out\<rparr>, w) (s, w')"
  shows "pending_ok s \<and> (\<exists>xs. stack_ok s xs \<and> distinct xs \<and> length xs \<le> GIC_NIRQ)"
proof -
  have "gic_ok (fst (s, w'))"
    using assms
  proof (induction rule: rtranclp_induct)
    case base
    then show ?case using gic_init_stack by (auto simp: gic_ok_def)
  next
    case (step g h)
    then show ?case by (blast intro: gic_step_ok)
  qed
  then obtain xs where "pending_ok s" "stack_ok s xs" by (auto simp: gic_ok_def)
  then show ?thesis using stack_bound(1) sorted_wrt_less_distinct [of "GIC_GET_PRIORITY s" xs] by (auto simp: stack_ok_def)
qed

section \<open>What the processor may rely on\<close>

text \<open>
  The contract between an interrupt controller and a processor that nests handlers: an
  acknowledged interrupt is on top of the stack of active ones, a completed one has left it.
\<close>

locale interrupt_stack =
  fixes ack :: "'s \<Rightarrow> (int \<times> 's) res"
    and complete :: "nat \<Rightarrow> 's \<Rightarrow> 's res"
    and stack :: "'s \<Rightarrow> nat list \<Rightarrow> bool"
    and bound :: nat
  assumes ack_pushes: "stack s xs \<Longrightarrow> \<exists>irq t. ack s = Inr (irq, t) \<and> (if irq = 1023 then t = s else stack t (nat irq # xs))"
    and complete_takes_out: "stack s xs \<Longrightarrow> i < bound \<Longrightarrow> \<exists>t. complete i s = Inr t \<and> stack t (remove1 i xs)"
    and below_bound: "stack s xs \<Longrightarrow> set xs \<subseteq> {..<bound}"
begin

lemma handler_returns:
  assumes "stack s xs" "ack s = Inr (irq, t)" "irq \<noteq> 1023" "stack u (nat irq # xs)"
  shows "\<exists>v. complete (nat irq) u = Inr v \<and> stack v xs"
  using complete_takes_out [OF assms(4), of "nat irq"] below_bound [OF assms(4)] by auto

lemma unwind: "stack s xs \<Longrightarrow> \<exists>t. foldE complete xs s = Inr t \<and> stack t []"
proof (induction xs arbitrary: s)
  case (Cons x xs)
  have "x < bound" using below_bound [OF Cons.prems] by simp
  then obtain t where "complete x s = Inr t" "stack t xs" using complete_takes_out [OF Cons.prems, of x] by auto
  then show ?case using Cons.IH by simp
qed simp

end

interpretation gic: interrupt_stack gic_acknowledge_irq "\<lambda>i. gic_complete_irq GIC_NIRQ (int i)"
  "\<lambda>g xs. stack_ok (fst g) xs \<and> pending_ok (fst g)" GIC_NIRQ
proof unfold_locales
  fix g :: "'w gic_state \<times> 'w" and xs :: "nat list" and i
  assume g: "stack_ok (fst g) xs \<and> pending_ok (fst g)"
  then show "\<exists>irq t. gic_acknowledge_irq g = Inr (irq, t) \<and>
      (if irq = 1023 then t = g else stack_ok (fst t) (nat irq # xs) \<and> pending_ok (fst t))"
    using acknowledge_stack [of "fst g" xs "snd g"] by (cases g) force
  show "set xs \<subseteq> {..<GIC_NIRQ}" using stack_bound(2) g by blast
  assume "i < GIC_NIRQ"
  then show "\<exists>t. gic_complete_irq GIC_NIRQ (int i) g = Inr t \<and> stack_ok (fst t) (remove1 i xs) \<and> pending_ok (fst t)"
    using complete_stack [of "fst g" xs i GIC_NIRQ "snd g"] g stack_bound(1) by (cases g) force
qed

text \<open>
  Every nest of active interrupts unwinds: completing the active interrupts from the top
  of the stack down succeeds, and afterwards none is active.
\<close>

theorem active_interrupts_unwind:
  assumes "stack_ok s xs" "pending_ok s"
  shows "\<exists>s' w'. foldE (\<lambda>i. gic_complete_irq GIC_NIRQ (int i)) xs (s, w) = Inr (s', w') \<and> running_irq s' = 1023"
  using gic.unwind [of "(s, w)" xs] assms by (force simp: stack_ok_def)

text \<open>A controller on which interrupt 40 preempts interrupt 50.\<close>

definition preempting :: "unit gic_state" where
  "preempting = (upd_irq 40 (\<lambda>q. q\<lparr>irq_enabled := True, irq_pending := True\<rparr>) gic_init)
     \<lparr>priority2 := (replicate 64 0)[18 := 7], running_irq := 50, running_priority := 7, current_pending := 40,
      last_active := (replicate 96 0)[50 := 1023]\<rparr>"

lemma preempting_ok: "stack_ok preempting [50]" "pending_ok preempting"
  by (simp_all add: preempting_def stack_ok_def pending_ok_def gic_sizes_def GIC_GET_PRIORITY_def gic_init_fields GIC_NIRQ_def)

theorem acknowledge_pushes_witness:
  "\<exists>irq s' w'. gic_acknowledge_irq (preempting, ()) = Inr (irq, s', w') \<and> irq = 40 \<and> stack_ok s' [40, 50]"
proof -
  have "gic_acknowledge_irq (preempting, ()) \<noteq> Inr (1023, s', w')" for s' w'
    by (auto simp: gic_acknowledge_irq_def preempting_def GIC_GET_PRIORITY_def irq_index_def GIC_NIRQ_def Let_def gic_init_fields)
  then show ?thesis using acknowledge_pushes [OF preempting_ok, of "()"] by (force simp: preempting_def split: if_splits)
qed

theorem complete_removes_witness:
  "\<exists>s' w'. gic_complete_irq 1 50 (preempting, ()) = Inr (s', w') \<and> stack_ok s' []"
  using complete_removes [OF preempting_ok(1), of 50 1 "()"] by (simp add: GIC_NIRQ_def)

theorem active_interrupts_unwind_witness:
  "\<exists>s' w'. foldE (\<lambda>i. gic_complete_irq GIC_NIRQ (int i)) [50] (preempting, ()) = Inr (s', w') \<and> running_irq s' = 1023"
  using active_interrupts_unwind [OF preempting_ok, of "()"] by blast

theorem gic_reachable_ok_witness:
  "\<exists>s w'. gic_step\<^sup>*\<^sup>* (gic_init\<lparr>parent_irq := None\<rparr>, ()) (s, w') \<and> pending_ok s"
proof -
  have "gic_set_irq 0 1 (gic_init\<lparr>parent_irq := None\<rparr>, ()) \<noteq> Inl e" for e
    by (simp add: gic_set_irq_def irq_index_def GIC_NIRQ_def Let_def)
  then obtain s w where "gic_set_irq 0 1 (gic_init\<lparr>parent_irq := None\<rparr>, ()) = Inr (s, w)"
    by (metis old.sum.exhaust surj_pair)
  then have r: "gic_step\<^sup>*\<^sup>* (gic_init\<lparr>parent_irq := None\<rparr>, ()) (s, w)" by (blast intro: set_irq)
  then show ?thesis using gic_reachable_ok [OF r] by blast
qed

section \<open>A list with a cycle\<close>

text \<open>
  A priority changed while its interrupt is active breaks the order of the stack: interrupt 32
  runs at priority 5, gets priority 3, becomes pending again and preempts itself.
\<close>

definition self_preempted :: "(unit gic_state \<times> unit) res" where
  "self_preempted =
     bindE (gic_dist_writeb 0x400 5 (gic_init, ())) (\<lambda>g.
     bindE (gic_dist_writeb 0x100 1 g) (\<lambda>g.
     bindE (gic_dist_writeb 0x200 1 g) (\<lambda>g.
     bindE (gic_acknowledge_irq g) (\<lambda>(_, g).
     bindE (gic_dist_writeb 0x400 3 g) (\<lambda>g.
     bindE (gic_dist_writeb 0x200 1 g) (\<lambda>g.
     bindE (gic_acknowledge_irq g) (\<lambda>(_, g). Inr g)))))))"

lemma unlink_cycle:
  assumes "x < GIC_NIRQ" "last_active s ! x = int x" "i \<noteq> int x"
  shows "unlink_active n i (int x) s = Inl (no_termination ''gic_complete_irq'')"
  using assms by (induction n) (auto simp: small_irq)

lemma self_preempted_run:
  "(case self_preempted of Inl e \<Rightarrow> False
    | Inr (s, w) \<Rightarrow> running_irq s = 32 \<and> last_active s ! 32 = 32 \<and> irq_trigger (irq_state s ! 40) = False \<and>
        irq_enabled (irq_state s ! 40) = False)"
  by code_simp

text \<open>
  C40: completing an interrupt does not return when an active interrupt has been given a more
  urgent priority and has preempted itself: the list of active interrupts is then cyclic and
  the search for an interrupt that is not in it never ends.
\<close>

theorem complete_may_not_end:
  "\<exists>s w. self_preempted = Inr (s, w) \<and> (\<forall>n. gic_complete_irq n 40 (s, w) = Inl (no_termination ''gic_complete_irq''))"
proof -
  obtain s w where g: "self_preempted = Inr (s, w)" "running_irq s = 32" "last_active s ! 32 = 32"
      "irq_enabled (irq_state s ! 40) = False"
    using self_preempted_run by (auto split: sum.splits prod.splits)
  have "unlink_active n 40 32 s = Inl (no_termination ''gic_complete_irq'')" for n
    using unlink_cycle [of 32 s 40 n] g(3) by (simp add: GIC_NIRQ_def)
  then have "gic_complete_irq n 40 (s, w) = Inl (no_termination ''gic_complete_irq'')" for n
    using g by (simp add: gic_complete_irq_def irq_index_def GIC_NIRQ_def Let_def)
  then show ?thesis using g(1) by blast
qed

end
