(* ===== verification/Arm_State.thy ===== *)
theory Arm_State
  imports Prelude
begin

text \<open>
  The state of the ARM processor (\<open>target-arm/cpu.h\<close>) and the code that reads and writes
  its status registers: CPSR and xPSR with their cached bits, register banks and mode
  switches, the two v7-M stack pointers and the v7-M special registers (\<open>target-arm/helper.c\<close>),
  and the interrupt lines of the processor (\<open>hw/arm_pic.c\<close>). Floating point, coprocessors
  and the fields of the translator are not part of the record.
\<close>

section \<open>State\<close>

text \<open>
  \<open>regs\<close> has 16 entries, the banks 6 and the FIQ copies 5; all indices used below are
  constants in range or come from \<open>bank_number\<close>. \<open>current_sp\<close> is 0 or 1 in the code.
\<close>

record CPUARMState =
  c0_cpuid :: u32
  regs :: "nat \<Rightarrow> u32"
  uncached_cpsr :: u32
  spsr :: u32
  banked_spsr :: "nat \<Rightarrow> u32"
  banked_r13 :: "nat \<Rightarrow> u32"
  banked_r14 :: "nat \<Rightarrow> u32"
  usr_regs :: "nat \<Rightarrow> u32"
  fiq_regs :: "nat \<Rightarrow> u32"
  CF :: u32
  VF :: u32
  NF :: u32
  ZF :: u32
  QF :: u32
  GE :: u32
  thumb :: u32
  condexec_bits :: u32
  other_sp :: u32
  vecbase :: u32
  basepri :: u32
  control :: u32
  current_sp :: bool
  v7m_exception :: int
  exception_index :: int
  interrupt_request :: u32

definition set_reg :: "nat \<Rightarrow> u32 \<Rightarrow> CPUARMState \<Rightarrow> CPUARMState" where
  "set_reg i v env = env\<lparr>regs := (regs env)(i := v)\<rparr>"

definition flag :: "bool \<Rightarrow> u32" where
  "flag b = (if b then 1 else 0)"

section \<open>Status register bits\<close>

abbreviation "CPSR_M \<equiv> 0x1f :: u32"
abbreviation "CPSR_T \<equiv> 0x20 :: u32"
abbreviation "CPSR_F \<equiv> 0x40 :: u32"
abbreviation "CPSR_I \<equiv> 0x80 :: u32"
abbreviation "CPSR_A \<equiv> 0x100 :: u32"
abbreviation "CPSR_IT_2_7 \<equiv> 0xfc00 :: u32"
abbreviation "CPSR_GE \<equiv> 0xf0000 :: u32"
abbreviation "CPSR_IT_0_1 \<equiv> 0x6000000 :: u32"
abbreviation "CPSR_Q \<equiv> 0x8000000 :: u32"
abbreviation "CPSR_Z \<equiv> 0x40000000 :: u32"
abbreviation "CPSR_NZCV \<equiv> 0xf0000000 :: u32"
abbreviation "CPSR_IT \<equiv> 0x600fc00 :: u32"
abbreviation "CACHED_CPSR_BITS \<equiv> 0xfe0ffc20 :: u32"

definition cpsr_read :: "CPUARMState \<Rightarrow> u32" where
  "cpsr_read env =
     uncached_cpsr env OR (NF env AND 0x80000000) OR push_bit 30 (flag (ZF env = 0)) OR
     push_bit 29 (CF env) OR drop_bit 3 (VF env AND 0x80000000) OR push_bit 27 (QF env) OR
     push_bit 5 (thumb env) OR push_bit 25 (condexec_bits env AND 3) OR
     push_bit 8 (condexec_bits env AND 0xfc) OR push_bit 16 (GE env)"

definition xpsr_read :: "CPUARMState \<Rightarrow> u32" where
  "xpsr_read env =
     (NF env AND 0x80000000) OR push_bit 30 (flag (ZF env = 0)) OR
     push_bit 29 (CF env) OR drop_bit 3 (VF env AND 0x80000000) OR push_bit 27 (QF env) OR
     push_bit 24 (thumb env) OR push_bit 25 (condexec_bits env AND 3) OR
     push_bit 8 (condexec_bits env AND 0xfc) OR word_of_int (v7m_exception env)"

text \<open>The part common to \<open>cpsr_write\<close> and \<open>xpsr_write\<close>; the bit of the Thumb flag differs.\<close>

definition write_flags :: "u32 \<Rightarrow> u32 \<Rightarrow> u32 \<Rightarrow> CPUARMState \<Rightarrow> CPUARMState" where
  "write_flags tbit val msk env =
     (let env = (if msk AND CPSR_NZCV \<noteq> 0
                 then env\<lparr>ZF := NOT val AND CPSR_Z, NF := val, CF := drop_bit 29 val AND 1,
                          VF := push_bit 3 val AND 0x80000000\<rparr>
                 else env);
          env = (if msk AND CPSR_Q \<noteq> 0 then env\<lparr>QF := flag (val AND CPSR_Q \<noteq> 0)\<rparr> else env);
          env = (if msk AND tbit \<noteq> 0 then env\<lparr>thumb := flag (val AND tbit \<noteq> 0)\<rparr> else env);
          env = (if msk AND CPSR_IT_0_1 \<noteq> 0
                 then env\<lparr>condexec_bits := (condexec_bits env AND NOT 3) OR (drop_bit 25 val AND 3)\<rparr>
                 else env)
      in if msk AND CPSR_IT_2_7 \<noteq> 0
         then env\<lparr>condexec_bits := (condexec_bits env AND 3) OR (drop_bit 8 val AND 0xfc)\<rparr>
         else env)"

definition xpsr_write :: "CPUARMState \<Rightarrow> u32 \<Rightarrow> u32 \<Rightarrow> CPUARMState" where
  "xpsr_write env val msk =
     (let env = write_flags 0x1000000 val msk env
      in if msk AND 0x1ff \<noteq> 0 then env\<lparr>v7m_exception := uint (val AND 0x1ff)\<rparr> else env)"

section \<open>Modes and banks\<close>

abbreviation "ARM_CPU_MODE_USR \<equiv> 0x10 :: u32"
abbreviation "ARM_CPU_MODE_FIQ \<equiv> 0x11 :: u32"
abbreviation "ARM_CPU_MODE_IRQ \<equiv> 0x12 :: u32"
abbreviation "ARM_CPU_MODE_SVC \<equiv> 0x13 :: u32"
abbreviation "ARM_CPU_MODE_ABT \<equiv> 0x17 :: u32"
abbreviation "ARM_CPU_MODE_UND \<equiv> 0x1b :: u32"
abbreviation "ARM_CPU_MODE_SYS \<equiv> 0x1f :: u32"

definition bank_number :: "u32 \<Rightarrow> nat res" where
  "bank_number md =
     (if md = ARM_CPU_MODE_USR \<or> md = ARM_CPU_MODE_SYS then Inr 0
      else if md = ARM_CPU_MODE_SVC then Inr 1
      else if md = ARM_CPU_MODE_ABT then Inr 2
      else if md = ARM_CPU_MODE_UND then Inr 3
      else if md = ARM_CPU_MODE_IRQ then Inr 4
      else if md = ARM_CPU_MODE_FIQ then Inr 5
      else Inl (cpu_abort ''Bad mode''))"

text \<open>\<open>memcpy\<close> of five registers between \<open>regs + 8\<close> and a bank.\<close>

definition save_r8_r12 :: "(nat \<Rightarrow> u32) \<Rightarrow> nat \<Rightarrow> u32" where
  "save_r8_r12 rs i = rs (i + 8)"

definition load_r8_r12 :: "(nat \<Rightarrow> u32) \<Rightarrow> (nat \<Rightarrow> u32) \<Rightarrow> nat \<Rightarrow> u32" where
  "load_r8_r12 bank rs i = (if 8 \<le> i \<and> i < 13 then bank (i - 8) else rs i)"

definition swap_fiq :: "u32 \<Rightarrow> u32 \<Rightarrow> CPUARMState \<Rightarrow> CPUARMState" where
  "swap_fiq old_mode md env =
     (if old_mode = ARM_CPU_MODE_FIQ
      then env\<lparr>fiq_regs := save_r8_r12 (regs env), regs := load_r8_r12 (usr_regs env) (regs env)\<rparr>
      else if md = ARM_CPU_MODE_FIQ
      then env\<lparr>usr_regs := save_r8_r12 (regs env), regs := load_r8_r12 (fiq_regs env) (regs env)\<rparr>
      else env)"

definition switch_mode :: "CPUARMState \<Rightarrow> u32 \<Rightarrow> CPUARMState res" where
  "switch_mode env md =
     (let old_mode = uncached_cpsr env AND CPSR_M
      in if md = old_mode then Inr env
         else let env = swap_fiq old_mode md env
         in bindE (bank_number old_mode) (\<lambda>i.
            let env = env\<lparr>banked_r13 := (banked_r13 env)(i := regs env 13),
                          banked_r14 := (banked_r14 env)(i := regs env 14),
                          banked_spsr := (banked_spsr env)(i := spsr env)\<rparr>
            in bindE (bank_number md) (\<lambda>i.
               Inr (env\<lparr>regs := (regs env)(13 := banked_r13 env i, 14 := banked_r14 env i),
                        spsr := banked_spsr env i\<rparr>))))"

definition cpsr_write :: "CPUARMState \<Rightarrow> u32 \<Rightarrow> u32 \<Rightarrow> CPUARMState res" where
  "cpsr_write env val msk =
     (let env = write_flags CPSR_T val msk env;
          env = (if msk AND CPSR_GE \<noteq> 0 then env\<lparr>GE := drop_bit 16 val AND 0xf\<rparr> else env)
      in bindE (if (uncached_cpsr env XOR val) AND msk AND CPSR_M \<noteq> 0
                then switch_mode env (val AND CPSR_M) else Inr env) (\<lambda>env.
         let msk = msk AND NOT CACHED_CPSR_BITS
         in Inr (env\<lparr>uncached_cpsr := (uncached_cpsr env AND NOT msk) OR (val AND msk)\<rparr>)))"

definition set_r13_banked :: "CPUARMState \<Rightarrow> u32 \<Rightarrow> u32 \<Rightarrow> CPUARMState res" where
  "set_r13_banked env md val =
     (if uncached_cpsr env AND CPSR_M = md then Inr (set_reg 13 val env)
      else bindE (bank_number md) (\<lambda>i. Inr (env\<lparr>banked_r13 := (banked_r13 env)(i := val)\<rparr>)))"

definition get_r13_banked :: "CPUARMState \<Rightarrow> u32 \<Rightarrow> u32 res" where
  "get_r13_banked env md =
     (if uncached_cpsr env AND CPSR_M = md then Inr (regs env 13)
      else bindE (bank_number md) (\<lambda>i. Inr (banked_r13 env i)))"

section \<open>v7-M stacks and special registers\<close>

definition switch_v7m_sp :: "CPUARMState \<Rightarrow> bool \<Rightarrow> CPUARMState" where
  "switch_v7m_sp env process =
     (if current_sp env \<noteq> process
      then set_reg 13 (other_sp env) (env\<lparr>other_sp := regs env 13, current_sp := process\<rparr>)
      else env)"

definition v7m_mrs :: "CPUARMState \<Rightarrow> u32 \<Rightarrow> u32 res" where
  "v7m_mrs env reg =
     (if reg = 0 then Inr (xpsr_read env AND 0xf8000000)
      else if reg = 1 then Inr (xpsr_read env AND 0xf80001ff)
      else if reg = 2 then Inr (xpsr_read env AND 0xff00fc00)
      else if reg = 3 then Inr (xpsr_read env AND 0xff00fdff)
      else if reg = 5 then Inr (xpsr_read env AND 0x000001ff)
      else if reg = 6 then Inr (xpsr_read env AND 0x0700fc00)
      else if reg = 7 then Inr (xpsr_read env AND 0x0700edff)
      else if reg = 8 then Inr (if current_sp env then other_sp env else regs env 13)
      else if reg = 9 then Inr (if current_sp env then regs env 13 else other_sp env)
      else if reg = 16 then Inr (flag (uncached_cpsr env AND CPSR_I \<noteq> 0))
      else if reg = 17 \<or> reg = 18 then Inr (basepri env)
      else if reg = 19 then Inr (flag (uncached_cpsr env AND CPSR_F \<noteq> 0))
      else if reg = 20 then Inr (control env)
      else Inl (cpu_abort ''Unimplemented system register read''))"

definition v7m_msr :: "CPUARMState \<Rightarrow> u32 \<Rightarrow> u32 \<Rightarrow> CPUARMState res" where
  "v7m_msr env reg val =
     (if reg = 0 \<or> reg = 1 then Inr (xpsr_write env val 0xf8000000)
      else if reg = 2 \<or> reg = 3 then Inr (xpsr_write env val 0xfe00fc00)
      else if reg = 5 then Inr env
      else if reg = 6 \<or> reg = 7 then Inr (xpsr_write env val 0x0600fc00)
      else if reg = 8 then Inr (if current_sp env then env\<lparr>other_sp := val\<rparr> else set_reg 13 val env)
      else if reg = 9 then Inr (if current_sp env then set_reg 13 val env else env\<lparr>other_sp := val\<rparr>)
      else if reg = 16 then Inr (if val AND 1 \<noteq> 0
        then env\<lparr>uncached_cpsr := uncached_cpsr env OR CPSR_I\<rparr>
        else env\<lparr>uncached_cpsr := uncached_cpsr env AND NOT CPSR_I\<rparr>)
      else if reg = 17 then Inr (env\<lparr>basepri := val AND 0xff\<rparr>)
      else if reg = 18 then
        (let val = val AND 0xff
         in Inr (if val \<noteq> 0 \<and> (val < basepri env \<or> basepri env = 0) then env\<lparr>basepri := val\<rparr> else env))
      else if reg = 19 then Inr (if val AND 1 \<noteq> 0
        then env\<lparr>uncached_cpsr := uncached_cpsr env OR CPSR_F\<rparr>
        else env\<lparr>uncached_cpsr := uncached_cpsr env AND NOT CPSR_F\<rparr>)
      else if reg = 20 then Inr (switch_v7m_sp (env\<lparr>control := val AND 3\<rparr>) (val AND 2 \<noteq> 0))
      else Inl (cpu_abort ''Unimplemented system register write''))"

section \<open>Interrupt lines of the processor\<close>

abbreviation "CPU_INTERRUPT_HARD \<equiv> 0x0002 :: u32"
abbreviation "CPU_INTERRUPT_EXITTB \<equiv> 0x0004 :: u32"
abbreviation "CPU_INTERRUPT_FIQ \<equiv> 0x0010 :: u32"

text \<open>The effect on the CPU state; waking the thread of the CPU is not modelled.\<close>

definition cpu_interrupt :: "u32 \<Rightarrow> CPUARMState \<Rightarrow> CPUARMState" where
  "cpu_interrupt msk env = env\<lparr>interrupt_request := interrupt_request env OR msk\<rparr>"

definition cpu_reset_interrupt :: "u32 \<Rightarrow> CPUARMState \<Rightarrow> CPUARMState" where
  "cpu_reset_interrupt msk env = env\<lparr>interrupt_request := interrupt_request env AND NOT msk\<rparr>"

definition arm_pic_cpu_handler :: "int \<Rightarrow> int \<Rightarrow> CPUARMState \<Rightarrow> CPUARMState res" where
  "arm_pic_cpu_handler irq level env =
     (if irq = 0 then
        Inr (if level \<noteq> 0 then cpu_interrupt CPU_INTERRUPT_HARD env else cpu_reset_interrupt CPU_INTERRUPT_HARD env)
      else if irq = 1 then
        Inr (if level \<noteq> 0 then cpu_interrupt CPU_INTERRUPT_FIQ env else cpu_reset_interrupt CPU_INTERRUPT_FIQ env)
      else Inl (hw_error ''arm_pic_cpu_handler: Bad interrupt line''))"

section \<open>Writing and reading the status registers\<close>

definition blank_cpu :: CPUARMState where
  "blank_cpu = \<lparr>c0_cpuid = 0, regs = (\<lambda>_. 0), uncached_cpsr = 0x1f, spsr = 0, banked_spsr = (\<lambda>_. 0), banked_r13 = (\<lambda>_. 0),
     banked_r14 = (\<lambda>_. 0), usr_regs = (\<lambda>_. 0), fiq_regs = (\<lambda>_. 0), CF = 0, VF = 0, NF = 0, ZF = 0, QF = 0,
     GE = 0, thumb = 0, condexec_bits = 0, other_sp = 0, vecbase = 0, basepri = 0, control = 0,
     current_sp = False, v7m_exception = 0, exception_index = - 1, interrupt_request = 0\<rparr>"

text \<open>
  The flags as their comments in \<open>cpu.h\<close> describe them: C, Q and T are 0 or 1, GE has four
  bits, the IT state eight, the exception number nine, and the bits held in those fields are
  clear in \<open>uncached_cpsr\<close>.
\<close>

definition flags_ok :: "CPUARMState \<Rightarrow> bool" where
  "flags_ok env \<longleftrightarrow> CF env < 2 \<and> QF env < 2 \<and> thumb env < 2 \<and> GE env < 16 \<and> condexec_bits env < 256 \<and>
     0 \<le> v7m_exception env \<and> v7m_exception env < 512 \<and> uncached_cpsr env AND CACHED_CPSR_BITS = 0"

lemma blank_cpu_ok: "flags_ok blank_cpu"
  by (simp add: flags_ok_def blank_cpu_def)

lemma small_int_bit:
  fixes x :: int
  assumes "0 \<le> x" "x < 2 ^ k" "k \<le> n"
  shows "\<not> bit x n"
proof -
  have "take_bit k x = x" using assms(1,2) by (simp add: take_bit_int_eq_self)
  then show ?thesis using assms(3) by (metis bit_take_bit_iff not_le)
qed

lemma flag_bits:
  assumes "flags_ok env"
  shows "1 \<le> n \<Longrightarrow> \<not> bit (CF env) n" "1 \<le> n \<Longrightarrow> \<not> bit (QF env) n" "1 \<le> n \<Longrightarrow> \<not> bit (thumb env) n"
    "4 \<le> n \<Longrightarrow> \<not> bit (GE env) n" "8 \<le> n \<Longrightarrow> \<not> bit (condexec_bits env) n"
    "9 \<le> n \<Longrightarrow> \<not> bit (v7m_exception env) n"
    "bit CACHED_CPSR_BITS n \<Longrightarrow> \<not> bit (uncached_cpsr env) n"
proof -
  have b: "unat (CF env) < 2 ^ 1" "unat (QF env) < 2 ^ 1" "unat (thumb env) < 2 ^ 1" "unat (GE env) < 2 ^ 4"
    "unat (condexec_bits env) < 2 ^ 8"
    using assms by (simp_all add: flags_ok_def word_less_nat_alt)
  show "1 \<le> n \<Longrightarrow> \<not> bit (CF env) n" "1 \<le> n \<Longrightarrow> \<not> bit (QF env) n" "1 \<le> n \<Longrightarrow> \<not> bit (thumb env) n"
    "4 \<le> n \<Longrightarrow> \<not> bit (GE env) n" "8 \<le> n \<Longrightarrow> \<not> bit (condexec_bits env) n"
    using small_bit [OF b(1)] small_bit [OF b(2)] small_bit [OF b(3)] small_bit [OF b(4)] small_bit [OF b(5)] by auto
  show "9 \<le> n \<Longrightarrow> \<not> bit (v7m_exception env) n"
    using assms by (intro small_int_bit [of _ 9]) (simp_all add: flags_ok_def)
  have "\<not> bit (uncached_cpsr env AND CACHED_CPSR_BITS) n" using assms by (simp add: flags_ok_def)
  then show "bit CACHED_CPSR_BITS n \<Longrightarrow> \<not> bit (uncached_cpsr env) n" by (simp only: bit_and_iff) simp
qed

lemma xpsr_write_fields:
  "NF (xpsr_write env v m) = (if m AND CPSR_NZCV \<noteq> 0 then v else NF env)"
  "ZF (xpsr_write env v m) = (if m AND CPSR_NZCV \<noteq> 0 then NOT v AND CPSR_Z else ZF env)"
  "CF (xpsr_write env v m) = (if m AND CPSR_NZCV \<noteq> 0 then drop_bit 29 v AND 1 else CF env)"
  "VF (xpsr_write env v m) = (if m AND CPSR_NZCV \<noteq> 0 then push_bit 3 v AND 0x80000000 else VF env)"
  "QF (xpsr_write env v m) = (if m AND CPSR_Q \<noteq> 0 then flag (v AND CPSR_Q \<noteq> 0) else QF env)"
  "thumb (xpsr_write env v m) = (if m AND 0x1000000 \<noteq> 0 then flag (v AND 0x1000000 \<noteq> 0) else thumb env)"
  "condexec_bits (xpsr_write env v m) =
     ((if m AND CPSR_IT_2_7 \<noteq> 0 then drop_bit 8 v AND 0xfc else condexec_bits env AND NOT 3) OR
      (if m AND CPSR_IT_0_1 \<noteq> 0 then drop_bit 25 v AND 3 else condexec_bits env AND 3))"
  "v7m_exception (xpsr_write env v m) = (if m AND 0x1ff \<noteq> 0 then uint (v AND 0x1ff) else v7m_exception env)"
  subgoal by (simp add: xpsr_write_def write_flags_def)
  subgoal by (simp add: xpsr_write_def write_flags_def)
  subgoal by (simp add: xpsr_write_def write_flags_def)
  subgoal by (simp add: xpsr_write_def write_flags_def)
  subgoal by (simp add: xpsr_write_def write_flags_def)
  subgoal by (simp add: xpsr_write_def write_flags_def)
  subgoal by (simp add: xpsr_write_def write_flags_def) (intro conjI impI; rule u32_eqI; simp add: bit_simps)
  subgoal by (simp add: xpsr_write_def write_flags_def)
  done

text \<open>The bits of the status register that a write with a mask changes: whole groups.\<close>

definition xpsr_groups :: "u32 \<Rightarrow> u32" where
  "xpsr_groups m =
     (if m AND CPSR_NZCV \<noteq> 0 then CPSR_NZCV else 0) OR (if m AND CPSR_Q \<noteq> 0 then CPSR_Q else 0) OR
     (if m AND 0x1000000 \<noteq> 0 then 0x1000000 else 0) OR (if m AND CPSR_IT_0_1 \<noteq> 0 then CPSR_IT_0_1 else 0) OR
     (if m AND CPSR_IT_2_7 \<noteq> 0 then CPSR_IT_2_7 else 0) OR (if m AND 0x1ff \<noteq> 0 then 0x1ff else 0)"

lemma flag_bit: "bit (flag b) n \<longleftrightarrow> n = 0 \<and> b"
  by (simp add: flag_def bit_1_iff)

lemma and_bit_neq_0: "v AND CPSR_Q \<noteq> 0 \<longleftrightarrow> bit v 27" "v AND 0x1000000 \<noteq> 0 \<longleftrightarrow> bit v 24"
    "NOT v AND CPSR_Z = 0 \<longleftrightarrow> bit v 30" for v :: u32
  using and_2_power_eq_0_iff [of v 27] and_2_power_eq_0_iff [of v 24] and_2_power_eq_0_iff [of "NOT v" 30]
  by (simp_all add: bit_not_iff)

lemma bit_if: "bit (if c then x else y) n = (if c then bit x n else bit y n)"
  by simp

text \<open>
  C29: after a masked write of the program status register, reading it gives the written value
  in every flag group the mask touches and the old value elsewhere.
\<close>

theorem xpsr_write_read:
  assumes "flags_ok env"
  shows "xpsr_read (xpsr_write env v m) = (xpsr_read env AND NOT (xpsr_groups m)) OR (v AND xpsr_groups m)"
  unfolding xpsr_read_def xpsr_write_fields xpsr_groups_def and_bit_neq_0
  by (rule u32_eqI, simp add: bit_simps bit_if flag_bit flag_bits [OF assms] if_distrib [of "\<lambda>x. x = 0"] and_bit_neq_0
      cong: if_cong split del: if_split) (intro conjI; simp)

theorem xpsr_write_read_witness:
  "xpsr_read (xpsr_write blank_cpu 0xffffffff 0xf8000000) =
     (xpsr_read blank_cpu AND NOT (xpsr_groups 0xf8000000)) OR (0xffffffff AND xpsr_groups 0xf8000000)"
  by (rule xpsr_write_read [OF blank_cpu_ok])

lemma switch_mode_keeps:
  assumes "switch_mode env md = Inr env'"
  shows "NF env' = NF env" "ZF env' = ZF env" "CF env' = CF env" "VF env' = VF env" "QF env' = QF env" "GE env' = GE env"
    "thumb env' = thumb env" "condexec_bits env' = condexec_bits env" "uncached_cpsr env' = uncached_cpsr env"
    "v7m_exception env' = v7m_exception env"
  using assms by (auto simp: switch_mode_def Let_def swap_fiq_def split: if_splits)

definition cpsr_flags :: "CPUARMState \<Rightarrow> u32 \<Rightarrow> u32 \<Rightarrow> CPUARMState" where
  "cpsr_flags env v m =
     (let env = write_flags CPSR_T v m env
      in if m AND CPSR_GE \<noteq> 0 then env\<lparr>GE := drop_bit 16 v AND 0xf\<rparr> else env)"

lemma cpsr_flags_fields:
  "NF (cpsr_flags env v m) = (if m AND CPSR_NZCV \<noteq> 0 then v else NF env)"
  "ZF (cpsr_flags env v m) = (if m AND CPSR_NZCV \<noteq> 0 then NOT v AND CPSR_Z else ZF env)"
  "CF (cpsr_flags env v m) = (if m AND CPSR_NZCV \<noteq> 0 then drop_bit 29 v AND 1 else CF env)"
  "VF (cpsr_flags env v m) = (if m AND CPSR_NZCV \<noteq> 0 then push_bit 3 v AND 0x80000000 else VF env)"
  "QF (cpsr_flags env v m) = (if m AND CPSR_Q \<noteq> 0 then flag (v AND CPSR_Q \<noteq> 0) else QF env)"
  "thumb (cpsr_flags env v m) = (if m AND CPSR_T \<noteq> 0 then flag (v AND CPSR_T \<noteq> 0) else thumb env)"
  "condexec_bits (cpsr_flags env v m) =
     ((if m AND CPSR_IT_2_7 \<noteq> 0 then drop_bit 8 v AND 0xfc else condexec_bits env AND NOT 3) OR
      (if m AND CPSR_IT_0_1 \<noteq> 0 then drop_bit 25 v AND 3 else condexec_bits env AND 3))"
  "GE (cpsr_flags env v m) = (if m AND CPSR_GE \<noteq> 0 then drop_bit 16 v AND 0xf else GE env)"
  "uncached_cpsr (cpsr_flags env v m) = uncached_cpsr env"
  subgoal by (simp add: cpsr_flags_def write_flags_def)
  subgoal by (simp add: cpsr_flags_def write_flags_def)
  subgoal by (simp add: cpsr_flags_def write_flags_def)
  subgoal by (simp add: cpsr_flags_def write_flags_def)
  subgoal by (simp add: cpsr_flags_def write_flags_def)
  subgoal by (simp add: cpsr_flags_def write_flags_def)
  subgoal by (simp add: cpsr_flags_def write_flags_def) (intro conjI impI; rule u32_eqI; simp add: bit_simps)
  subgoal by (simp add: cpsr_flags_def write_flags_def)
  subgoal by (simp add: cpsr_flags_def write_flags_def)
  done

lemma cpsr_write_eq:
  "cpsr_write env v m =
     bindE (if (uncached_cpsr env XOR v) AND m AND CPSR_M \<noteq> 0 then switch_mode (cpsr_flags env v m) (v AND CPSR_M)
            else Inr (cpsr_flags env v m))
       (\<lambda>env. Inr (env\<lparr>uncached_cpsr := (uncached_cpsr env AND NOT (m AND NOT CACHED_CPSR_BITS)) OR
                                      (v AND (m AND NOT CACHED_CPSR_BITS))\<rparr>))"
  using cpsr_flags_fields(9) [of env v m] unfolding cpsr_write_def cpsr_flags_def Let_def by simp

definition cpsr_groups :: "u32 \<Rightarrow> u32" where
  "cpsr_groups m =
     (m AND NOT CACHED_CPSR_BITS) OR (if m AND CPSR_NZCV \<noteq> 0 then CPSR_NZCV else 0) OR
     (if m AND CPSR_Q \<noteq> 0 then CPSR_Q else 0) OR (if m AND CPSR_T \<noteq> 0 then CPSR_T else 0) OR
     (if m AND CPSR_IT_0_1 \<noteq> 0 then CPSR_IT_0_1 else 0) OR (if m AND CPSR_IT_2_7 \<noteq> 0 then CPSR_IT_2_7 else 0) OR
     (if m AND CPSR_GE \<noteq> 0 then CPSR_GE else 0)"

lemma and_T_neq_0: "v AND CPSR_T \<noteq> 0 \<longleftrightarrow> bit v 5" for v :: u32
  using and_2_power_eq_0_iff [of v 5] by simp

text \<open>
  C30: a write of CPSR that does not hit an invalid mode reads back the written value in the
  flag groups its mask touches and in the masked control bits, mode included, and the old
  value elsewhere.
\<close>

theorem cpsr_write_read:
  assumes "flags_ok env" "cpsr_write env v m = Inr env'"
  shows "cpsr_read env' = (cpsr_read env AND NOT (cpsr_groups m)) OR (v AND cpsr_groups m)"
proof -
  obtain e where e: "env' = e\<lparr>uncached_cpsr := (uncached_cpsr e AND NOT (m AND NOT CACHED_CPSR_BITS)) OR
      (v AND (m AND NOT CACHED_CPSR_BITS))\<rparr>"
    and "e = cpsr_flags env v m \<or> switch_mode (cpsr_flags env v m) (v AND CPSR_M) = Inr e"
    using assms(2) unfolding cpsr_write_eq by (auto split: if_splits)
  then have f: "NF env' = NF (cpsr_flags env v m)" "ZF env' = ZF (cpsr_flags env v m)" "CF env' = CF (cpsr_flags env v m)"
    "VF env' = VF (cpsr_flags env v m)" "QF env' = QF (cpsr_flags env v m)" "GE env' = GE (cpsr_flags env v m)"
    "thumb env' = thumb (cpsr_flags env v m)" "condexec_bits env' = condexec_bits (cpsr_flags env v m)"
    "uncached_cpsr env' = (uncached_cpsr (cpsr_flags env v m) AND NOT (m AND NOT CACHED_CPSR_BITS)) OR
      (v AND (m AND NOT CACHED_CPSR_BITS))"
    by (auto dest: switch_mode_keeps)
  show ?thesis
    unfolding cpsr_read_def cpsr_groups_def f cpsr_flags_fields and_bit_neq_0 and_T_neq_0
    by (rule u32_eqI, simp add: bit_simps bit_if flag_bit flag_bits [OF assms(1)] if_distrib [of "\<lambda>x. x = 0"] and_bit_neq_0
        and_T_neq_0 cong: if_cong split del: if_split) (intro conjI; simp)
qed

theorem cpsr_write_read_witness:
  "\<exists>env'. cpsr_write blank_cpu 0x600000d2 0xffffffff = Inr env' \<and> cpsr_read env' = 0x600000d2"
proof -
  have m: "bank_number 18 = Inr 4" "bank_number 31 = Inr 0" by (simp_all add: bank_number_def)
  obtain env' where w: "cpsr_write blank_cpu 0x600000d2 0xffffffff = Inr env'"
    by (simp add: cpsr_write_eq cpsr_flags_fields switch_mode_def m blank_cpu_def Let_def)
  moreover have "cpsr_groups 0xffffffff = 0xffffffff" by (simp add: cpsr_groups_def)
  moreover have "cpsr_read blank_cpu = 0x4000001f" by (simp add: cpsr_read_def blank_cpu_def flag_def)
  ultimately show ?thesis using cpsr_write_read [OF blank_cpu_ok w] by simp
qed

lemma switch_mode_same: "uncached_cpsr env AND CPSR_M = md \<Longrightarrow> switch_mode env md = Inr env"
  by (simp add: switch_mode_def)

lemma switch_mode_eq:
  assumes "uncached_cpsr env AND CPSR_M = old" "old \<noteq> md" "bank_number old = Inr i" "bank_number md = Inr j"
  shows "switch_mode env md = Inr (let e = swap_fiq old md env in
    e\<lparr>banked_r13 := (banked_r13 e)(i := regs e 13), banked_r14 := (banked_r14 e)(i := regs e 14),
      banked_spsr := (banked_spsr e)(i := spsr e),
      regs := (regs e)(13 := ((banked_r13 e)(i := regs e 13)) j, 14 := ((banked_r14 e)(i := regs e 14)) j),
      spsr := ((banked_spsr e)(i := spsr e)) j\<rparr>)"
  using assms by (simp add: switch_mode_def Let_def)

text \<open>
  Switching to another valid mode and back restores every register the program sees, the
  saved status register included, also across FIQ mode with its own r8 to r12.
\<close>

theorem switch_mode_back:
  assumes "switch_mode env md = Inr env1" "md AND CPSR_M = md"
    and "switch_mode (env1\<lparr>uncached_cpsr := (uncached_cpsr env1 AND NOT CPSR_M) OR md\<rparr>) (uncached_cpsr env AND CPSR_M) = Inr env2"
  shows "spsr env2 = spsr env \<and> (\<forall>i. regs env2 i = regs env i)"
proof -
  define old where "old = uncached_cpsr env AND CPSR_M"
  have k: "uncached_cpsr env1 = uncached_cpsr env" using assms(1) by (rule switch_mode_keeps)
  have "((uncached_cpsr env AND NOT CPSR_M) OR md) AND CPSR_M = md AND CPSR_M"
    by (rule u32_eqI) (simp add: bit_simps)
  then have md: "((uncached_cpsr env1 AND NOT CPSR_M) OR md) AND CPSR_M = md" unfolding k assms(2) .
  show ?thesis
  proof (cases "md = old")
    case True
    then have "env1 = env" using assms(1) switch_mode_same [OF old_def [symmetric]] by simp
    moreover have "env2 = env1\<lparr>uncached_cpsr := (uncached_cpsr env1 AND NOT CPSR_M) OR md\<rparr>"
      using assms(3) switch_mode_same [of "env1\<lparr>uncached_cpsr := (uncached_cpsr env1 AND NOT CPSR_M) OR md\<rparr>" md] md True
      unfolding old_def [symmetric] by simp
    ultimately show ?thesis by simp
  next
    case False
    then obtain i j where ij: "bank_number old = Inr i" "bank_number md = Inr j"
      using assms(1) by (auto simp: switch_mode_def Let_def old_def [symmetric] elim!: bindE_InrE)
    note e1 = assms(1) [unfolded switch_mode_eq [OF old_def [symmetric] False [symmetric] ij], simplified, symmetric]
    have e2: "env2 = (let e = swap_fiq md old (env1\<lparr>uncached_cpsr := (uncached_cpsr env1 AND NOT CPSR_M) OR md\<rparr>) in
        e\<lparr>banked_r13 := (banked_r13 e)(j := regs e 13), banked_r14 := (banked_r14 e)(j := regs e 14),
          banked_spsr := (banked_spsr e)(j := spsr e),
          regs := (regs e)(13 := ((banked_r13 e)(j := regs e 13)) i, 14 := ((banked_r14 e)(j := regs e 14)) i),
          spsr := ((banked_spsr e)(j := spsr e)) i\<rparr>)"
      using assms(3) switch_mode_eq [OF _ False ij(2,1), of "env1\<lparr>uncached_cpsr := (uncached_cpsr env1 AND NOT CPSR_M) OR md\<rparr>"] md
      unfolding old_def [symmetric] by simp
    have "old = ARM_CPU_MODE_FIQ \<or> md = ARM_CPU_MODE_FIQ \<or> old \<noteq> ARM_CPU_MODE_FIQ \<and> md \<noteq> ARM_CPU_MODE_FIQ" by blast
    then show ?thesis using False unfolding e2 e1 Let_def
      by (elim disjE conjE; cases "i = j"; simp add: swap_fiq_def load_r8_r12_def save_r8_r12_def)
  qed
qed

theorem switch_mode_back_witness:
  "\<exists>env1 env2. switch_mode blank_cpu ARM_CPU_MODE_FIQ = Inr env1 \<and>
     switch_mode (env1\<lparr>uncached_cpsr := (uncached_cpsr env1 AND NOT CPSR_M) OR ARM_CPU_MODE_FIQ\<rparr>) ARM_CPU_MODE_SYS = Inr env2 \<and>
     regs env2 13 = regs blank_cpu 13"
proof -
  have m: "bank_number 0x11 = Inr 5" "bank_number 0x1f = Inr 0" by (simp_all add: bank_number_def)
  have u: "uncached_cpsr blank_cpu AND CPSR_M = ARM_CPU_MODE_SYS" by (simp add: blank_cpu_def)
  obtain env1 where 1: "switch_mode blank_cpu ARM_CPU_MODE_FIQ = Inr env1"
    using switch_mode_eq [OF u _ m(2,1)] by simp
  then have "uncached_cpsr env1 = 0x1f" using switch_mode_keeps(9) by (fastforce simp: blank_cpu_def)
  then obtain env2 where 2: "switch_mode (env1\<lparr>uncached_cpsr := (uncached_cpsr env1 AND NOT CPSR_M) OR ARM_CPU_MODE_FIQ\<rparr>)
      ARM_CPU_MODE_SYS = Inr env2"
    using switch_mode_eq [of "env1\<lparr>uncached_cpsr := (uncached_cpsr env1 AND NOT CPSR_M) OR ARM_CPU_MODE_FIQ\<rparr>" _ _ 5 0] m by auto
  have "spsr env2 = spsr blank_cpu \<and> (\<forall>i. regs env2 i = regs blank_cpu i)"
    by (rule switch_mode_back [of blank_cpu ARM_CPU_MODE_FIQ env1 env2]) (simp_all only: 1 2 u, simp)
  then show ?thesis using 1 2 by blast
qed

text \<open>
  Each v7-M stack pointer and priority mask written with MSR reads back with MRS, whichever
  stack is in use: both stack pointers, PRIMASK, BASEPRI, FAULTMASK and CONTROL.
\<close>

theorem msr_mrs:
  "bindE (v7m_msr env 8 v) (\<lambda>e. v7m_mrs e 8) = Inr v \<and>
   bindE (v7m_msr env 9 v) (\<lambda>e. v7m_mrs e 9) = Inr v \<and>
   bindE (v7m_msr env 8 v) (\<lambda>e. v7m_mrs e 9) = v7m_mrs env 9 \<and>
   bindE (v7m_msr env 9 v) (\<lambda>e. v7m_mrs e 8) = v7m_mrs env 8 \<and>
   bindE (v7m_msr env 16 v) (\<lambda>e. v7m_mrs e 16) = Inr (v AND 1) \<and>
   bindE (v7m_msr env 17 v) (\<lambda>e. v7m_mrs e 17) = Inr (v AND 0xff) \<and>
   bindE (v7m_msr env 19 v) (\<lambda>e. v7m_mrs e 19) = Inr (v AND 1) \<and>
   bindE (v7m_msr env 20 v) (\<lambda>e. v7m_mrs e 20) = Inr (v AND 3) \<and>
   bindE (v7m_msr env 20 v) (\<lambda>e. v7m_mrs e 8) = v7m_mrs env 8 \<and>
   bindE (v7m_msr env 20 v) (\<lambda>e. v7m_mrs e 9) = v7m_mrs env 9"
proof -
  have i: "(u OR CPSR_I) AND CPSR_I \<noteq> 0" "(u OR CPSR_F) AND CPSR_F \<noteq> 0" for u :: u32
    using and_2_power_eq_0_iff [of _ 7] and_2_power_eq_0_iff [of _ 6] by (simp_all add: bit_simps)
  have j: "(u AND - 129) AND CPSR_I = 0" "(u AND - 65) AND CPSR_F = 0" for u :: u32
    by (simp_all add: and.assoc)
  have f: "flag (v AND 1 \<noteq> 0) = v AND 1"
    using and_2_power_eq_0_iff [of v 0] by (auto simp: flag_def intro!: bit_word_eqI simp: bit_simps)
  have g: "v AND 1 \<noteq> 0 \<Longrightarrow> v AND 1 = 1" using f by (auto simp: flag_def)
  show ?thesis
    by (intro conjI) (auto simp: v7m_msr_def v7m_mrs_def set_reg_def switch_v7m_sp_def i j g flag_def)
qed

text \<open>
  BASEPRI_MAX only ever raises the priority mask: writing it leaves BASEPRI at the more
  urgent of the old and the new level, where 0 means no mask.
\<close>

theorem basepri_max_tightens:
  "bindE (v7m_msr env 18 v) (\<lambda>e. v7m_mrs e 17) =
     Inr (if v AND 0xff = 0 then basepri env else if basepri env = 0 then v AND 0xff else min (basepri env) (v AND 0xff))"
  by (auto simp: v7m_msr_def v7m_mrs_def Let_def min_def not_less)

text \<open>
  MRS of IEPSR does not return one bit of the IT state (bit 12) that MRS of EPSR and of
  XPSR return.
\<close>

theorem iepsr_misses_a_bit:
  "v7m_mrs (blank_cpu\<lparr>condexec_bits := 0x10\<rparr>) 6 = Inr 0x1000 \<and> v7m_mrs (blank_cpu\<lparr>condexec_bits := 0x10\<rparr>) 7 = Inr 0"
  by (simp add: v7m_mrs_def xpsr_read_def blank_cpu_def flag_def)

end
