(* ===== verification/Qemu_Timer.thy ===== *)
theory Qemu_Timer
  imports Prelude
begin

text \<open>
  The timers of \<open>qemu-timer.c\<close>: three clocks, each with a list of active timers sorted by
  expiry time, the arming, disarming and running of timers, and the deadline handed to the
  host's alarm. A list of timer identifiers stands for the \<open>next\<close> pointers. Times are
  \<open>int64_t\<close> values kept as integers, with the wrap-around of products and differences
  written out (\<open>s64\<close>). What the host's clocks read is part of the state; what the code does
  to the host (re-arming the alarm, warping the clock, notifying the main loop) is recorded.
\<close>

section \<open>State\<close>

definition s64 :: "int \<Rightarrow> int" where
  "s64 x = signed_take_bit 63 x"

definition INT32_MAX :: int where "INT32_MAX = 2 ^ 31 - 1"
definition INT64_MIN :: int where "INT64_MIN = - (2 ^ 63)"

datatype clock_type = QEMU_CLOCK_REALTIME | QEMU_CLOCK_VIRTUAL | QEMU_CLOCK_HOST

record QEMUClock =
  clock_enabled :: bool
  active_timers :: "nat list"
  clock_last :: int

record QEMUTimer =
  timer_clock :: clock_type
  expire_time :: int
  timer_scale :: int

datatype host_event =
    alarm_rearm int
  | clock_warp clock_type
  | notify_event
  | clock_reset_notify int

record timer_state =
  clocks :: "clock_type \<Rightarrow> QEMUClock"
  timers :: "nat \<Rightarrow> QEMUTimer"
  alarm_has_dynticks :: bool
  alarm_pending :: bool
  alarm_expired :: bool
  use_icount :: bool
  clock_reads :: "clock_type \<Rightarrow> int"
  host_events :: "host_event list"

definition upd_clock :: "clock_type \<Rightarrow> (QEMUClock \<Rightarrow> QEMUClock) \<Rightarrow> timer_state \<Rightarrow> timer_state" where
  "upd_clock c f s = s\<lparr>clocks := (clocks s)(c := f (clocks s c))\<rparr>"

definition upd_timer :: "nat \<Rightarrow> (QEMUTimer \<Rightarrow> QEMUTimer) \<Rightarrow> timer_state \<Rightarrow> timer_state" where
  "upd_timer i f s = s\<lparr>timers := (timers s)(i := f (timers s i))\<rparr>"

definition host :: "host_event \<Rightarrow> timer_state \<Rightarrow> timer_state" where
  "host e s = s\<lparr>host_events := host_events s @ [e]\<rparr>"

abbreviation active :: "timer_state \<Rightarrow> clock_type \<Rightarrow> nat list" where
  "active s c \<equiv> active_timers (clocks s c)"

section \<open>Clocks\<close>

definition qemu_new_clock :: QEMUClock where
  "qemu_new_clock = \<lparr>clock_enabled = True, active_timers = [], clock_last = INT64_MIN\<rparr>"

definition init_clocks :: "timer_state \<Rightarrow> timer_state" where
  "init_clocks s = s\<lparr>clocks := (\<lambda>_. qemu_new_clock)\<rparr>"

definition qemu_get_clock_ns :: "clock_type \<Rightarrow> timer_state \<Rightarrow> int \<times> timer_state" where
  "qemu_get_clock_ns c s =
     (let now = clock_reads s c
      in if c = QEMU_CLOCK_HOST
         then let last = clock_last (clocks s c);
                  s = upd_clock c (\<lambda>k. k\<lparr>clock_last := now\<rparr>) s
              in (now, if now < last then host (clock_reset_notify now) s else s)
         else (now, s))"

definition head_expire :: "clock_type \<Rightarrow> timer_state \<Rightarrow> int option" where
  "head_expire c s = (case active s c of [] \<Rightarrow> None | t # ts \<Rightarrow> Some (expire_time (timers s t)))"

text \<open>The part of \<open>qemu_next_alarm_deadline\<close> for one clock.\<close>

definition min_delta :: "clock_type \<Rightarrow> int \<times> timer_state \<Rightarrow> int \<times> timer_state" where
  "min_delta c = (\<lambda>(delta, s).
     case head_expire c s of
       None \<Rightarrow> (delta, s)
     | Some e \<Rightarrow> (case qemu_get_clock_ns c s of (now, s) \<Rightarrow>
         let d = s64 (e - now) in (if d < delta then d else delta, s)))"

definition qemu_next_alarm_deadline :: "timer_state \<Rightarrow> int \<times> timer_state" where
  "qemu_next_alarm_deadline s =
     (let (delta, s) =
        (case head_expire QEMU_CLOCK_VIRTUAL s of
           Some e \<Rightarrow> if \<not> use_icount s
             then (case qemu_get_clock_ns QEMU_CLOCK_VIRTUAL s of (now, s) \<Rightarrow> (s64 (e - now), s))
             else (INT32_MAX, s)
         | None \<Rightarrow> (INT32_MAX, s))
      in min_delta QEMU_CLOCK_REALTIME (min_delta QEMU_CLOCK_HOST (delta, s)))"

definition qemu_rearm_alarm_timer :: "timer_state \<Rightarrow> timer_state res" where
  "qemu_rearm_alarm_timer s =
     (if \<not> alarm_has_dynticks s then Inl (assert_failed ''alarm_has_dynticks(t)'')
      else if active s QEMU_CLOCK_REALTIME = [] \<and> active s QEMU_CLOCK_VIRTUAL = [] \<and> active s QEMU_CLOCK_HOST = []
      then Inr s
      else case qemu_next_alarm_deadline s of (d, s) \<Rightarrow> Inr (host (alarm_rearm d) s))"

definition qemu_clock_enable :: "clock_type \<Rightarrow> bool \<Rightarrow> timer_state \<Rightarrow> timer_state res" where
  "qemu_clock_enable c enabled s =
     (let old = clock_enabled (clocks s c);
          s = upd_clock c (\<lambda>k. k\<lparr>clock_enabled := enabled\<rparr>) s
      in if enabled \<and> \<not> old then qemu_rearm_alarm_timer s else Inr s)"

definition qemu_clock_has_timers :: "clock_type \<Rightarrow> timer_state \<Rightarrow> bool" where
  "qemu_clock_has_timers c s \<longleftrightarrow> active s c \<noteq> []"

definition qemu_clock_expired :: "clock_type \<Rightarrow> timer_state \<Rightarrow> bool \<times> timer_state" where
  "qemu_clock_expired c s =
     (case head_expire c s of
        None \<Rightarrow> (False, s)
      | Some e \<Rightarrow> (case qemu_get_clock_ns c s of (now, s) \<Rightarrow> (e < now, s)))"

definition qemu_clock_deadline :: "clock_type \<Rightarrow> timer_state \<Rightarrow> int \<times> timer_state" where
  "qemu_clock_deadline c s =
     (let (delta, s) =
        (case head_expire c s of
           None \<Rightarrow> (INT32_MAX, s)
         | Some e \<Rightarrow> (case qemu_get_clock_ns c s of (now, s) \<Rightarrow> (s64 (e - now), s)))
      in (if delta < 0 then 0 else delta, s))"

section \<open>Timers\<close>

definition qemu_timer_expired_ns :: "timer_state \<Rightarrow> nat list \<Rightarrow> int \<Rightarrow> bool" where
  "qemu_timer_expired_ns s timer_head current_time =
     (case timer_head of [] \<Rightarrow> False | t # ts \<Rightarrow> expire_time (timers s t) \<le> current_time)"

definition qemu_new_timer :: "nat \<Rightarrow> clock_type \<Rightarrow> int \<Rightarrow> timer_state \<Rightarrow> timer_state" where
  "qemu_new_timer i c scale = upd_timer i (\<lambda>_. \<lparr>timer_clock = c, expire_time = 0, timer_scale = scale\<rparr>)"

fun unlink :: "nat \<Rightarrow> nat list \<Rightarrow> nat list" where
  "unlink ts [] = []"
| "unlink ts (t # rest) = (if t = ts then rest else t # unlink ts rest)"

definition qemu_del_timer :: "nat \<Rightarrow> timer_state \<Rightarrow> timer_state" where
  "qemu_del_timer ts s =
     upd_clock (timer_clock (timers s ts)) (\<lambda>k. k\<lparr>active_timers := unlink ts (active_timers k)\<rparr>) s"

fun link :: "timer_state \<Rightarrow> nat \<Rightarrow> int \<Rightarrow> nat list \<Rightarrow> nat list" where
  "link s ts e [] = [ts]"
| "link s ts e (t # rest) =
     (if \<not> qemu_timer_expired_ns s (t # rest) e then ts # t # rest else t # link s ts e rest)"

definition qemu_clock_warp :: "clock_type \<Rightarrow> timer_state \<Rightarrow> timer_state" where
  "qemu_clock_warp c s = (if c \<noteq> QEMU_CLOCK_VIRTUAL \<or> \<not> use_icount s then s else host (clock_warp c) s)"

definition qemu_mod_timer_ns :: "nat \<Rightarrow> int \<Rightarrow> timer_state \<Rightarrow> timer_state res" where
  "qemu_mod_timer_ns ts e s =
     (let s = qemu_del_timer ts s;
          c = timer_clock (timers s ts);
          at_head = (\<not> qemu_timer_expired_ns s (active s c) e);
          s = upd_timer ts (\<lambda>t. t\<lparr>expire_time := e\<rparr>)
                (upd_clock c (\<lambda>k. k\<lparr>active_timers := link s ts e (active_timers k)\<rparr>) s)
      in if at_head
         then bindE (if \<not> alarm_pending s then qemu_rearm_alarm_timer s else Inr s) (\<lambda>s.
              let s = qemu_clock_warp c s
              in Inr (if use_icount s then host notify_event s else s))
         else Inr s)"

definition qemu_mod_timer :: "nat \<Rightarrow> int \<Rightarrow> timer_state \<Rightarrow> timer_state res" where
  "qemu_mod_timer ts e s = qemu_mod_timer_ns ts (s64 (e * timer_scale (timers s ts))) s"

definition qemu_timer_pending :: "nat \<Rightarrow> timer_state \<Rightarrow> bool" where
  "qemu_timer_pending ts s \<longleftrightarrow> ts \<in> set (active s (timer_clock (timers s ts)))"

definition qemu_timer_expired :: "nat list \<Rightarrow> int \<Rightarrow> timer_state \<Rightarrow> bool" where
  "qemu_timer_expired timer_head current_time s \<longleftrightarrow>
     qemu_timer_expired_ns s timer_head (s64 (current_time * timer_scale (timers s (hd timer_head))))"

definition qemu_timer_expire_time_ns :: "nat \<Rightarrow> timer_state \<Rightarrow> u64" where
  "qemu_timer_expire_time_ns ts s =
     (if qemu_timer_pending ts s then word_of_int (expire_time (timers s ts)) else - 1)"

text \<open>
  The callbacks act on the timers and on the rest of the machine \<open>'w\<close>. They may arm timers,
  so the loop is given fuel.
\<close>

fun run_expired ::
  "nat \<Rightarrow> (nat \<Rightarrow> timer_state \<times> 'w \<Rightarrow> (timer_state \<times> 'w) res) \<Rightarrow> clock_type \<Rightarrow> int \<Rightarrow>
    timer_state \<times> 'w \<Rightarrow> (timer_state \<times> 'w) res" where
  "run_expired 0 cb c current_time s = Inl (no_termination ''qemu_run_timers'')"
| "run_expired (Suc n) cb c current_time (s, w) =
     (if \<not> qemu_timer_expired_ns s (active s c) current_time then Inr (s, w)
      else bindE (cb (hd (active s c)) (upd_clock c (\<lambda>k. k\<lparr>active_timers := tl (active_timers k)\<rparr>) s, w))
             (run_expired n cb c current_time))"

definition qemu_run_timers ::
  "nat \<Rightarrow> (nat \<Rightarrow> timer_state \<times> 'w \<Rightarrow> (timer_state \<times> 'w) res) \<Rightarrow> clock_type \<Rightarrow>
    timer_state \<times> 'w \<Rightarrow> (timer_state \<times> 'w) res" where
  "qemu_run_timers n cb c = (\<lambda>(s, w).
     if \<not> clock_enabled (clocks s c) then Inr (s, w)
     else case qemu_get_clock_ns c s of (now, s) \<Rightarrow> run_expired n cb c now (s, w))"

definition qemu_run_all_timers ::
  "nat \<Rightarrow> (nat \<Rightarrow> timer_state \<times> 'w \<Rightarrow> (timer_state \<times> 'w) res) \<Rightarrow>
    timer_state \<times> 'w \<Rightarrow> (timer_state \<times> 'w) res" where
  "qemu_run_all_timers n cb = (\<lambda>(s, w).
     bindE (if alarm_expired s
            then qemu_rearm_alarm_timer (s\<lparr>alarm_pending := False, alarm_expired := False\<rparr>)
            else Inr (s\<lparr>alarm_pending := False\<rparr>)) (\<lambda>s.
     bindE (qemu_run_timers n cb QEMU_CLOCK_VIRTUAL (s, w)) (\<lambda>sw.
     bindE (qemu_run_timers n cb QEMU_CLOCK_REALTIME sw) (qemu_run_timers n cb QEMU_CLOCK_HOST))))"

section \<open>The queues are sorted\<close>

definition queue_sorted :: "timer_state \<Rightarrow> nat list \<Rightarrow> bool" where
  "queue_sorted s q \<longleftrightarrow> sorted (map (\<lambda>t. expire_time (timers s t)) q)"

definition timers_ok :: "timer_state \<Rightarrow> bool" where
  "timers_ok s \<longleftrightarrow> (\<forall>c. distinct (active s c) \<and> queue_sorted s (active s c) \<and>
     (\<forall>t\<in>set (active s c). timer_clock (timers s t) = c))"

text \<open>When each timer fires, if it is armed.\<close>

definition expires :: "timer_state \<Rightarrow> nat \<Rightarrow> int option" where
  "expires s t = (if qemu_timer_pending t s then Some (expire_time (timers s t)) else None)"

lemma upd_clock_same: "upd_clock c (\<lambda>k. k\<lparr>active_timers := active s c\<rparr>) s = s"
proof -
  have "(clocks s c)\<lparr>active_timers := active s c\<rparr> = clocks s c" by (cases "clocks s c") simp
  then show ?thesis by (simp add: upd_clock_def)
qed

lemma unlink_remove1: "unlink t q = remove1 t q"
  by (induction q) auto

lemma set_link [simp]: "set (link s t e q) = insert t (set q)"
  by (induction q) auto

lemma distinct_link: "t \<notin> set q \<Longrightarrow> distinct q \<Longrightarrow> distinct (link s t e q)"
  by (induction q) auto

lemma link_eq: "link s t e q = takeWhile (\<lambda>u. expire_time (timers s u) \<le> e) q @ t # dropWhile (\<lambda>u. expire_time (timers s u) \<le> e) q"
  by (induction q) (auto simp: qemu_timer_expired_ns_def)

lemma sorted_link:
  assumes "sorted (map f q)" "f t = e" "\<And>u. u \<in> set q \<Longrightarrow> f u = expire_time (timers s u)"
  shows "sorted (map f (link s t e q))"
  using assms by (induction q) (auto simp: qemu_timer_expired_ns_def)

definition same_timers :: "timer_state \<Rightarrow> timer_state \<Rightarrow> bool" where
  "same_timers s t \<longleftrightarrow> (\<forall>c. active t c = active s c) \<and> timers t = timers s \<and>
     clock_reads t = clock_reads s \<and> (\<forall>c. clock_enabled (clocks t c) = clock_enabled (clocks s c))"

lemma same_timers_refl [simp]: "same_timers s s"
  by (simp add: same_timers_def)

lemma same_timers_host [simp]: "same_timers s (host e t) \<longleftrightarrow> same_timers s t"
  by (simp add: same_timers_def host_def)

lemma get_clock [simp]:
  "fst (qemu_get_clock_ns c s) = clock_reads s c"
  "same_timers r s \<Longrightarrow> same_timers r (snd (qemu_get_clock_ns c s))"
  by (auto simp: qemu_get_clock_ns_def Let_def same_timers_def upd_clock_def host_def)

lemma min_delta_frame: "same_timers r (snd p) \<Longrightarrow> same_timers r (snd (min_delta c p))"
  by (cases p) (auto simp: min_delta_def Let_def case_prod_unfold split: option.splits)

lemma next_deadline_frame: "same_timers s (snd (qemu_next_alarm_deadline s))"
  by (auto simp: qemu_next_alarm_deadline_def Let_def case_prod_unfold intro!: min_delta_frame split: option.splits)

lemma rearm_frame: "qemu_rearm_alarm_timer s = Inr t \<Longrightarrow> same_timers s t"
  using next_deadline_frame [of s]
  by (auto simp: qemu_rearm_alarm_timer_def case_prod_unfold split: if_splits)

lemma expires_cong: "same_timers s t \<Longrightarrow> expires t = expires s"
  by (auto simp: same_timers_def expires_def qemu_timer_pending_def)

lemma timers_ok_cong: "same_timers s t \<Longrightarrow> timers_ok s \<Longrightarrow> timers_ok t"
  by (auto simp: same_timers_def timers_ok_def queue_sorted_def)

lemma timers_okD:
  assumes "timers_ok s"
  shows "distinct (active s c)" "queue_sorted s (active s c)" "t \<in> set (active s c) \<Longrightarrow> timer_clock (timers s t) = c"
  using assms by (simp_all add: timers_ok_def)

lemma sorted_remove1_map: "sorted (map f q) \<Longrightarrow> sorted (map (f :: nat \<Rightarrow> int) (remove1 i q))"
  by (induction q) (auto dest: notin_set_remove1)

lemma del_timer_simps:
  "active (qemu_del_timer i s) k =
     (if k = timer_clock (timers s i) then remove1 i (active s k) else active s k)"
  "timers (qemu_del_timer i s) = timers s"
  by (simp_all add: qemu_del_timer_def upd_clock_def unlink_remove1)

lemma del_timer_ok:
  assumes "timers_ok s"
  shows "timers_ok (qemu_del_timer i s)" "expires (qemu_del_timer i s) = (expires s)(i := None)"
    "i \<notin> set (active (qemu_del_timer i s) c)"
proof -
  note ok = timers_okD [OF assms]
  have "queue_sorted (qemu_del_timer i s) (active (qemu_del_timer i s) k)" for k
    using ok(2) [of k] by (auto simp: queue_sorted_def del_timer_simps intro: sorted_remove1_map)
  moreover have "\<forall>t\<in>set (active (qemu_del_timer i s) k). timer_clock (timers s t) = k" for k
    using ok(3) [of _ k] by (auto simp: del_timer_simps dest: notin_set_remove1)
  moreover have "distinct (active (qemu_del_timer i s) k)" for k
    using ok(1) [of k] by (auto simp: del_timer_simps)
  ultimately show "timers_ok (qemu_del_timer i s)"
    unfolding timers_ok_def del_timer_simps(2) by blast
  show "expires (qemu_del_timer i s) = (expires s)(i := None)"
    using ok(1) by (intro ext) (simp add: expires_def qemu_timer_pending_def del_timer_simps)
  show "i \<notin> set (active (qemu_del_timer i s) c)"
    using ok(1) [of c] ok(3) [of i c] by (auto simp: del_timer_simps)
qed

definition insert_timer :: "nat \<Rightarrow> int \<Rightarrow> timer_state \<Rightarrow> timer_state" where
  "insert_timer i e s = upd_timer i (\<lambda>t. t\<lparr>expire_time := e\<rparr>)
     (upd_clock (timer_clock (timers s i)) (\<lambda>k. k\<lparr>active_timers := link s i e (active_timers k)\<rparr>) s)"

lemma insert_timer_simps:
  "active (insert_timer i e s) k =
     (if k = timer_clock (timers s i) then link s i e (active s k) else active s k)"
  "expire_time (timers (insert_timer i e s) u) = (if u = i then e else expire_time (timers s u))"
  "timer_clock (timers (insert_timer i e s) u) = timer_clock (timers s u)"
  by (simp_all add: insert_timer_def upd_timer_def upd_clock_def)

lemma insert_timer_ok:
  assumes "timers_ok s" and out: "\<And>c. i \<notin> set (active s c)"
  shows "timers_ok (insert_timer i e s)" "expires (insert_timer i e s) = (expires s)(i \<mapsto> e)"
proof -
  note ok = timers_okD [OF assms(1)]
  let ?f = "\<lambda>u. expire_time (timers (insert_timer i e s) u)"
  have same: "?f u = expire_time (timers s u)" if "u \<in> set (active s k)" for u k
    using that out by (auto simp: insert_timer_simps)
  then have "map ?f (active s k) = map (\<lambda>u. expire_time (timers s u)) (active s k)" for k
    by (intro map_cong) auto
  then have "sorted (map ?f (active s k))" for k using ok(2) [of k] by (simp only: queue_sorted_def)
  then have "queue_sorted (insert_timer i e s) (active (insert_timer i e s) k)" for k
    using sorted_link [of ?f "active s k" i e s] same
    by (simp add: queue_sorted_def insert_timer_simps(1)) (auto simp: insert_timer_simps)
  then show "timers_ok (insert_timer i e s)"
    using ok(1,3) out distinct_link by (simp add: timers_ok_def insert_timer_simps(1,3))
  show "expires (insert_timer i e s) = (expires s)(i \<mapsto> e)"
    by (intro ext) (simp add: expires_def qemu_timer_pending_def insert_timer_simps)
qed

lemma mod_timer_ok:
  assumes "qemu_mod_timer_ns i e s = Inr t" "timers_ok s"
  shows "timers_ok t \<and> expires t = (expires s)(i \<mapsto> e)"
proof -
  define u where "u = insert_timer i e (qemu_del_timer i s)"
  note d = del_timer_ok [OF assms(2), of i]
  have u: "timers_ok u" "expires u = (expires s)(i \<mapsto> e)"
    using insert_timer_ok [OF d(1,3), of e] d(2) by (simp_all add: u_def)
  have "same_timers u t"
    using assms(1) unfolding qemu_mod_timer_ns_def Let_def insert_timer_def [symmetric] u_def [symmetric]
    by (auto simp: qemu_clock_warp_def split: if_splits dest!: rearm_frame)
  then show ?thesis using u timers_ok_cong expires_cong by metis
qed

section \<open>Arming a timer succeeds\<close>

lemma dynticks_deadline:
  "alarm_has_dynticks (snd (qemu_get_clock_ns c s)) = alarm_has_dynticks s"
  "alarm_has_dynticks (snd (min_delta c p)) = alarm_has_dynticks (snd p)"
  "alarm_has_dynticks (snd (qemu_next_alarm_deadline s)) = alarm_has_dynticks s"
proof -
  have g: "alarm_has_dynticks (snd (qemu_get_clock_ns c s)) = alarm_has_dynticks s" for c s
    by (simp add: qemu_get_clock_ns_def Let_def upd_clock_def host_def)
  have d: "alarm_has_dynticks (snd (min_delta c p)) = alarm_has_dynticks (snd p)" for c p
    by (cases p) (auto simp: min_delta_def Let_def case_prod_unfold g split: option.splits)
  show "alarm_has_dynticks (snd (qemu_get_clock_ns c s)) = alarm_has_dynticks s"
    "alarm_has_dynticks (snd (min_delta c p)) = alarm_has_dynticks (snd p)" by (rule g, rule d)
  show "alarm_has_dynticks (snd (qemu_next_alarm_deadline s)) = alarm_has_dynticks s"
    by (auto simp: qemu_next_alarm_deadline_def Let_def case_prod_unfold g d split: option.splits)
qed

lemma rearm_succeeds:
  assumes "alarm_has_dynticks s"
  obtains t where "qemu_rearm_alarm_timer s = Inr t" "same_timers s t" "alarm_has_dynticks t"
proof -
  have "\<exists>t. qemu_rearm_alarm_timer s = Inr t \<and> alarm_has_dynticks t"
    using assms dynticks_deadline(3) [of s] by (simp add: qemu_rearm_alarm_timer_def case_prod_unfold host_def)
  then show ?thesis using that rearm_frame by blast
qed

lemma mod_timer_succeeds:
  assumes "alarm_has_dynticks s"
  obtains t where "qemu_mod_timer_ns i e s = Inr t" "same_timers (insert_timer i e (qemu_del_timer i s)) t"
    "alarm_has_dynticks t"
proof -
  define u where "u = insert_timer i e (qemu_del_timer i s)"
  have d: "alarm_has_dynticks u" using assms
    by (simp add: u_def insert_timer_def qemu_del_timer_def upd_timer_def upd_clock_def)
  obtain v where v: "qemu_rearm_alarm_timer u = Inr v" "same_timers u v" "alarm_has_dynticks v"
    by (rule rearm_succeeds [OF d])
  obtain w where w: "(if \<not> alarm_pending u then qemu_rearm_alarm_timer u else Inr u) = Inr w" "same_timers u w"
    "alarm_has_dynticks w" using v d by (cases "alarm_pending u") auto
  have h: "alarm_has_dynticks (host ev x) = alarm_has_dynticks x" "use_icount (host ev x) = use_icount x" for ev x
    by (simp_all add: host_def)
  have "\<exists>t. qemu_mod_timer_ns i e s = Inr t \<and> same_timers u t \<and> alarm_has_dynticks t"
    unfolding qemu_mod_timer_ns_def Let_def insert_timer_def [symmetric] u_def [symmetric]
    using w d by (simp add: qemu_clock_warp_def h)
  then show ?thesis using that unfolding u_def by blast
qed

section \<open>Interface\<close>

text \<open>
  What users of timers rely on: arming sets the expiry time of one timer and disarming
  clears it, in the states that the operations keep.
\<close>

locale timer_queue =
  fixes ok :: "'s \<Rightarrow> bool"
    and arm :: "nat \<Rightarrow> int \<Rightarrow> 's \<Rightarrow> 's res"
    and disarm :: "nat \<Rightarrow> 's \<Rightarrow> 's"
    and due :: "'s \<Rightarrow> nat \<Rightarrow> int option"
  assumes arm_ok: "arm i e s = Inr t \<Longrightarrow> ok s \<Longrightarrow> ok t"
    and disarm_ok: "ok s \<Longrightarrow> ok (disarm i s)"
    and arm_due: "arm i e s = Inr t \<Longrightarrow> ok s \<Longrightarrow> due t = (due s)(i \<mapsto> e)"
    and disarm_due: "ok s \<Longrightarrow> due (disarm i s) = (due s)(i := None)"
begin

lemma arm_disarm:
  assumes "arm i e s = Inr t" "ok s"
  shows "due (disarm i t) = (due s)(i := None)"
  using assms arm_ok [OF assms] by (simp add: disarm_due arm_due)

lemma rearm:
  assumes "arm i e s = Inr t" "arm i e' t = Inr u" "ok s"
  shows "due u = (due s)(i \<mapsto> e')"
  using assms arm_ok [OF assms(1,3)] arm_due [OF assms(1,3)] arm_due [OF assms(2)] by simp

end

interpretation tq: timer_queue timers_ok qemu_mod_timer_ns qemu_del_timer expires
  by unfold_locales (auto simp: mod_timer_ok del_timer_ok)

section \<open>Properties\<close>

text \<open>The operations that change the queues, in any order, from the initial clocks.\<close>

inductive timer_reach :: "timer_state \<Rightarrow> bool" where
  init: "timer_reach (init_clocks s)"
| new_timer: "timer_reach s \<Longrightarrow> \<not> qemu_timer_pending i s \<Longrightarrow> timer_reach (qemu_new_timer i c k s)"
| mod_timer: "timer_reach s \<Longrightarrow> qemu_mod_timer i e s = Inr t \<Longrightarrow> timer_reach t"
| del_timer: "timer_reach s \<Longrightarrow> timer_reach (qemu_del_timer i s)"
| clock_enable: "timer_reach s \<Longrightarrow> qemu_clock_enable c en s = Inr t \<Longrightarrow> timer_reach t"
| time_passes: "timer_reach s \<Longrightarrow> timer_reach (s\<lparr>clock_reads := r\<rparr>)"

lemma new_timer_ok:
  assumes "timers_ok s" "\<not> qemu_timer_pending i s"
  shows "timers_ok (qemu_new_timer i c k s)"
proof -
  have out: "i \<notin> set (active s d)" for d
    using assms timers_okD(3) [OF assms(1)] by (auto simp: qemu_timer_pending_def)
  have "map (\<lambda>u. expire_time (timers (qemu_new_timer i c k s) u)) (active s d) =
      map (\<lambda>u. expire_time (timers s u)) (active s d)" for d
    using out [of d] by (intro map_cong) (auto simp: qemu_new_timer_def upd_timer_def)
  moreover have "timer_clock (timers (qemu_new_timer i c k s) u) = timer_clock (timers s u)" if "u \<in> set (active s d)" for u d
    using out [of d] that by (auto simp: qemu_new_timer_def upd_timer_def)
  moreover have "active (qemu_new_timer i c k s) d = active s d" for d
    by (simp add: qemu_new_timer_def upd_timer_def)
  ultimately show ?thesis using assms(1) by (simp only: timers_ok_def queue_sorted_def) simp
qed

text \<open>
  C26: in every state reachable by creating, arming, re-arming, disarming timers and
  enabling clocks, each clock's list holds only its own timers, each once, sorted by
  expiry time; so the head is the next timer to fire.
\<close>

theorem timer_queues_sorted: "timer_reach s \<Longrightarrow> timers_ok s"
proof (induction rule: timer_reach.induct)
  case (init s)
  then show ?case by (simp add: timers_ok_def init_clocks_def qemu_new_clock_def queue_sorted_def)
next
  case (mod_timer s i e t)
  then show ?case using tq.arm_ok by (simp add: qemu_mod_timer_def)
next
  case (clock_enable s c en t)
  have "same_timers (s\<lparr>clocks := (clocks s)(c := (clocks s c)\<lparr>clock_enabled := en\<rparr>)\<rparr>) t"
    using clock_enable.hyps(2) by (auto simp: qemu_clock_enable_def Let_def upd_clock_def split: if_splits dest: rearm_frame)
  then show ?case by (rule timers_ok_cong) (use clock_enable.IH in \<open>auto simp: timers_ok_def queue_sorted_def\<close>)
next
  case (time_passes s r)
  then show ?case by (auto simp: timers_ok_def queue_sorted_def)
qed (auto intro: new_timer_ok tq.disarm_ok)

text \<open>A machine without host alarms pending and one armed timer of the virtual clock.\<close>

definition blank_timers :: timer_state where
  "blank_timers = init_clocks \<lparr>clocks = (\<lambda>_. qemu_new_clock),
     timers = (\<lambda>i. \<lparr>timer_clock = QEMU_CLOCK_VIRTUAL, expire_time = 0, timer_scale = 1\<rparr>),
     alarm_has_dynticks = True, alarm_pending = False, alarm_expired = False, use_icount = False,
     clock_reads = (\<lambda>_. 0), host_events = []\<rparr>"

theorem timer_queues_sorted_witness:
  "case bindE (qemu_mod_timer 1 30 blank_timers) (\<lambda>s. bindE (qemu_mod_timer 2 10 s) (qemu_mod_timer 3 20)) of
     Inl _ \<Rightarrow> False | Inr s \<Rightarrow> active s QEMU_CLOCK_VIRTUAL = [2, 3, 1] \<and> timers_ok s"
proof -
  let ?r = "bindE (qemu_mod_timer 1 30 blank_timers) (\<lambda>s. bindE (qemu_mod_timer 2 10 s) (qemu_mod_timer 3 20))"
  have c: "case ?r of Inl _ \<Rightarrow> False | Inr s \<Rightarrow> active s QEMU_CLOCK_VIRTUAL = [2, 3, 1]" by code_simp
  then obtain s where s: "?r = Inr s" by (cases ?r) auto
  have "timer_reach blank_timers" unfolding blank_timers_def by (rule timer_reach.init)
  moreover obtain a b where "qemu_mod_timer 1 30 blank_timers = Inr a" "qemu_mod_timer 2 10 a = Inr b" "qemu_mod_timer 3 20 b = Inr s"
    using s by blast
  ultimately have "timer_reach s" by (meson timer_reach.mod_timer)
  from timer_queues_sorted [OF this] c s show ?thesis by simp
qed

definition due_timers :: "timer_state \<Rightarrow> clock_type \<Rightarrow> int \<Rightarrow> nat set" where
  "due_timers s c now = {t \<in> set (active s c). expire_time (timers s t) \<le> now}"

lemma not_expired_iff:
  assumes "timers_ok s"
  shows "\<not> qemu_timer_expired_ns s (active s c) now \<longleftrightarrow> due_timers s c now = {}"
  using timers_okD(2) [OF assms, of c]
  by (cases "active s c") (force simp: qemu_timer_expired_ns_def due_timers_def queue_sorted_def)+

lemma pop_timer_ok:
  assumes "timers_ok s" "qemu_timer_expired_ns s (active s c) now"
  defines "t \<equiv> upd_clock c (\<lambda>k. k\<lparr>active_timers := tl (active_timers k)\<rparr>) s"
  shows "timers_ok t" "due_timers t c now = due_timers s c now - {hd (active s c)}"
    "hd (active s c) \<in> due_timers s c now"
proof -
  obtain i q where q: "active s c = i # q" using assms(2) by (cases "active s c") (auto simp: qemu_timer_expired_ns_def)
  have t: "active t k = (if k = c then q else active s k)" "timers t = timers s" for k
    by (simp_all add: t_def upd_clock_def q)
  show "timers_ok t" unfolding timers_ok_def
  proof (intro allI conjI)
    fix k
    show "distinct (active t k)" "queue_sorted t (active t k)" "\<forall>u\<in>set (active t k). timer_clock (timers t u) = k"
      using timers_okD [OF assms(1), where c = k] q by (auto simp: t queue_sorted_def)
  qed
  show "due_timers t c now = due_timers s c now - {hd (active s c)}" "hd (active s c) \<in> due_timers s c now"
    using timers_okD(1) [OF assms(1), where c = c] assms(2) by (auto simp: due_timers_def t q qemu_timer_expired_ns_def)
qed

lemma rearm_later:
  assumes "timers_ok s" "alarm_has_dynticks s" "now < e"
  obtains t where "qemu_mod_timer_ns i e s = Inr t" "timers_ok t" "alarm_has_dynticks t"
    "due_timers t c now = due_timers s c now - {i}"
proof -
  let ?u = "insert_timer i e (qemu_del_timer i s)"
  obtain t where t: "qemu_mod_timer_ns i e s = Inr t" "same_timers ?u t" "alarm_has_dynticks t"
    by (rule mod_timer_succeeds [OF assms(2)])
  have "due_timers t c now = due_timers ?u c now" using t(2) by (simp add: same_timers_def due_timers_def)
  also have "\<dots> = due_timers s c now - {i}"
    using timers_okD(1) [OF assms(1), of c] timers_okD(3) [OF assms(1), of i c] assms(3)
    by (auto simp: due_timers_def insert_timer_simps del_timer_simps)
  finally show ?thesis using that t mod_timer_ok [OF t(1) assms(1)] by blast
qed

text \<open>
  C25: running the timers of a clock ends and leaves no timer due. The clock is read once, at
  the start. The callbacks are any functions that keep some invariant of the timers and the
  machine under which the queues are sound: called for a due timer that has just been taken off its queue,
  a callback succeeds and leaves no timer due at that time that was not due before, and not its own
  timer; it may arm its own and other timers for any later time, and disarm timers. Then as many rounds as
  there are due timers, plus one, are enough, and afterwards no timer of the clock is due at that time.
\<close>

theorem run_timers_fires_all_due:
  assumes "clock_enabled (clocks s c)" "now = clock_reads s c" "card (due_timers s c now) < n"
    and start: "I (snd (qemu_get_clock_ns c s), w)"
    and sound: "\<And>s w. I (s, w) \<Longrightarrow> timers_ok s"
    and cb: "\<And>s w i q. I (s, w) \<Longrightarrow> active s c = i # q \<Longrightarrow> expire_time (timers s i) \<le> now \<Longrightarrow>
      \<exists>t w'. cb i (upd_clock c (\<lambda>k. k\<lparr>active_timers := q\<rparr>) s, w) = Inr (t, w') \<and> I (t, w') \<and>
        due_timers t c now \<subseteq> due_timers s c now - {i}"
  shows "\<exists>t w'. qemu_run_timers n cb c (s, w) = Inr (t, w') \<and> I (t, w') \<and> due_timers t c now = {}"
proof -
  have run: "\<exists>t w'. run_expired n cb c now (s, w) = Inr (t, w') \<and> I (t, w') \<and> due_timers t c now = {}"
    if "I (s, w)" "card (due_timers s c now) < n" for n s w
    using that
  proof (induction n arbitrary: s w)
    case (Suc n)
    show ?case
    proof (cases "qemu_timer_expired_ns s (active s c) now")
      case True
      then obtain i q where q: "active s c = i # q" "expire_time (timers s i) \<le> now"
        by (auto simp: qemu_timer_expired_ns_def split: list.splits)
      obtain t w' where t: "cb i (upd_clock c (\<lambda>k. k\<lparr>active_timers := q\<rparr>) s, w) = Inr (t, w')" "I (t, w')"
        "due_timers t c now \<subseteq> due_timers s c now - {i}"
        using cb [OF Suc.prems(1) q] by blast
      have "i \<in> due_timers s c now" using q by (simp add: due_timers_def)
      then have "card (due_timers t c now) < card (due_timers s c now)"
        using t(3) by (intro psubset_card_mono) (auto simp: due_timers_def)
      then show ?thesis using Suc.IH [OF t(2)] Suc.prems(2) t(1) True q(1) by (simp add: upd_clock_def)
    next
      case False
      then show ?thesis using Suc.prems not_expired_iff sound by simp
    qed
  qed simp
  let ?g = "snd (qemu_get_clock_ns c s)"
  have "same_timers s ?g" by simp
  then have "due_timers ?g c now = due_timers s c now" by (auto simp: same_timers_def due_timers_def)
  with run [OF start, of n] show ?thesis
    using assms(1-3) by (simp add: qemu_run_timers_def case_prod_unfold)
qed

text \<open>
  Three timers of the virtual clock, armed for 30, 10 and 20, at time 20; the callback arms its timer anew
  for 100 later.
\<close>

definition three_timers :: "timer_state res" where
  "three_timers = bindE (bindE (qemu_mod_timer 1 30 blank_timers) (\<lambda>s. bindE (qemu_mod_timer 2 10 s) (qemu_mod_timer 3 20)))
     (\<lambda>s. Inr (s\<lparr>clock_reads := (\<lambda>_. 20)\<rparr>))"

definition periodic :: "nat \<Rightarrow> timer_state \<times> nat list \<Rightarrow> (timer_state \<times> nat list) res" where
  "periodic i = (\<lambda>(s, w). bindE (qemu_mod_timer_ns i 120 s) (\<lambda>s. Inr (s, w @ [i])))"

lemma three_timers_run:
  "case three_timers of Inl _ \<Rightarrow> False | Inr s \<Rightarrow> active s QEMU_CLOCK_VIRTUAL = [2, 3, 1] \<and>
     active s QEMU_CLOCK_REALTIME = [] \<and> active s QEMU_CLOCK_HOST = [] \<and>
     clock_enabled (clocks s QEMU_CLOCK_VIRTUAL) \<and> clock_reads s QEMU_CLOCK_VIRTUAL = 20 \<and> alarm_has_dynticks s \<and>
     map (\<lambda>t. timer_clock (timers s t)) [2, 3, 1] = replicate 3 QEMU_CLOCK_VIRTUAL \<and>
     map (\<lambda>t. expire_time (timers s t)) [2, 3, 1] = [10, 20, 30]"
  by code_simp

lemma three_timers_state:
  obtains s where "three_timers = Inr s" "timers_ok s" "active s QEMU_CLOCK_VIRTUAL = [2, 3, 1]"
    "clock_enabled (clocks s QEMU_CLOCK_VIRTUAL)" "clock_reads s QEMU_CLOCK_VIRTUAL = 20" "alarm_has_dynticks s"
    "due_timers s QEMU_CLOCK_VIRTUAL 20 = {2, 3}"
    "expire_time (timers s 2) = 10" "expire_time (timers s 3) = 20" "expire_time (timers s 1) = 30"
proof -
  obtain s where s: "three_timers = Inr s" using three_timers_run by (auto split: sum.splits)
  note r = three_timers_run [unfolded s sum.case]
  have a: "active s c = (if c = QEMU_CLOCK_VIRTUAL then [2, 3, 1] else [])" for c using r by (cases c) auto
  have "timers_ok s" unfolding timers_ok_def a using r by (auto simp: queue_sorted_def numeral_3_eq_3)
  moreover have "due_timers s QEMU_CLOCK_VIRTUAL 20 = {2, 3}" unfolding due_timers_def a using r by auto
  ultimately show ?thesis using that s r by simp
qed

theorem run_timers_fires_all_due_witness:
  "case three_timers of Inl _ \<Rightarrow> False | Inr s \<Rightarrow> due_timers s QEMU_CLOCK_VIRTUAL 20 = {2, 3} \<and>
     (\<exists>t w'. qemu_run_timers 3 periodic QEMU_CLOCK_VIRTUAL (s, []) = Inr (t, w') \<and>
        timers_ok t \<and> due_timers t QEMU_CLOCK_VIRTUAL 20 = {})"
proof -
  let ?c = QEMU_CLOCK_VIRTUAL and ?I = "\<lambda>(s, w :: nat list). timers_ok s \<and> alarm_has_dynticks s"
  obtain s where s: "three_timers = Inr s" "timers_ok s" "active s ?c = [2, 3, 1]"
    "clock_enabled (clocks s ?c)" "clock_reads s ?c = 20" "alarm_has_dynticks s" "due_timers s ?c 20 = {2, 3}"
    by (rule three_timers_state)
  have "\<exists>t w'. qemu_run_timers 3 periodic ?c (s, []) = Inr (t, w') \<and> ?I (t, w') \<and> due_timers t ?c 20 = {}"
  proof (rule run_timers_fires_all_due [where I = ?I])
    fix s and w :: "nat list" and i q
    assume I: "?I (s, w)" and q: "active s ?c = i # q" "expire_time (timers s i) \<le> 20"
    let ?u = "upd_clock ?c (\<lambda>k. k\<lparr>active_timers := q\<rparr>) s"
    have x: "qemu_timer_expired_ns s (active s ?c) 20" using q by (simp add: qemu_timer_expired_ns_def)
    have u: "?u = upd_clock ?c (\<lambda>k. k\<lparr>active_timers := tl (active_timers k)\<rparr>) s" using q by (simp add: upd_clock_def)
    have pop: "timers_ok ?u" "due_timers ?u ?c 20 = due_timers s ?c 20 - {i}"
      using pop_timer_ok [of s ?c 20] I x q by (simp_all add: u)
    obtain t where "qemu_mod_timer_ns i 120 ?u = Inr t" "timers_ok t" "alarm_has_dynticks t"
      "due_timers t ?c 20 = due_timers ?u ?c 20 - {i}"
      using rearm_later [OF pop(1), of 20 120 i ?c] I by (auto simp: upd_clock_def)
    then show "\<exists>t w'. periodic i (?u, w) = Inr (t, w') \<and> ?I (t, w') \<and> due_timers t ?c 20 \<subseteq> due_timers s ?c 20 - {i}"
      using pop(2) by (auto simp: periodic_def)
  qed (use s in \<open>auto simp: qemu_get_clock_ns_def\<close>)
  then show ?thesis using s(7) unfolding s(1) sum.case by auto
qed

lemma sorted_takeWhile_le: "sorted (map f q) \<Longrightarrow> takeWhile (\<lambda>t. f t \<le> (x :: int)) q = filter (\<lambda>t. f t \<le> x) q"
proof (induction q)
  case (Cons a q)
  have "filter (\<lambda>t. f t \<le> x) q = []" if "\<not> f a \<le> x" using that Cons.prems by (fastforce simp: filter_empty_conv)
  then show ?case using Cons by simp
qed simp

lemma run_expired_prefix:
  assumes "active s c = q" "length q < n"
  shows "run_expired n (\<lambda>i (s, w). Inr (s, f i w)) c now (s, w) =
    Inr (upd_clock c (\<lambda>k. k\<lparr>active_timers := dropWhile (\<lambda>t. expire_time (timers s t) \<le> now) q\<rparr>) s,
         fold f (takeWhile (\<lambda>t. expire_time (timers s t) \<le> now) q) w)"
  using assms
proof (induction q arbitrary: n s w)
  case Nil
  then show ?case using upd_clock_same [of c s]
    by (cases n) (simp_all add: qemu_timer_expired_ns_def upd_clock_def)
next
  case (Cons i q)
  then obtain m where m: "n = Suc m" by (cases n) auto
  let ?u = "upd_clock c (\<lambda>k. k\<lparr>active_timers := tl (active_timers k)\<rparr>) s"
  have "active ?u c = q" "timers ?u = timers s" using Cons.prems(1) by (simp_all add: upd_clock_def)
  then show ?case using Cons.IH [of ?u m] Cons.prems upd_clock_same [of c s]
    by (auto simp: m qemu_timer_expired_ns_def upd_clock_def)
qed

text \<open>
  C27: timers fire in the order of their expiry times, each once. When the queues are sound and the
  callbacks leave the timers alone, a run on any clock calls the callbacks of exactly the timers that are
  due, none twice, sorted by expiry time, and leaves the others on the queue as they were; nothing else of
  the timers changes but the last reading that the host clock keeps.
\<close>

theorem run_timers_in_order:
  assumes "timers_ok s" "clock_enabled (clocks s c)" "length (active s c) < n"
  shows "\<exists>fired rest. active s c = fired @ rest \<and> set fired = due_timers s c (clock_reads s c) \<and> distinct fired \<and>
    sorted (map (\<lambda>t. expire_time (timers s t)) fired) \<and>
    qemu_run_timers n (\<lambda>i (s, w). Inr (s, f i w)) c (s, w) =
      Inr (upd_clock c (\<lambda>k. k\<lparr>active_timers := rest\<rparr>) (snd (qemu_get_clock_ns c s)), fold f fired w)"
proof -
  let ?due = "\<lambda>t. expire_time (timers s t) \<le> clock_reads s c" and ?q = "active s c"
  let ?g = "snd (qemu_get_clock_ns c s)"
  note ok = timers_okD(1,2) [OF assms(1), of c, unfolded queue_sorted_def]
  have "same_timers s ?g" by simp
  then have g: "active ?g c = ?q" "timers ?g = timers s" by (simp_all add: same_timers_def)
  have "set (takeWhile ?due ?q) = due_timers s c (clock_reads s c)"
    using sorted_takeWhile_le [OF ok(2)] by (auto simp: due_timers_def)
  moreover have "sorted (map (\<lambda>t. expire_time (timers s t)) (takeWhile ?due ?q))"
    using ok(2) by (simp add: sorted_takeWhile_le sorted_filter)
  moreover have "qemu_run_timers n (\<lambda>i (s, w). Inr (s, f i w)) c (s, w) =
      Inr (upd_clock c (\<lambda>k. k\<lparr>active_timers := dropWhile ?due ?q\<rparr>) ?g, fold f (takeWhile ?due ?q) w)"
    using run_expired_prefix [OF g(1) assms(3)] assms(2) g(2) by (simp add: qemu_run_timers_def case_prod_unfold)
  ultimately show ?thesis using ok(1) distinct_takeWhile takeWhile_dropWhile_id by metis
qed

theorem run_timers_in_order_witness:
  "case three_timers of Inl _ \<Rightarrow> False
   | Inr s \<Rightarrow> map_sum id snd (qemu_run_timers 9 (\<lambda>i (s, w). Inr (s, w @ [i])) QEMU_CLOCK_VIRTUAL (s, [])) = Inr [2, 3]"
proof -
  let ?c = QEMU_CLOCK_VIRTUAL
  obtain s where s: "three_timers = Inr s" "timers_ok s" "active s ?c = [2, 3, 1]" "clock_enabled (clocks s ?c)"
    "clock_reads s ?c = 20" "alarm_has_dynticks s" "due_timers s ?c 20 = {2, 3}"
    "expire_time (timers s 2) = 10" "expire_time (timers s 3) = 20" by (rule three_timers_state)
  obtain fired rest where r: "[2, 3, 1] = fired @ rest" "set fired = {2, 3}"
    "qemu_run_timers 9 (\<lambda>i (s, w). Inr (s, w @ [i])) ?c (s, []) =
       Inr (upd_clock ?c (\<lambda>k. k\<lparr>active_timers := rest\<rparr>) (snd (qemu_get_clock_ns ?c s)), fold (\<lambda>i w. w @ [i]) fired [])"
    using run_timers_in_order [OF s(2,4), of 9 "\<lambda>i w. w @ [i]" "[]"] s(3,5,7) by auto
  have "fired = [2, 3]" using r(1,2) by (auto simp: Cons_eq_append_conv insert_eq_iff)
  then show ?thesis using r(3) unfolding s(1) sum.case by simp
qed

text \<open>
  The deadline of a clock is the time to its first timer, and zero when it is past;
  it is not limited to \<open>INT32_MAX\<close>, as the comment in \<open>qemu_clock_deadline\<close> has it: that bound only
  serves a clock without timers.
\<close>

theorem clock_deadline_value:
  "fst (qemu_clock_deadline c s) =
    (case head_expire c s of None \<Rightarrow> INT32_MAX | Some e \<Rightarrow> max 0 (s64 (e - clock_reads s c)))"
  by (auto simp: qemu_clock_deadline_def Let_def case_prod_unfold INT32_MAX_def split: option.splits)

end
