(* ===== verification/Nvic.thy ===== *)
theory Nvic
  imports Gic Arm_State Qemu_Timer "HOL-Library.Signed_Division"
begin

text \<open>
  The vectored interrupt controller \<open>hw/armv7m_nvic.c\<close>: the controller of theory \<open>Gic\<close>
  with the system registers of an ARMv7-M processor and the SysTick timer in front of it.
  The state of the machine has what its functions reach: the controller, the CPU its output
  line interrupts and whose vector base it sets, and the timers. \<open>system_clock_scale\<close> is
  the global variable of that name.
\<close>

section \<open>State\<close>

record nvic_state =
  the_gic :: "CPUARMState res gic_state"
  systick_control :: u32
  systick_reload_value :: u32
  systick_tick :: int
  systick_timer :: nat

record machine =
  nvic :: nvic_state
  cpu :: CPUARMState
  tmr :: timer_state
  system_clock_scale :: int

definition SYSTICK_ENABLE :: u32 where "SYSTICK_ENABLE = push_bit 0 1"
definition SYSTICK_TICKINT :: u32 where "SYSTICK_TICKINT = push_bit 1 1"
definition SYSTICK_CLKSOURCE :: u32 where "SYSTICK_CLKSOURCE = push_bit 2 1"
definition SYSTICK_COUNTFLAG :: u32 where "SYSTICK_COUNTFLAG = push_bit 16 1"

definition ARMV7M_EXCP_NMI :: nat where "ARMV7M_EXCP_NMI = 2"
definition ARMV7M_EXCP_MEM :: nat where "ARMV7M_EXCP_MEM = 4"
definition ARMV7M_EXCP_BUS :: nat where "ARMV7M_EXCP_BUS = 5"
definition ARMV7M_EXCP_USAGE :: nat where "ARMV7M_EXCP_USAGE = 6"
definition ARMV7M_EXCP_SVC :: nat where "ARMV7M_EXCP_SVC = 11"
definition ARMV7M_EXCP_DEBUG :: nat where "ARMV7M_EXCP_DEBUG = 12"
definition ARMV7M_EXCP_PENDSV :: nat where "ARMV7M_EXCP_PENDSV = 14"
definition ARMV7M_EXCP_SYSTICK :: nat where "ARMV7M_EXCP_SYSTICK = 15"

definition upd_nvic :: "(nvic_state \<Rightarrow> nvic_state) \<Rightarrow> machine \<Rightarrow> machine" where
  "upd_nvic f m = m\<lparr>nvic := f (nvic m)\<rparr>"

definition upd_gic :: "(CPUARMState res gic_state \<Rightarrow> CPUARMState res gic_state) \<Rightarrow> machine \<Rightarrow> machine" where
  "upd_gic f = upd_nvic (\<lambda>v. v\<lparr>the_gic := f (the_gic v)\<rparr>)"

text \<open>A function of the interrupt controller on the machine: its output line changes the CPU.\<close>

definition put_gic :: "CPUARMState res gic_state \<times> CPUARMState res \<Rightarrow> machine \<Rightarrow> machine res" where
  "put_gic = (\<lambda>(g, w) m. bindE w (\<lambda>c. Inr (upd_gic (\<lambda>_. g) (m\<lparr>cpu := c\<rparr>))))"

definition on_gic ::
  "(CPUARMState res gic_state \<times> CPUARMState res \<Rightarrow> (CPUARMState res gic_state \<times> CPUARMState res) res) \<Rightarrow>
    machine \<Rightarrow> machine res" where
  "on_gic f m = bindE (f (the_gic (nvic m), Inr (cpu m))) (\<lambda>r. put_gic r m)"

section \<open>The numbering of exceptions\<close>

definition armv7m_nvic_set_pending :: "int \<Rightarrow> machine \<Rightarrow> machine res" where
  "armv7m_nvic_set_pending irq m =
     (let irq = (if irq \<ge> 16 then irq + 16 else irq) in on_gic (gic_set_pending_private irq) m)"

definition armv7m_nvic_acknowledge_irq :: "machine \<Rightarrow> (int \<times> machine) res" where
  "armv7m_nvic_acknowledge_irq m =
     bindE (gic_acknowledge_irq (the_gic (nvic m), Inr (cpu m))) (\<lambda>(irq, r).
     bindE (put_gic r m) (\<lambda>m.
       if irq = 1023 then Inl (hw_error ''Interrupt but no vector'')
       else Inr (if irq \<ge> 32 then irq - 16 else irq, m)))"

definition armv7m_nvic_complete_irq :: "nat \<Rightarrow> int \<Rightarrow> machine \<Rightarrow> machine res" where
  "armv7m_nvic_complete_irq fuel irq m =
     (let irq = (if irq \<ge> 16 then irq + 16 else irq) in on_gic (gic_complete_irq fuel irq) m)"

section \<open>SysTick\<close>

definition systick_scale :: "machine \<Rightarrow> int" where
  "systick_scale m =
     (if systick_control (nvic m) AND SYSTICK_CLKSOURCE \<noteq> 0 then system_clock_scale m else 1000)"

definition systick_mod_timer :: "machine \<Rightarrow> machine res" where
  "systick_mod_timer m =
     bindE (qemu_mod_timer (systick_timer (nvic m)) (systick_tick (nvic m)) (tmr m)) (\<lambda>t. Inr (m\<lparr>tmr := t\<rparr>))"

text \<open>The time on the virtual clock.\<close>

definition vm_clock :: "machine \<Rightarrow> int \<times> machine" where
  "vm_clock m = (case qemu_get_clock_ns QEMU_CLOCK_VIRTUAL (tmr m) of (now, t) \<Rightarrow> (now, m\<lparr>tmr := t\<rparr>))"

text \<open>\<open>reload + 1\<close> is a 32-bit sum; the product and the new tick are 64 bits wide.\<close>

definition systick_reload :: "bool \<Rightarrow> machine \<Rightarrow> machine res" where
  "systick_reload reset m =
     (let m = (if reset then case vm_clock m of (now, m) \<Rightarrow> upd_nvic (\<lambda>v. v\<lparr>systick_tick := now\<rparr>) m else m);
          m = upd_nvic (\<lambda>v. v\<lparr>systick_tick :=
                s64 (systick_tick v + s64 (uint (systick_reload_value v + 1) * systick_scale m))\<rparr>) m
      in systick_mod_timer m)"

definition systick_timer_tick :: "machine \<Rightarrow> machine res" where
  "systick_timer_tick m =
     (let m = upd_nvic (\<lambda>v. v\<lparr>systick_control := systick_control v OR SYSTICK_COUNTFLAG\<rparr>) m
      in bindE (if systick_control (nvic m) AND SYSTICK_TICKINT \<noteq> 0
                then armv7m_nvic_set_pending (int ARMV7M_EXCP_SYSTICK) m else Inr m) (\<lambda>m.
           if systick_reload_value (nvic m) = 0
           then Inr (upd_nvic (\<lambda>v. v\<lparr>systick_control := systick_control v AND NOT SYSTICK_ENABLE\<rparr>) m)
           else systick_reload False m))"

section \<open>System registers\<close>

definition orbit :: "bool \<Rightarrow> nat \<Rightarrow> u32 \<Rightarrow> u32" where
  "orbit b n val = (if b then val OR push_bit n 1 else val)"

text \<open>Interrupt Control State, 0xd04.\<close>

definition nvic_icsr :: "nvic_state \<Rightarrow> u32 res" where
  "nvic_icsr s =
     (let g = the_gic s;
          st = (\<lambda>irq. irq_state g ! irq);
          val = (word_of_int (running_irq g) :: u32);
          val = (if val = 1023 then 0 else if val \<ge> 32 then val - 16 else val)
      in bindE (if running_irq g = 1023 then Inr True
                else bindE (irq_index (running_irq g)) (\<lambda>i. Inr (last_active g ! i = 1023))) (\<lambda>base.
         let val = orbit base 11 val;
             val = (if current_pending g \<noteq> 1023 then val OR push_bit 12 (word_of_int (current_pending g)) else val);
             val = orbit (list_ex (\<lambda>irq. irq_pending (st irq)) [32..<GIC_NIRQ]) 22 val;
             val = orbit (irq_pending (st ARMV7M_EXCP_SYSTICK)) 26 val;
             val = orbit (irq_pending (st ARMV7M_EXCP_PENDSV)) 28 val;
             val = orbit (irq_pending (st ARMV7M_EXCP_NMI)) 31 val
         in Inr val))"

text \<open>System Handler Status, 0xd24.\<close>

definition nvic_shcsr :: "nvic_state \<Rightarrow> u32" where
  "nvic_shcsr s =
     (let st = (\<lambda>irq. irq_state (the_gic s) ! irq)
      in orbit (irq_enabled (st ARMV7M_EXCP_USAGE)) 18
        (orbit (irq_enabled (st ARMV7M_EXCP_BUS)) 17
        (orbit (irq_enabled (st ARMV7M_EXCP_MEM)) 16
        (orbit (irq_pending (st ARMV7M_EXCP_SVC)) 15
        (orbit (irq_pending (st ARMV7M_EXCP_BUS)) 14
        (orbit (irq_pending (st ARMV7M_EXCP_MEM)) 13
        (orbit (irq_pending (st ARMV7M_EXCP_USAGE)) 12
        (orbit (irq_active (st ARMV7M_EXCP_SYSTICK)) 11
        (orbit (irq_active (st ARMV7M_EXCP_PENDSV)) 10
        (orbit (irq_active (st ARMV7M_EXCP_DEBUG)) 8
        (orbit (irq_active (st ARMV7M_EXCP_SVC)) 7
        (orbit (irq_active (st ARMV7M_EXCP_USAGE)) 3
        (orbit (irq_active (st ARMV7M_EXCP_BUS)) 1
        (orbit (irq_active (st ARMV7M_EXCP_MEM)) 0 0))))))))))))))"

text \<open>SysTick Current Value, 0x18; a scale of 0 divides by zero.\<close>

definition nvic_systick_value :: "machine \<Rightarrow> (u32 \<times> machine) res" where
  "nvic_systick_value m =
     (if systick_control (nvic m) AND SYSTICK_ENABLE = 0 then Inr (0, m)
      else case vm_clock m of (t, m) \<Rightarrow>
        if t \<ge> systick_tick (nvic m) then Inr (0, m)
        else if systick_scale m = 0 then Inl (aborted ''division by zero'')
        else let val = (word_of_int (s64 (systick_tick (nvic m) - (t + 1)) sdiv systick_scale m + 1) :: u32)
             in Inr (if val > systick_reload_value (nvic m) then 0 else val, m))"

definition shpr_irq :: "nat \<Rightarrow> nat" where
  "shpr_irq offset = offset - 0xd14"

definition nvic_shpr :: "nat \<Rightarrow> nvic_state \<Rightarrow> u32" where
  "nvic_shpr irq s =
     (let p = (\<lambda>i. word_of_int (priority1 (the_gic s) ! i) :: u32)
      in p irq OR push_bit 8 (p (irq + 1)) OR push_bit 16 (p (irq + 2)) OR push_bit 24 (p (irq + 3)))"

definition nvic_id_regs :: "(nat \<times> u32) list" where
  "nvic_id_regs =
     [(0xd40, 0x00000030), (0xd44, 0x00000200), (0xd48, 0x00100000), (0xd4c, 0x00000000), (0xd50, 0x00000030),
      (0xd54, 0x00000000), (0xd58, 0x00000000), (0xd5c, 0x00000000), (0xd60, 0x01141110), (0xd64, 0x02111000),
      (0xd68, 0x21112231), (0xd6c, 0x01111110), (0xd70, 0x01310102)]"

definition nvic_readl :: "nat \<Rightarrow> machine \<Rightarrow> (u32 \<times> machine) res" where
  "nvic_readl offset m =
     (let s = nvic m
      in if offset = 4 then Inr (of_nat (GIC_NIRQ div 32 - 1), m)
         else if offset = 0x10 then
           Inr (systick_control s,
                upd_nvic (\<lambda>v. v\<lparr>systick_control := systick_control v AND NOT SYSTICK_COUNTFLAG\<rparr>) m)
         else if offset = 0x14 then Inr (systick_reload_value s, m)
         else if offset = 0x18 then nvic_systick_value m
         else if offset = 0x1c then Inr (10000, m)
         else if offset = 0xd00 then Inr (c0_cpuid (cpu m), m)
         else if offset = 0xd04 then bindE (nvic_icsr s) (\<lambda>val. Inr (val, m))
         else if offset = 0xd08 then Inr (vecbase (cpu m), m)
         else if offset = 0xd0c then Inr (0xfa05000, m)
         else if offset = 0xd10 \<or> offset = 0xd14 then Inr (0, m)
         else if offset = 0xd18 \<or> offset = 0xd1c \<or> offset = 0xd20 then Inr (nvic_shpr (shpr_irq offset) s, m)
         else if offset = 0xd24 then Inr (nvic_shcsr s, m)
         else if offset = 0xd28 then Inl (hw_error ''Not implemented: Configurable Fault Status.'')
         else case map_of nvic_id_regs offset of
                Some val \<Rightarrow> Inr (val, m)
              | None \<Rightarrow> Inl (hw_error ''NVIC: Bad read offset''))"

definition nvic_write_systick_control :: "u32 \<Rightarrow> machine \<Rightarrow> machine res" where
  "nvic_write_systick_control val m =
     (let oldval = systick_control (nvic m);
          m = upd_nvic (\<lambda>v. v\<lparr>systick_control := (systick_control v AND 0xfffffff8) OR (val AND 7)\<rparr>) m
      in if (oldval XOR val) AND SYSTICK_ENABLE \<noteq> 0 then
           (case vm_clock m of (now, m) \<Rightarrow>
              if val AND SYSTICK_ENABLE \<noteq> 0 then
                if systick_tick (nvic m) \<noteq> 0
                then systick_mod_timer (upd_nvic (\<lambda>v. v\<lparr>systick_tick := s64 (systick_tick v + now)\<rparr>) m)
                else systick_reload True m
              else
                let m = m\<lparr>tmr := qemu_del_timer (systick_timer (nvic m)) (tmr m)\<rparr>;
                    m = upd_nvic (\<lambda>v. v\<lparr>systick_tick := s64 (systick_tick v - now)\<rparr>) m
                in Inr (if systick_tick (nvic m) < 0 then upd_nvic (\<lambda>v. v\<lparr>systick_tick := 0\<rparr>) m else m))
         else if (oldval XOR val) AND SYSTICK_CLKSOURCE \<noteq> 0 then systick_reload True m
         else Inr m)"

text \<open>One pair of set and clear bits of the Interrupt Control State register.\<close>

definition set_or_clear :: "bool \<Rightarrow> bool \<Rightarrow> nat \<Rightarrow> machine \<Rightarrow> machine res" where
  "set_or_clear st cl irq m =
     (if st then armv7m_nvic_set_pending (int irq) m
      else if cl then on_gic (\<lambda>(g, w). Inr (gic_update (upd_irq irq (irq_pending_update (\<lambda>_. False)) g, w))) m
      else Inr m)"

definition nvic_write_icsr :: "u32 \<Rightarrow> machine \<Rightarrow> machine res" where
  "nvic_write_icsr val m =
     bindE (set_or_clear (val AND push_bit 31 1 \<noteq> 0) False ARMV7M_EXCP_NMI m) (\<lambda>m.
     bindE (set_or_clear (val AND push_bit 28 1 \<noteq> 0) (val AND push_bit 27 1 \<noteq> 0) ARMV7M_EXCP_PENDSV m)
       (set_or_clear (val AND push_bit 26 1 \<noteq> 0) (val AND push_bit 25 1 \<noteq> 0) ARMV7M_EXCP_SYSTICK))"

definition nvic_set_shpr :: "nat \<Rightarrow> u32 \<Rightarrow> 'w gic_state \<Rightarrow> 'w gic_state" where
  "nvic_set_shpr irq val g = g\<lparr>priority1 := (priority1 g)
     [irq := uint (val AND 0xff), irq + 1 := uint (drop_bit 8 val AND 0xff),
      irq + 2 := uint (drop_bit 16 val AND 0xff), irq + 3 := uint (drop_bit 24 val AND 0xff)]\<rparr>"

definition nvic_writel :: "nat \<Rightarrow> u32 \<Rightarrow> machine \<Rightarrow> machine res" where
  "nvic_writel offset val m =
     (if offset = 0x10 then nvic_write_systick_control val m
      else if offset = 0x14 then Inr (upd_nvic (\<lambda>v. v\<lparr>systick_reload_value := val\<rparr>) m)
      else if offset = 0x18 then
        bindE (systick_reload True m) (\<lambda>m.
          Inr (upd_nvic (\<lambda>v. v\<lparr>systick_control := systick_control v AND NOT SYSTICK_COUNTFLAG\<rparr>) m))
      else if offset = 0xd04 then nvic_write_icsr val m
      else if offset = 0xd08 then Inr (m\<lparr>cpu := (cpu m)\<lparr>vecbase := val AND 0xffffff80\<rparr>\<rparr>)
      else if offset = 0xd0c then
        (if drop_bit 16 val = 0x05fa then
           if val AND 2 \<noteq> 0 then Inl (hw_error ''VECTCLRACTIVE not implemented'')
           else if val AND 5 \<noteq> 0 then Inl (hw_error ''System reset'')
           else Inr m
         else Inr m)
      else if offset = 0xd18 \<or> offset = 0xd1c \<or> offset = 0xd20 then
        on_gic (\<lambda>(g, w). Inr (gic_update (nvic_set_shpr (shpr_irq offset) val g, w))) m
      else if offset = 0xd24 then
        Inr (upd_gic (\<lambda>g.
          upd_irq ARMV7M_EXCP_USAGE (irq_enabled_update (\<lambda>_. val AND push_bit 18 1 \<noteq> 0))
         (upd_irq ARMV7M_EXCP_BUS (irq_enabled_update (\<lambda>_. val AND push_bit 17 1 \<noteq> 0))
         (upd_irq ARMV7M_EXCP_MEM (irq_enabled_update (\<lambda>_. val AND push_bit 16 1 \<noteq> 0)) g))) m)
      else Inl (hw_error ''NVIC: Bad write offset''))"

section \<open>The region of the guest's accesses\<close>

definition gic_dist_readl :: "nat \<Rightarrow> machine \<Rightarrow> (u32 \<times> machine) res" where
  "gic_dist_readl offset m =
     (if offset < 0x100 \<or> offset > 0xd00 then nvic_readl offset m
      else bindE (gic_dist_readw offset (the_gic (nvic m))) (\<lambda>lo.
           bindE (gic_dist_readw (offset + 2) (the_gic (nvic m))) (\<lambda>hi. Inr (lo OR push_bit 16 hi, m))))"

definition gic_dist_writel :: "nat \<Rightarrow> u32 \<Rightarrow> machine \<Rightarrow> machine res" where
  "gic_dist_writel offset val m =
     (if offset < 0x100 \<or> (offset > 0xd00 \<and> offset \<noteq> 0xf00) then nvic_writel offset val m
      else if offset = 0xf00 then on_gic (gic_soft_int val) m
      else bindE (on_gic (gic_dist_writew offset (val AND 0xffff)) m)
             (on_gic (gic_dist_writew (offset + 2) (drop_bit 16 val))))"

section \<open>Initialisation\<close>

text \<open>
  \<open>armv7m_nvic_init\<close> resets the controller and makes the timer; \<open>armv7m_init\<close> connects the
  output to the interrupt line of the CPU. The rest of the allocated state is zero. That the function also maps the region of the
  registers at 0xe000e000 and registers the state for snapshots is not part of this state.
\<close>

definition cpu_pic :: "CPUARMState res qemu_irq" where
  "cpu_pic = qemu_allocate_irqs (\<lambda>n level w. bindE w (arm_pic_cpu_handler n level)) 2 ! 0"

definition armv7m_nvic_init :: "nat \<Rightarrow> CPUARMState \<Rightarrow> timer_state \<Rightarrow> machine" where
  "armv7m_nvic_init i env t =
     \<lparr>nvic = \<lparr>the_gic = gic_init\<lparr>parent_irq := cpu_pic\<rparr>, systick_control = 0, systick_reload_value = 0,
        systick_tick = 0, systick_timer = i\<rparr>,
      cpu = env, tmr = qemu_new_timer i QEMU_CLOCK_VIRTUAL 1 t, system_clock_scale = 0\<rparr>"

section \<open>The interrupt line of the CPU\<close>

text \<open>
  The controller is wired to the CPU and enabled; it has settled when its choice and its
  output are up to date: the interrupt request of the CPU is raised exactly when the most
  urgent interrupt passes the priority mask and preempts the running one.
\<close>

definition wired :: "CPUARMState res gic_state \<Rightarrow> bool" where
  "wired g \<longleftrightarrow> parent_irq g = cpu_pic \<and> gic_enabled g = 1 \<and> cpu_enabled g = 1"

definition line_settled :: "CPUARMState res gic_state \<Rightarrow> CPUARMState \<Rightarrow> bool" where
  "line_settled g c \<longleftrightarrow>
     current_pending g = (if fst (most_urgent g) \<le> priority_mask g then snd (most_urgent g) else 1023) \<and>
     (interrupt_request c AND CPU_INTERRUPT_HARD \<noteq> 0 \<longleftrightarrow>
        fst (most_urgent g) \<le> priority_mask g \<and> fst (most_urgent g) < running_priority g)"

definition machine_ok :: "machine \<Rightarrow> bool" where
  "machine_ok m \<longleftrightarrow> wired (the_gic (nvic m)) \<and> gic_ok (the_gic (nvic m)) \<and> line_settled (the_gic (nvic m)) (cpu m)"

definition set_line :: "bool \<Rightarrow> CPUARMState \<Rightarrow> CPUARMState" where
  "set_line b = (if b then cpu_interrupt CPU_INTERRUPT_HARD else cpu_reset_interrupt CPU_INTERRUPT_HARD)"

lemma hard_bit:
  fixes x :: u32
  shows "(x OR CPU_INTERRUPT_HARD) AND CPU_INTERRUPT_HARD \<noteq> 0" "(x AND NOT CPU_INTERRUPT_HARD) AND CPU_INTERRUPT_HARD = 0"
  using and_2_power_eq_0_iff [of "x OR 2" 1] and_2_power_eq_0_iff [of "x AND NOT 2" 1]
  by (simp_all add: bit_simps)

lemma set_line_hard [simp]: "interrupt_request (set_line b c) AND CPU_INTERRUPT_HARD \<noteq> 0 \<longleftrightarrow> b"
proof (cases b)
  case True
  then show ?thesis using hard_bit(1) [of "interrupt_request c"] by (simp add: set_line_def cpu_interrupt_def)
next
  case False
  then show ?thesis using hard_bit(2) [of "interrupt_request c"] by (simp add: set_line_def cpu_reset_interrupt_def)
qed

lemma drive_cpu_pic [simp]:
  "qemu_set_irq cpu_pic level (Inr c) = Inr (set_line (level \<noteq> 0) c)"
  by (simp add: cpu_pic_def arm_pic_cpu_handler_def set_line_def)

lemma most_urgent_cong:
  assumes "irq_state g' = irq_state g" "priority1 g' = priority1 g" "priority2 g' = priority2 g"
  shows "most_urgent g' = most_urgent g"
proof -
  have p: "GIC_GET_PRIORITY g' = GIC_GET_PRIORITY g" using assms by (intro ext) (simp add: GIC_GET_PRIORITY_def)
  show ?thesis unfolding most_urgent_def candidates_def p assms(1) ..
qed

lemma gic_update_wired:
  assumes "wired g"
  shows "gic_update (g, Inr c) =
    (g\<lparr>current_pending := if fst (most_urgent g) \<le> priority_mask g then snd (most_urgent g) else 1023\<rparr>,
     Inr (set_line (fst (most_urgent g) \<le> priority_mask g \<and> fst (most_urgent g) < running_priority g) c))"
  using assms by (auto simp: gic_update_eq wired_def case_prod_unfold Let_def)

lemma gic_update_settles:
  assumes "gic_update (g, Inr c) = (g', w)" "wired g"
  obtains c' b where "w = Inr c'" "c' = set_line b c" "wired g'" "line_settled g' c'"
proof -
  have m: "most_urgent (g\<lparr>current_pending := k\<rparr>) = most_urgent g" for k by (rule most_urgent_cong) simp_all
  show ?thesis
    using assms that unfolding gic_update_wired [OF assms(2)]
    by (auto simp: line_settled_def m wired_def)
qed

lemma wired_fields [simp]:
  "wired (upd_irq i f g) = wired g" "wired (g\<lparr>current_pending := a\<rparr>) = wired g" "wired (g\<lparr>last_active := l\<rparr>) = wired g"
  "wired (g\<lparr>running_irq := b\<rparr>) = wired g" "wired (g\<lparr>running_priority := d\<rparr>) = wired g"
  "wired (g\<lparr>priority1 := e\<rparr>) = wired g" "wired (g\<lparr>priority2 := e\<rparr>) = wired g"
  by (simp_all add: wired_def)

definition good :: "CPUARMState res gic_state \<times> CPUARMState res \<Rightarrow> bool" where
  "good = (\<lambda>(g, w). wired g \<and> (\<exists>c. w = Inr c \<and> line_settled g c))"

lemma good_update [intro]: "wired g \<Longrightarrow> good (gic_update (g, Inr c))"
  by (cases "gic_update (g, Inr c)") (auto simp: good_def elim: gic_update_settles)

lemma good_last_active [simp]: "good (g\<lparr>last_active := l\<rparr>, w) = good (g, w)"
  using most_urgent_cong [of "g\<lparr>last_active := l\<rparr>" g] by (simp add: good_def line_settled_def)

lemma wired_each8:
  assumes "\<And>i g. wired (f i g) = wired g"
  shows "wired (each8 val irq f g) = wired g"
proof -
  have "wired (fold (\<lambda>i s. if val AND push_bit i 1 \<noteq> 0 then f (irq + i) s else s) is g) = wired g" for "is"
    by (induction "is" arbitrary: g) (auto simp: assms)
  then show ?thesis by (simp only: each8_def)
qed

lemma good_write_byte:
  assumes "gic_dist_writeb offset val (g, Inr c) = Inr h" "wired g"
  shows "good h"
proof -
  have e: "wired (gic_enable_irq i s) = wired s" for i s by (simp add: gic_enable_irq_def Let_def)
  have p: "wired (set_priority i val s) = wired s" for i s by (simp add: set_priority_def)
  note f = wired_each8 [of "\<lambda>i. upd_irq i (irq_enabled_update (\<lambda>_. False))"] wired_each8 [of gic_enable_irq]
    wired_each8 [of "\<lambda>i. upd_irq i (irq_pending_update (\<lambda>_. False))"]
    wired_each8 [of "\<lambda>i. upd_irq i (irq_pending_update (\<lambda>_. True))"]
  show ?thesis using assms unfolding gic_dist_writeb_def Let_def prod.case
    by (auto split: if_splits intro!: good_update simp: f e p)
qed

lemma unlink_active_last: "unlink_active n irq tmp s = Inr t \<Longrightarrow> t = s\<lparr>last_active := last_active t\<rparr>"
proof (induction n irq tmp s rule: unlink_active.induct)
  case (2 n irq tmp s)
  then show ?case by (auto split: if_splits)
qed simp

lemma good_unlink: "unlink_active n irq tmp s = Inr t \<Longrightarrow> good (t, w) = good (s, w)"
  by (drule unlink_active_last) (metis good_last_active)

lemma wired_unlink: "unlink_active n irq tmp s = Inr t \<Longrightarrow> wired t = wired s"
  by (drule unlink_active_last) (metis wired_fields(3))

lemma gic_step_good:
  assumes "gic_step (g, Inr c) h" "good (g, Inr c)"
  shows "good h"
proof -
  have w: "wired g" using assms(2) by (simp add: good_def)
  show ?thesis using assms(1)
  proof cases
    case (set_irq n level)
    then show ?thesis using w assms(2) by (auto simp: gic_set_irq_def Let_def split: if_splits intro!: good_update)
  next
    case (set_pending irq)
    then show ?thesis using w assms(2) by (auto simp: gic_set_pending_private_def split: if_splits intro!: good_update)
  next
    case (acknowledge irq)
    then show ?thesis using w assms(2)
      by (auto simp: gic_acknowledge_irq_def gic_set_running_irq_def Let_def split: if_splits intro!: good_update)
  next
    case (complete i)
    then show ?thesis using w assms(2)
      by (auto simp: gic_complete_irq_def gic_set_running_irq_def Let_def good_unlink wired_unlink
          split: if_splits intro!: good_update)
  next
    case (write_byte offset val)
    then show ?thesis using w good_write_byte by blast
  next
    case (soft_int val)
    then show ?thesis using w by (auto simp: gic_soft_int_def Let_def split: if_splits intro!: good_update)
  qed
qed

section \<open>The machine as a state machine\<close>

text \<open>
  Everything that happens to the controller: external lines change, the guest reads and
  writes words in the region, the CPU acknowledges and completes exceptions and runs code
  that leaves its interrupt request alone, time passes and the SysTick timer fires. Two kinds of
  guest writes are left out: those that set the priority of an exception that is active, and those to the System
  Handler Control register, the one write that does not update the controller, while one of the three faults it enables is pending.
\<close>

definition priorities_written :: "nat \<Rightarrow> nat set" where
  "priorities_written offset =
     (if offset = 0xd18 \<or> offset = 0xd1c \<or> offset = 0xd20 then {shpr_irq offset ..< shpr_irq offset + 4}
      else reg_irq 0x400 1 ` ({offset ..< offset + 4} \<inter> {0x400 ..< 0x800}))"

definition write_allowed :: "nat \<Rightarrow> 'w gic_state \<Rightarrow> bool" where
  "write_allowed offset g \<longleftrightarrow> (\<forall>i\<in>priorities_written offset. \<not> active_irq g i) \<and>
     (offset = 0xd24 \<longrightarrow> (\<forall>i\<in>{ARMV7M_EXCP_MEM, ARMV7M_EXCP_BUS, ARMV7M_EXCP_USAGE}. \<not> irq_pending (irq_state g ! i)))"

inductive machine_step :: "machine \<Rightarrow> machine \<Rightarrow> bool" where
  external: "on_gic (gic_set_irq n level) m = Inr m' \<Longrightarrow> machine_step m m'"
| raised: "armv7m_nvic_set_pending irq m = Inr m' \<Longrightarrow> machine_step m m'"
| acknowledged: "armv7m_nvic_acknowledge_irq m = Inr (irq, m') \<Longrightarrow> machine_step m m'"
| completed: "0 \<le> irq \<Longrightarrow> irq < 80 \<Longrightarrow> armv7m_nvic_complete_irq GIC_NIRQ irq m = Inr m' \<Longrightarrow> machine_step m m'"
| guest_read: "gic_dist_readl offset m = Inr (val, m') \<Longrightarrow> machine_step m m'"
| guest_write: "gic_dist_writel offset val m = Inr m' \<Longrightarrow> write_allowed offset (the_gic (nvic m)) \<Longrightarrow> machine_step m m'"
| ticked: "systick_timer_tick m = Inr m' \<Longrightarrow> machine_step m m'"
| executed: "interrupt_request c = interrupt_request (cpu m) \<Longrightarrow> machine_step m (m\<lparr>cpu := c\<rparr>)"
| waited: "machine_step m (m\<lparr>tmr := t\<rparr>)"

lemma write_allowed_low: "offset < 0x3fd \<Longrightarrow> write_allowed offset g"
  by (auto simp: write_allowed_def priorities_written_def)

lemma machine_ok_iff: "machine_ok m \<longleftrightarrow> good (the_gic (nvic m), Inr (cpu m)) \<and> gic_ok (the_gic (nvic m))"
  by (auto simp: machine_ok_def good_def)

lemma put_gic_Inr:
  "put_gic (g, w) m = Inr m' \<longleftrightarrow> (\<exists>c. w = Inr c \<and> m' = upd_gic (\<lambda>_. g) (m\<lparr>cpu := c\<rparr>))"
  by (cases w) (auto simp: put_gic_def)

lemma upd_gic_fields [simp]:
  "the_gic (nvic (upd_gic f m)) = f (the_gic (nvic m))" "cpu (upd_gic f m) = cpu m" "tmr (upd_gic f m) = tmr m"
  "systick_control (nvic (upd_gic f m)) = systick_control (nvic m)"
  "systick_reload_value (nvic (upd_gic f m)) = systick_reload_value (nvic m)"
  "systick_tick (nvic (upd_gic f m)) = systick_tick (nvic m)"
  "systick_timer (nvic (upd_gic f m)) = systick_timer (nvic m)"
  "system_clock_scale (upd_gic f m) = system_clock_scale m"
  by (simp_all add: upd_gic_def upd_nvic_def)

text \<open>Functions of SysTick leave the controller and the CPU alone.\<close>

definition same_gic :: "machine \<Rightarrow> machine \<Rightarrow> bool" where
  "same_gic m m' \<longleftrightarrow> the_gic (nvic m') = the_gic (nvic m) \<and> cpu m' = cpu m"

lemma same_gic_ok: "same_gic m m' \<Longrightarrow> machine_ok m' = machine_ok m"
  by (simp add: same_gic_def machine_ok_def)

lemma same_gic_simps [simp]:
  "same_gic m m" "same_gic m (m'\<lparr>tmr := t\<rparr>) = same_gic m m'"
  "(\<And>v. the_gic (f v) = the_gic v) \<Longrightarrow> same_gic m (upd_nvic f m') = same_gic m m'"
  by (simp_all add: same_gic_def upd_nvic_def)

lemma same_gic_clock [simp]: "vm_clock m' = (now, m'') \<Longrightarrow> same_gic m m'' = same_gic m m'"
  by (auto simp: vm_clock_def split: prod.splits)

lemma same_gic_reload: "systick_reload b m' = Inr m'' \<Longrightarrow> same_gic m m' \<Longrightarrow> same_gic m m''"
  by (auto simp: systick_reload_def systick_mod_timer_def Let_def split: prod.splits if_splits)

lemma same_gic_write_control: "nvic_write_systick_control val m = Inr m' \<Longrightarrow> same_gic m m'"
  by (auto simp: nvic_write_systick_control_def systick_mod_timer_def Let_def
      split: prod.splits if_splits elim!: same_gic_reload)

lemma same_gic_read: "nvic_readl offset m = Inr (val, m') \<Longrightarrow> same_gic m m'"
  by (auto simp: nvic_readl_def nvic_systick_value_def Let_def split: if_splits option.splits prod.splits)

lemma on_gic_steps:
  assumes "on_gic f m = Inr m'" "machine_ok m"
    and "\<And>h. f (the_gic (nvic m), Inr (cpu m)) = Inr h \<Longrightarrow> gic_step\<^sup>*\<^sup>* (the_gic (nvic m), Inr (cpu m)) h"
  shows "machine_ok m'"
proof -
  obtain g w where h: "f (the_gic (nvic m), Inr (cpu m)) = Inr (g, w)" "put_gic (g, w) m = Inr m'"
    using assms(1) by (auto simp: on_gic_def)
  have "good h' \<and> gic_ok (fst h')" if "gic_step\<^sup>*\<^sup>* (the_gic (nvic m), Inr (cpu m)) h'" for h'
    using that
  proof (induction rule: rtranclp_induct)
    case base
    then show ?case using assms(2) by (simp add: machine_ok_iff)
  next
    case (step x y)
    then obtain g c where "x = (g, Inr c)" by (cases x) (auto simp: good_def)
    then show ?case using step gic_step_good gic_step_ok by blast
  qed
  then have "good (g, w) \<and> gic_ok g" using assms(3) [OF h(1)] by force
  then show ?thesis using h(2) by (auto simp: put_gic_Inr machine_ok_iff)
qed

lemma on_gic_update:
  assumes "on_gic (\<lambda>(g, w). Inr (gic_update (f g, w))) m = Inr m'" "machine_ok m"
    and "wired (f (the_gic (nvic m)))" "stack_ok (the_gic (nvic m)) xs \<Longrightarrow> stack_ok (f (the_gic (nvic m))) xs"
    and "stack_ok (the_gic (nvic m)) xs"
  shows "machine_ok m'"
proof -
  obtain g w where u: "gic_update (f (the_gic (nvic m)), Inr (cpu m)) = (g, w)" by fastforce
  then have "put_gic (g, w) m = Inr m'" using assms(1) by (auto simp: on_gic_def)
  moreover have "good (g, w)" using good_update [OF assms(3)] u by metis
  moreover have "gic_ok g" using gic_ok_update [OF assms(4) [OF assms(5)], of "Inr (cpu m)"] u by simp
  ultimately show ?thesis by (auto simp: put_gic_Inr machine_ok_iff)
qed

lemma set_pending_ok: "armv7m_nvic_set_pending irq m = Inr m' \<Longrightarrow> machine_ok m \<Longrightarrow> machine_ok m'"
  unfolding armv7m_nvic_set_pending_def Let_def by (erule on_gic_steps) (auto intro: gic_step.set_pending)

lemma set_or_clear_ok:
  assumes "set_or_clear a b irq m = Inr m'" "machine_ok m"
  shows "machine_ok m'"
proof -
  obtain xs where xs: "stack_ok (the_gic (nvic m)) xs" using assms(2) by (auto simp: machine_ok_def gic_ok_def)
  show ?thesis
    using assms set_pending_ok on_gic_update [of "upd_irq irq (irq_pending_update (\<lambda>_. False))" m m' xs] xs
    by (auto simp: set_or_clear_def machine_ok_def split: if_splits)
qed

lemma stack_ok_shpr:
  assumes "stack_ok g xs" "set xs \<inter> {irq ..< irq + 4} = {}"
  shows "stack_ok (nvic_set_shpr irq val g) xs"
proof (rule stack_ok_priorities [OF assms(1)])
  show "GIC_GET_PRIORITY (nvic_set_shpr irq val g) x = GIC_GET_PRIORITY g x" if "x \<in> set xs" for x
  proof -
    have "x \<notin> {irq ..< irq + 4}" using that assms(2) by blast
    then have "x \<noteq> irq" "x \<noteq> irq + 1" "x \<noteq> irq + 2" "x \<noteq> irq + 3" by auto
    then show ?thesis by (simp add: GIC_GET_PRIORITY_def nvic_set_shpr_def)
  qed
qed (use assms(1) in \<open>simp_all add: stack_ok_def gic_sizes_def nvic_set_shpr_def\<close>)

lemma pending_enable [simp]:
  "irq_pending (irq_state (upd_irq i (irq_enabled_update f) g) ! j) = irq_pending (irq_state g ! j)"
  by (cases "i < length (irq_state g)"; cases "j = i") (simp_all add: upd_irq_def list_update_beyond not_less)

text \<open>Enabling or disabling an interrupt that is not pending changes no choice.\<close>

lemma most_urgent_enable:
  assumes "\<not> irq_pending (irq_state g ! i)"
  shows "most_urgent (upd_irq i (irq_enabled_update f) g) = most_urgent g"
proof -
  have "irq_enabled (irq_state (upd_irq i (irq_enabled_update f) g) ! j) = irq_enabled (irq_state g ! j)" if "j \<noteq> i" for j
    using that by (simp add: upd_irq_def)
  then have "irq_enabled (irq_state (upd_irq i (irq_enabled_update f) g) ! j) \<and> irq_pending (irq_state g ! j) \<longleftrightarrow>
      irq_enabled (irq_state g ! j) \<and> irq_pending (irq_state g ! j)" for j
    using assms by (cases "j = i") simp_all
  then have "candidates (upd_irq i (irq_enabled_update f) g) GIC_NIRQ = candidates g GIC_NIRQ"
    unfolding candidates_def by (intro filter_cong) auto
  then show ?thesis by (simp add: most_urgent_def cong: list.case_cong)
qed

lemma machine_ok_enable:
  assumes "machine_ok m" "\<not> irq_pending (irq_state (the_gic (nvic m)) ! i)"
  shows "machine_ok (upd_gic (upd_irq i (irq_enabled_update f)) m)"
proof -
  have "gic_ok (upd_irq i (irq_enabled_update f) (the_gic (nvic m))) = gic_ok (the_gic (nvic m))" by (simp add: gic_ok_def pending_ok_def)
  then show ?thesis using assms(1) most_urgent_enable [OF assms(2)] by (simp add: machine_ok_def line_settled_def)
qed

lemma shcsr_ok:
  assumes "nvic_writel 0xd24 val m = Inr m'" "machine_ok m" "write_allowed 0xd24 (the_gic (nvic m))"
  shows "machine_ok m'"
proof -
  let ?e = "\<lambda>i b. upd_gic (upd_irq i (irq_enabled_update (\<lambda>_. b)))"
  have "m' = ?e ARMV7M_EXCP_USAGE (val AND push_bit 18 1 \<noteq> 0) (?e ARMV7M_EXCP_BUS (val AND push_bit 17 1 \<noteq> 0)
      (?e ARMV7M_EXCP_MEM (val AND push_bit 16 1 \<noteq> 0) m))"
    using assms(1) by (simp add: nvic_writel_def upd_gic_def upd_nvic_def)
  moreover have "\<forall>i\<in>{ARMV7M_EXCP_MEM, ARMV7M_EXCP_BUS, ARMV7M_EXCP_USAGE}. \<not> irq_pending (irq_state (the_gic (nvic m)) ! i)"
    using assms(3) by (simp add: write_allowed_def)
  ultimately show ?thesis using assms(2) by (auto intro!: machine_ok_enable)
qed

lemma nvic_writel_ok:
  assumes "nvic_writel offset val m = Inr m'" "machine_ok m" "write_allowed offset (the_gic (nvic m))"
  shows "machine_ok m'"
proof -
  consider "offset = 0xd18 \<or> offset = 0xd1c \<or> offset = 0xd20" | "offset = 0xd24"
    | "\<not> (offset = 0xd18 \<or> offset = 0xd1c \<or> offset = 0xd20)" "offset \<noteq> 0xd24" by blast
  then show ?thesis
  proof cases
    case 1
    obtain xs where xs: "stack_ok (the_gic (nvic m)) xs" using assms(2) by (auto simp: machine_ok_def gic_ok_def)
    moreover have "set xs \<inter> {shpr_irq offset ..< shpr_irq offset + 4} = {}"
      using assms(3) 1 active_irq_stack [OF xs] by (auto simp: write_allowed_def priorities_written_def)
    ultimately have "stack_ok (nvic_set_shpr (shpr_irq offset) val (the_gic (nvic m))) xs" by (rule stack_ok_shpr)
    moreover have "wired (nvic_set_shpr (shpr_irq offset) val (the_gic (nvic m)))"
      using assms(2) by (simp add: machine_ok_def nvic_set_shpr_def)
    moreover have "on_gic (\<lambda>(g, w). Inr (gic_update (nvic_set_shpr (shpr_irq offset) val g, w))) m = Inr m'"
      using assms(1) 1 by (auto simp: nvic_writel_def)
    ultimately show ?thesis using on_gic_update assms(2) xs by blast
  next
    case 2
    then show ?thesis using shcsr_ok assms by blast
  next
    case 3
    have icsr: "machine_ok m'" if "nvic_write_icsr val m = Inr m'"
      using that assms(2) unfolding nvic_write_icsr_def by (elim bindE_InrE) (blast intro: set_or_clear_ok)
    have tick: "same_gic m m'"
      if "bindE (systick_reload True m) (\<lambda>m. Inr (upd_nvic (\<lambda>v. v\<lparr>systick_control := systick_control v AND NOT SYSTICK_COUNTFLAG\<rparr>) m)) = Inr m'"
      using that same_gic_reload [of True m _ m] by auto
    have cpu: "machine_ok (m\<lparr>cpu := (cpu m)\<lparr>vecbase := v\<rparr>\<rparr>)" for v
      using assms(2) by (simp add: machine_ok_def line_settled_def)
    have reload: "machine_ok (upd_nvic (\<lambda>v. v\<lparr>systick_reload_value := x\<rparr>) m)" for x
      using same_gic_ok [of m] assms(2) by simp
    show ?thesis
      using assms(1) 3 icsr same_gic_ok [OF tick] same_gic_ok [OF same_gic_write_control] cpu reload assms(2)
      unfolding nvic_writel_def by (simp only: simp_thms if_False split: if_split_asm) blast+
  qed
qed

text \<open>Byte writes leave the list of active interrupts alone.\<close>

lemma active_irq_upd_irq [simp]: "active_irq (upd_irq i f s) = active_irq s"
  by (intro ext) (simp add: active_irq_def)

lemma active_irq_fields [simp]:
  "active_irq (set_priority i val s) = active_irq s"
  "active_irq (gic_enable_irq i s) = active_irq s" "active_irq (fst (gic_update (s, w))) = active_irq s"
proof -
  show "active_irq (gic_enable_irq i s) = active_irq s" by (simp add: gic_enable_irq_def Let_def)
  show "active_irq (set_priority i val s) = active_irq s" by (intro ext) (simp add: active_irq_def set_priority_def)
  show "active_irq (fst (gic_update (s, w))) = active_irq s"
    by (rule gic_update_keeps [of s w]) (simp add: active_irq_def fun_eq_iff)
qed

lemma active_irq_each8:
  assumes "\<And>i s. active_irq (f i s) = active_irq s"
  shows "active_irq (each8 v i f s) = active_irq s"
proof -
  have "active_irq (fold (\<lambda>j s. if v AND push_bit j 1 \<noteq> 0 then f (i + j) s else s) is s) = active_irq s" for "is"
    by (induction "is" arbitrary: s) (auto simp: assms)
  then show ?thesis by (simp only: each8_def)
qed

lemma active_irq_writeb:
  assumes "gic_dist_writeb offset val g = Inr h"
  shows "active_irq (fst h) = active_irq (fst g)"
  using assms unfolding gic_dist_writeb_def Let_def
  by (auto split: if_splits prod.splits simp: active_irq_each8)

lemma dist_writew_steps:
  assumes "gic_dist_writew offset val g = Inr h"
    "\<forall>b\<in>{offset, offset + 1}. b < 0x400 \<or> \<not> active_irq (fst g) (reg_irq 0x400 1 b)"
  shows "gic_step\<^sup>*\<^sup>* g h" "active_irq (fst h) = active_irq (fst g)"
proof -
  obtain h1 where h1: "gic_dist_writeb offset (val AND 0xff) g = Inr h1" "gic_dist_writeb (offset + 1) (drop_bit 8 val) h1 = Inr h"
    using assms(1) by (auto simp: gic_dist_writew_def)
  note a = active_irq_writeb [OF h1(1)] active_irq_writeb [OF h1(2)]
  have "gic_step g h1" "gic_step h1 h" using assms(2) h1 a(1) by (auto intro: gic_step.write_byte)
  then show "gic_step\<^sup>*\<^sup>* g h" by (simp add: converse_rtranclp_into_rtranclp)
  show "active_irq (fst h) = active_irq (fst g)" using a by simp
qed

lemma writel_ok:
  assumes "gic_dist_writel offset val m = Inr m'" "machine_ok m" "write_allowed offset (the_gic (nvic m))"
  shows "machine_ok m'"
proof (cases "offset < 0x100 \<or> offset > 0xd00")
  case True
  then show ?thesis using assms nvic_writel_ok on_gic_steps [of "gic_soft_int val" m m']
    by (auto simp: gic_dist_writel_def split: if_splits intro: gic_step.soft_int)
next
  case False
  obtain m1 where m1: "on_gic (gic_dist_writew offset (val AND 0xffff)) m = Inr m1"
    and m': "on_gic (gic_dist_writew (offset + 2) (drop_bit 16 val)) m1 = Inr m'"
    using assms(1) False by (auto simp: gic_dist_writel_def)
  have r: "b < 0x400 \<or> 0x800 \<le> b \<or> \<not> active_irq (the_gic (nvic m)) (reg_irq 0x400 1 b)" if "b \<in> {offset ..< offset + 4}" for b
    using assms(3) False that by (auto simp: write_allowed_def priorities_written_def split: if_splits)
  have w: "gic_step\<^sup>*\<^sup>* g h \<and> active_irq (fst h) = active_irq (fst g)"
    if "gic_dist_writew off v g = Inr h" "off \<in> {offset, offset + 2}" "active_irq (fst g) = active_irq (the_gic (nvic m))" for off v g h
  proof -
    have "off + 1 < 0x800" using that(1) by (auto simp: gic_dist_writew_def gic_dist_writeb_def Let_def split: if_splits prod.splits)
    then have "\<forall>b\<in>{off, off + 1}. b < 0x400 \<or> \<not> active_irq (fst g) (reg_irq 0x400 1 b)"
      using r [of off] r [of "off + 1"] that(2,3) by auto
    then show ?thesis using dist_writew_steps [OF that(1)] by blast
  qed
  have "machine_ok m1" by (rule on_gic_steps [OF m1 assms(2)]) (use w in force)
  moreover have "active_irq (the_gic (nvic m1)) = active_irq (the_gic (nvic m))"
    using m1 w by (force simp: on_gic_def put_gic_Inr)
  ultimately show ?thesis using w by (intro on_gic_steps [OF m']) force+
qed

lemma machine_step_ok:
  assumes "machine_step m m'" "machine_ok m"
  shows "machine_ok m'"
  using assms(1)
proof cases
  case (external n level)
  show ?thesis by (rule on_gic_steps [OF external assms(2)]) (blast intro: gic_step.set_irq)
next
  case (raised irq)
  then show ?thesis using assms(2) by (rule set_pending_ok)
next
  case (acknowledged irq)
  then obtain i r where r: "gic_acknowledge_irq (the_gic (nvic m), Inr (cpu m)) = Inr (i, r)" "put_gic r m = Inr m'"
    by (auto simp: armv7m_nvic_acknowledge_irq_def split: if_splits)
  have "on_gic (\<lambda>g. bindE (gic_acknowledge_irq g) (\<lambda>(i, r). Inr r)) m = Inr m'" using r by (simp add: on_gic_def)
  then show ?thesis using assms(2) by (rule on_gic_steps) (auto intro: gic_step.acknowledge)
next
  case (completed irq)
  define i where "i = nat (if irq \<ge> 16 then irq + 16 else irq)"
  have i: "i < GIC_NIRQ" "(if irq \<ge> 16 then irq + 16 else irq) = int i" using completed by (auto simp: i_def GIC_NIRQ_def)
  have "on_gic (gic_complete_irq GIC_NIRQ (int i)) m = Inr m'"
    using completed(3) unfolding armv7m_nvic_complete_irq_def Let_def i(2) .
  then show ?thesis using assms(2) by (rule on_gic_steps) (blast intro: gic_step.complete i(1))
next
  case (guest_read offset val)
  then have "same_gic m m'" by (auto simp: gic_dist_readl_def same_gic_read split: if_splits)
  then show ?thesis using assms(2) same_gic_ok by blast
next
  case (guest_write offset val)
  then show ?thesis using writel_ok assms(2) by blast
next
  case ticked
  define n where "n = upd_nvic (\<lambda>v. v\<lparr>systick_control := systick_control v OR SYSTICK_COUNTFLAG\<rparr>) m"
  have "machine_ok n" using assms(2) same_gic_ok [of m n] by (simp add: n_def)
  then obtain k where k: "machine_ok k" "m' = upd_nvic (\<lambda>v. v\<lparr>systick_control := systick_control v AND NOT SYSTICK_ENABLE\<rparr>) k \<or>
      systick_reload False k = Inr m'"
    using ticked set_pending_ok [of "int ARMV7M_EXCP_SYSTICK" n]
    unfolding systick_timer_tick_def Let_def n_def [symmetric] by (auto split: if_splits)
  then have "same_gic k m'" using same_gic_reload [of False k m' k] by auto
  then show ?thesis using k(1) same_gic_ok by blast
next
  case (executed c)
  then show ?thesis using assms(2) by (simp add: machine_ok_def line_settled_def)
next
  case (waited t)
  then show ?thesis using assms(2) by (simp add: machine_ok_def)
qed

lemma machine_ok_init:
  assumes "interrupt_request env = 0"
  shows "machine_ok (armv7m_nvic_init i env t)"
proof -
  have "most_urgent (gic_init\<lparr>parent_irq := cpu_pic\<rparr>) = (0x100, 1023)"
    by (rule most_urgent_none) (simp add: gic_init_none_pending)
  then show ?thesis using gic_init_stack [of cpu_pic] assms
    by (auto simp: machine_ok_def armv7m_nvic_init_def gic_ok_def line_settled_def wired_def gic_init_fields)
qed

text \<open>
  C13: from reset, through any sequence of changes of the external lines, raised, acknowledged and completed exceptions, guest
  reads and writes of the region, ticks and executed code, in which the guest writes no priority of an exception that is active at the time and
  does not write the System Handler Control register while one of its three faults is pending: the interrupt request of the CPU is raised exactly
  when the most urgent enabled and pending interrupt passes the priority mask and preempts the running
  one, the controller's choice is that interrupt, and the active exceptions form a stack, ordered by priority. (Both exceptions are
  needed: \<open>complete_may_not_end\<close> and \<open>enabled_fault_not_signalled\<close>.)
\<close>

theorem nvic_reachable_settled:
  assumes "machine_step\<^sup>*\<^sup>* (armv7m_nvic_init i env t) m" "interrupt_request env = 0"
  shows "line_settled (the_gic (nvic m)) (cpu m) \<and> pending_ok (the_gic (nvic m)) \<and>
    (\<exists>xs. stack_ok (the_gic (nvic m)) xs \<and> distinct xs)"
proof -
  have "machine_ok m"
    using assms(1)
  proof (induction rule: rtranclp_induct)
    case base
    then show ?case using assms(2) by (rule machine_ok_init)
  next
    case (step x y)
    then show ?case by (blast intro: machine_step_ok)
  qed
  then show ?thesis unfolding machine_ok_def gic_ok_def stack_ok_def
    by (auto dest: sorted_wrt_less_distinct)
qed

section \<open>The life of an exception\<close>

lemma most_urgent_unique:
  assumes "i < GIC_NIRQ" "irq_enabled (irq_state s ! i)" "irq_pending (irq_state s ! i)" "GIC_GET_PRIORITY s i < 0x100"
    and "\<And>j. j < GIC_NIRQ \<Longrightarrow> j \<noteq> i \<Longrightarrow> irq_enabled (irq_state s ! j) \<Longrightarrow> irq_pending (irq_state s ! j) \<Longrightarrow>
      GIC_GET_PRIORITY s i < GIC_GET_PRIORITY s j"
  shows "most_urgent s = (GIC_GET_PRIORITY s i, int i)"
proof -
  let ?c = "candidates s GIC_NIRQ"
  have i: "i \<in> set ?c" using assms(1-4) by (simp add: candidates_def)
  then obtain k ks where k: "sort_key (GIC_GET_PRIORITY s) ?c = k # ks"
    by (metis length_greater_0_conv length_pos_if_in_set length_sort neq_Nil_conv)
  have "first_min (GIC_GET_PRIORITY s) ?c k" using first_min_sort_key [of ?c "GIC_GET_PRIORITY s"] i k by force
  then have "k \<in> set ?c" "GIC_GET_PRIORITY s k \<le> GIC_GET_PRIORITY s i" using i by (auto simp: first_min_def)
  then have "k = i" using assms(5) [of k] by (force simp: candidates_def)
  then show ?thesis using k by (simp add: most_urgent_def)
qed

text \<open>
  The number of an exception inside the controller, and the exceptions that are delivered when they are raised:
  enabled, not yet pending, not masked by their priority, more urgent than everything pending and running.
\<close>

definition gic_number :: "nat \<Rightarrow> nat" where
  "gic_number e = (if e \<ge> 16 then e + 16 else e)"

definition deliverable :: "nat \<Rightarrow> CPUARMState res gic_state \<Rightarrow> bool" where
  "deliverable i g \<longleftrightarrow> irq_enabled (irq_state g ! i) \<and> \<not> irq_pending (irq_state g ! i) \<and>
     GIC_GET_PRIORITY g i \<le> priority_mask g \<and> GIC_GET_PRIORITY g i < running_priority g \<and> GIC_GET_PRIORITY g i < 0x100 \<and>
     (\<forall>j<GIC_NIRQ. j \<noteq> i \<longrightarrow> irq_enabled (irq_state g ! j) \<longrightarrow> irq_pending (irq_state g ! j) \<longrightarrow>
        GIC_GET_PRIORITY g i < GIC_GET_PRIORITY g j)"

lemma raise_signals:
  assumes "machine_ok m" "stack_ok (the_gic (nvic m)) xs" "e < 80" "deliverable (gic_number e) (the_gic (nvic m))"
  obtains m1 where "armv7m_nvic_set_pending (int e) m = Inr m1" "machine_ok m1" "stack_ok (the_gic (nvic m1)) xs"
    "interrupt_request (cpu m1) AND CPU_INTERRUPT_HARD \<noteq> 0" "current_pending (the_gic (nvic m1)) = int (gic_number e)"
    "GIC_GET_PRIORITY (the_gic (nvic m1)) (gic_number e) < running_priority (the_gic (nvic m1))"
proof -
  define i where "i = gic_number e"
  define g where "g = the_gic (nvic m)"
  define h where "h = upd_irq i (irq_pending_update (\<lambda>_. True)) g"
  have i: "i < GIC_NIRQ" "i < length (irq_state g)" "(if int e \<ge> 16 then int e + 16 else int e) = int i"
    using assms(2,3) by (auto simp: i_def gic_number_def GIC_NIRQ_def g_def stack_ok_def gic_sizes_def)
  have d: "deliverable i g" using assms(4) by (simp add: i_def g_def)
  have w: "wired h" using assms(1) by (simp add: machine_ok_def h_def g_def)
  have p: "GIC_GET_PRIORITY h = GIC_GET_PRIORITY g" by (simp add: h_def)
  have mu: "most_urgent h = (GIC_GET_PRIORITY g i, int i)"
    unfolding p [symmetric] using d i by (intro most_urgent_unique) (auto simp: deliverable_def h_def nth_upd_irq)
  define m1 where "m1 = upd_gic (\<lambda>_. h\<lparr>current_pending := int i\<rparr>) (m\<lparr>cpu := set_line True (cpu m)\<rparr>)"
  have "gic_update (h, Inr (cpu m)) = (h\<lparr>current_pending := int i\<rparr>, Inr (set_line True (cpu m)))"
    using gic_update_wired [OF w, of "cpu m"] mu d by (simp add: deliverable_def h_def)
  moreover have "\<not> irq_pending (irq_state g ! i)" using d by (simp add: deliverable_def)
  ultimately have s: "armv7m_nvic_set_pending (int e) m = Inr m1"
    unfolding armv7m_nvic_set_pending_def Let_def i(3)
    using i(1) by (simp add: on_gic_def gic_set_pending_private_def g_def [symmetric] h_def [symmetric] put_gic_Inr m1_def)
  then have ok: "machine_ok m1" using set_pending_ok assms(1) by blast
  show ?thesis
    by (rule that [OF s ok])
      (use d assms(2) in \<open>simp_all add: m1_def h_def g_def deliverable_def i_def [symmetric]\<close>)
qed

text \<open>Acknowledging and completing change nothing of the CPU but its interrupt request.\<close>

definition line_only :: "CPUARMState \<Rightarrow> CPUARMState \<Rightarrow> bool" where
  "line_only c d \<longleftrightarrow> (\<exists>r. d = c\<lparr>interrupt_request := r\<rparr>)"

lemma line_only_refl: "line_only c c"
  unfolding line_only_def by (rule exI [of _ "interrupt_request c"]) simp

lemma line_only_update: "gic_update (g, Inr c) = (h, Inr d) \<Longrightarrow> wired g \<Longrightarrow> line_only c d"
  by (auto simp: gic_update_wired line_only_def set_line_def cpu_interrupt_def cpu_reset_interrupt_def split: if_splits)

lemma line_only_running:
  "gic_set_running_irq irq (g, Inr c) = Inr (h, Inr d) \<Longrightarrow> wired g \<Longrightarrow> line_only c d"
  by (auto simp: gic_set_running_irq_def Let_def elim!: line_only_update split: if_splits)

lemma line_only_acknowledge:
  "gic_acknowledge_irq (g, Inr c) = Inr (irq, h, Inr d) \<Longrightarrow> wired g \<Longrightarrow> line_only c d"
  by (auto simp: gic_acknowledge_irq_def Let_def line_only_refl elim!: line_only_running split: if_splits)

lemma line_only_complete:
  "gic_complete_irq n irq (g, Inr c) = Inr (h, Inr d) \<Longrightarrow> wired g \<Longrightarrow> line_only c d"
  by (auto simp: gic_complete_irq_def Let_def line_only_refl wired_unlink elim!: line_only_running line_only_update split: if_splits)

lemma acknowledge_delivers:
  assumes "machine_ok m" "stack_ok (the_gic (nvic m)) xs" "e < 80" "current_pending (the_gic (nvic m)) = int (gic_number e)"
    and "GIC_GET_PRIORITY (the_gic (nvic m)) (gic_number e) < running_priority (the_gic (nvic m))"
  obtains m' where "armv7m_nvic_acknowledge_irq m = Inr (int e, m')" "machine_ok m'" "stack_ok (the_gic (nvic m')) (gic_number e # xs)"
    "line_only (cpu m) (cpu m')"
proof -
  let ?g = "(the_gic (nvic m), Inr (cpu m))"
  have n: "gic_number e < GIC_NIRQ" "(if int (gic_number e) \<ge> 32 then int (gic_number e) - 16 else int (gic_number e)) = int e"
    using assms(3) by (auto simp: gic_number_def GIC_NIRQ_def)
  have p: "pending_ok (the_gic (nvic m))" "wired (the_gic (nvic m))" using assms(1) by (simp_all add: machine_ok_def gic_ok_def)
  obtain irq r where a: "gic_acknowledge_irq ?g = Inr (irq, r)"
      "if irq = 1023 then r = ?g else stack_ok (fst r) (nat irq # xs) \<and> pending_ok (fst r)"
    using gic.ack_pushes [of ?g xs] assms(2) p by auto
  have irq: "irq = int (gic_number e)" using a(1) assms(4,5) n(1)
    by (auto simp: gic_acknowledge_irq_def Let_def small_irq)
  then have st: "stack_ok (fst r) (gic_number e # xs)" using a(2) n(1) by (auto simp: small_irq)
  have "good r" using gic_step_good [of "fst ?g" "cpu m" r] gic_step.acknowledge [OF a(1)] assms(1) by (simp add: machine_ok_iff)
  then obtain c where c: "r = (fst r, Inr c)" by (cases r) (auto simp: good_def)
  define m' where "m' = upd_gic (\<lambda>_. fst r) (m\<lparr>cpu := c\<rparr>)"
  have "put_gic r m = Inr m'" unfolding m'_def by (subst c) (simp add: put_gic_Inr)
  then have m': "armv7m_nvic_acknowledge_irq m = Inr (int e, m')"
    using a(1) n(2) irq small_irq(1) [OF n(1)] by (simp add: armv7m_nvic_acknowledge_irq_def)
  have "line_only (cpu m) c" using a(1) p(2) by (subst (asm) c) (rule line_only_acknowledge)
  then show ?thesis using that [OF m'] machine_step_ok [OF machine_step.acknowledged [OF m'] assms(1)] st by (simp add: m'_def)
qed

lemma complete_ends:
  assumes "machine_ok m" "stack_ok (the_gic (nvic m)) (gic_number e # xs)" "e < 80"
  obtains m' where "armv7m_nvic_complete_irq GIC_NIRQ (int e) m = Inr m'" "machine_ok m'" "stack_ok (the_gic (nvic m')) xs"
    "line_only (cpu m) (cpu m')"
proof -
  let ?g = "(the_gic (nvic m), Inr (cpu m))"
  have n: "gic_number e < GIC_NIRQ" "(if int e \<ge> 16 then int e + 16 else int e) = int (gic_number e)"
    using assms(3) by (auto simp: gic_number_def GIC_NIRQ_def)
  obtain t where t: "gic_complete_irq GIC_NIRQ (int (gic_number e)) ?g = Inr t" "stack_ok (fst t) xs"
    using gic.complete_takes_out [of ?g "gic_number e # xs" "gic_number e"] n(1) assms(1,2)
    by (auto simp: machine_ok_def gic_ok_def)
  have "good t" using gic_step_good [of "fst ?g" "cpu m" t] gic_step.complete [OF n(1), of ?g t] t(1) assms(1) by (simp add: machine_ok_iff)
  then obtain d where d: "t = (fst t, Inr d)" by (cases t) (auto simp: good_def)
  define m' where "m' = upd_gic (\<lambda>_. fst t) (m\<lparr>cpu := d\<rparr>)"
  have "put_gic t m = Inr m'" unfolding m'_def by (subst d) (simp add: put_gic_Inr)
  then have m': "armv7m_nvic_complete_irq GIC_NIRQ (int e) m = Inr m'"
    unfolding armv7m_nvic_complete_irq_def Let_def n(2) using t(1) by (simp add: on_gic_def)
  have "wired (the_gic (nvic m))" using assms(1) by (simp add: machine_ok_def)
  with t(1) have "line_only (cpu m) d" by (subst (asm) d) (rule line_only_complete)
  then show ?thesis using that [OF m'] machine_step_ok [OF machine_step.completed [OF _ _ m'] assms(1)] assms(3) t(2) by (simp add: m'_def)
qed

text \<open>
  C10: an exception raised on the controller is delivered, if it is enabled, not pending already, its priority value is at most the
  priority mask of the controller (0xf0 after reset), below 0x100, below that of the running exception, and below
  that of every other enabled pending one: raising it sets the interrupt request of the CPU, the CPU that
  acknowledges gets the number that was raised, and completing that number takes it off the
  stack of active exceptions again.
\<close>

theorem exception_delivered:
  assumes "machine_ok m" "stack_ok (the_gic (nvic m)) xs" "e < 80" "deliverable (gic_number e) (the_gic (nvic m))"
  shows "\<exists>m1 m2 m3. armv7m_nvic_set_pending (int e) m = Inr m1 \<and>
    interrupt_request (cpu m1) AND CPU_INTERRUPT_HARD \<noteq> 0 \<and>
    armv7m_nvic_acknowledge_irq m1 = Inr (int e, m2) \<and> stack_ok (the_gic (nvic m2)) (gic_number e # xs) \<and>
    armv7m_nvic_complete_irq GIC_NIRQ (int e) m2 = Inr m3 \<and> stack_ok (the_gic (nvic m3)) xs"
proof -
  obtain m1 where m1: "armv7m_nvic_set_pending (int e) m = Inr m1" "machine_ok m1" "stack_ok (the_gic (nvic m1)) xs"
    "interrupt_request (cpu m1) AND CPU_INTERRUPT_HARD \<noteq> 0" "current_pending (the_gic (nvic m1)) = int (gic_number e)"
    "GIC_GET_PRIORITY (the_gic (nvic m1)) (gic_number e) < running_priority (the_gic (nvic m1))"
    by (rule raise_signals [OF assms])
  obtain m2 where m2: "armv7m_nvic_acknowledge_irq m1 = Inr (int e, m2)" "machine_ok m2" "stack_ok (the_gic (nvic m2)) (gic_number e # xs)"
    by (rule acknowledge_delivers [OF m1(2,3) assms(3) m1(5,6)])
  obtain m3 where "armv7m_nvic_complete_irq GIC_NIRQ (int e) m2 = Inr m3" "stack_ok (the_gic (nvic m3)) xs"
    by (rule complete_ends [OF m2(2,3) assms(3)])
  then show ?thesis using m1(1,4) m2(1,3) by blast
qed

section \<open>Reading registers back\<close>

lemma nvic_shpr_set:
  assumes "length (priority1 (the_gic s)) = 32" "irq + 3 < 32"
    and "the_gic s' = (nvic_set_shpr irq val (the_gic s))\<lparr>current_pending := c\<rparr>"
  shows "nvic_shpr irq s' = val" "j + 3 < irq \<or> irq + 3 < j \<Longrightarrow> j + 3 < 32 \<Longrightarrow> nvic_shpr j s' = nvic_shpr j s"
proof -
  have "nvic_shpr irq s' = (val AND 0xff) OR push_bit 8 (drop_bit 8 val AND 0xff) OR push_bit 16 (drop_bit 16 val AND 0xff) OR
      push_bit 24 (drop_bit 24 val AND 0xff)"
    using assms by (simp add: nvic_shpr_def nvic_set_shpr_def Let_def)
  also have "\<dots> = val" by (rule u32_eqI) (simp add: bit_simps)
  finally show "nvic_shpr irq s' = val" .
  have p: "priority1 (the_gic s') ! i = priority1 (the_gic s) ! i" if "i < irq \<or> irq + 3 < i" for i
    using assms(3) that by (auto simp: nvic_set_shpr_def)
  show "nvic_shpr j s' = nvic_shpr j s" if "j + 3 < irq \<or> irq + 3 < j" "j + 3 < 32"
    unfolding nvic_shpr_def Let_def using that by (subst (1 2 3 4) p) auto
qed

text \<open>
  The system registers read back what was written: a System Handler Priority register its
  whole word, without a change to the other two, the Vector Table Offset with its low seven
  bits clear, the SysTick reload value all 32 bits.
\<close>

theorem system_register_readback:
  assumes "gic_dist_writel offset val m = Inr m'" "machine_ok m"
  shows "(offset \<in> {0xd18, 0xd1c, 0xd20} \<longrightarrow> gic_dist_readl offset m' = Inr (val, m') \<and>
      (\<forall>k\<in>{0xd18, 0xd1c, 0xd20} - {offset}. map_sum id fst (gic_dist_readl k m') = map_sum id fst (gic_dist_readl k m))) \<and>
    (offset = 0xd08 \<longrightarrow> gic_dist_readl offset m' = Inr (val AND 0xffffff80, m')) \<and>
    (offset = 0x14 \<longrightarrow> gic_dist_readl offset m' = Inr (val, m'))"
proof (intro conjI impI)
  assume o: "offset \<in> {0xd18, 0xd1c, 0xd20}"
  define g where "g = nvic_set_shpr (shpr_irq offset) val (the_gic (nvic m))"
  have "wired g" using assms(2) by (simp add: machine_ok_def g_def nvic_set_shpr_def)
  then obtain c w where u: "gic_update (g, Inr (cpu m)) = (g\<lparr>current_pending := c\<rparr>, w)"
    using gic_update_wired by metis
  have "on_gic (\<lambda>(g, w). Inr (gic_update (nvic_set_shpr (shpr_irq offset) val g, w))) m = Inr m'"
    using assms(1) o by (auto simp: gic_dist_writel_def nvic_writel_def)
  then have "the_gic (nvic m') = g\<lparr>current_pending := c\<rparr>" using u by (auto simp: on_gic_def g_def put_gic_Inr)
  moreover have "length (priority1 (the_gic (nvic m))) = 32"
    using assms(2) by (auto simp: machine_ok_def gic_ok_def stack_ok_def gic_sizes_def)
  moreover have "shpr_irq offset + 3 < 32" using o by (auto simp: shpr_irq_def)
  ultimately have s: "nvic_shpr (shpr_irq offset) (nvic m') = val"
    "j + 3 < shpr_irq offset \<or> shpr_irq offset + 3 < j \<Longrightarrow> j + 3 < 32 \<Longrightarrow> nvic_shpr j (nvic m') = nvic_shpr j (nvic m)" for j
    using nvic_shpr_set [of "nvic m" "shpr_irq offset" "nvic m'" c val] unfolding g_def by auto
  have r: "gic_dist_readl k n = Inr (nvic_shpr (shpr_irq k) (nvic n), n)" if "k \<in> {0xd18, 0xd1c, 0xd20}" for k n
    using that by (auto simp: gic_dist_readl_def nvic_readl_def)
  show "gic_dist_readl offset m' = Inr (val, m')" using r [OF o] s(1) by simp
  show "\<forall>k\<in>{0xd18, 0xd1c, 0xd20} - {offset}. map_sum id fst (gic_dist_readl k m') = map_sum id fst (gic_dist_readl k m)"
    using o by (auto simp: r intro!: s(2)) (simp_all add: shpr_irq_def)
next
  assume "offset = 0xd08"
  then show "gic_dist_readl offset m' = Inr (val AND 0xffffff80, m')"
    using assms(1) by (auto simp: gic_dist_writel_def nvic_writel_def gic_dist_readl_def nvic_readl_def)
next
  assume "offset = 0x14"
  then show "gic_dist_readl offset m' = Inr (val, m')"
    using assms(1) by (auto simp: gic_dist_writel_def nvic_writel_def gic_dist_readl_def nvic_readl_def upd_nvic_def)
qed

section \<open>Registers that do not work\<close>

text \<open>The CPUID register is dispatched to the distributor, which has no register there.\<close>

lemma cpuid_unreadable: "gic_dist_readl 0xd00 m = Inl (hw_error ''gic_dist_readb: Bad offset'')"
  by (simp add: gic_dist_readl_def gic_dist_readw_def gic_dist_readb_def Let_def)

text \<open>The board after reset.\<close>

definition reset_machine :: machine where
  "reset_machine = armv7m_nvic_init 7 blank_cpu blank_timers"

lemma reset_machine_ok: "machine_ok reset_machine"
  unfolding reset_machine_def by (rule machine_ok_init) (simp add: blank_cpu_def)

lemma reset_deliverable: "e < 16 \<Longrightarrow> deliverable (gic_number e) (the_gic (nvic reset_machine))"
  by (auto simp: deliverable_def reset_machine_def armv7m_nvic_init_def gic_number_def GIC_GET_PRIORITY_def gic_init_fields
      gic_init_irqs nth_append GIC_NIRQ_def blank_irq_def)

text \<open>
  A write to the System Handler Control register that enables a fault which is already
  pending does not raise the interrupt request of the CPU, though the fault then is the most
  urgent interrupt and nothing is running: the controller is not updated.
\<close>

theorem enabled_fault_not_signalled:
  "case bindE (gic_dist_writel 0xd24 0 reset_machine) (\<lambda>m.
        bindE (armv7m_nvic_set_pending (int ARMV7M_EXCP_USAGE) m) (gic_dist_writel 0xd24 0x40000)) of
     Inl e \<Rightarrow> False
   | Inr m \<Rightarrow> most_urgent (the_gic (nvic m)) = (0, int ARMV7M_EXCP_USAGE) \<and> running_irq (the_gic (nvic m)) = 1023 \<and>
       interrupt_request (cpu m) AND CPU_INTERRUPT_HARD = 0"
  by code_simp

section \<open>Witnesses\<close>

lemma reset_stack: "stack_ok (the_gic (nvic reset_machine)) []"
  using gic_init_stack(1) [of cpu_pic] by (simp add: reset_machine_def armv7m_nvic_init_def)

theorem exception_delivered_witness:
  "\<exists>m1 m2. armv7m_nvic_set_pending 15 reset_machine = Inr m1 \<and> armv7m_nvic_acknowledge_irq m1 = Inr (15, m2)"
  using exception_delivered [OF reset_machine_ok reset_stack, of 15] reset_deliverable [of 15] by auto

theorem nvic_reachable_settled_witness:
  "\<exists>m. machine_step\<^sup>*\<^sup>* (armv7m_nvic_init 7 blank_cpu blank_timers) m \<and>
     interrupt_request (cpu m) AND CPU_INTERRUPT_HARD \<noteq> 0 \<and> line_settled (the_gic (nvic m)) (cpu m)"
proof -
  obtain m where m: "armv7m_nvic_set_pending (int 15) reset_machine = Inr m" "interrupt_request (cpu m) AND CPU_INTERRUPT_HARD \<noteq> 0"
    by (rule raise_signals [OF reset_machine_ok reset_stack, of 15]) (simp_all add: reset_deliverable)
  have "machine_step\<^sup>*\<^sup>* (armv7m_nvic_init 7 blank_cpu blank_timers) m"
    using m(1) unfolding reset_machine_def by (blast intro: machine_step.raised)
  then show ?thesis using nvic_reachable_settled [of 7 blank_cpu blank_timers m] m(2) by (auto simp: blank_cpu_def)
qed

theorem system_register_readback_witness:
  "\<exists>m'. gic_dist_writel 0xd18 0x10203040 reset_machine = Inr m' \<and> gic_dist_readl 0xd18 m' = Inr (0x10203040, m')"
proof -
  have "case gic_dist_writel 0xd18 0x10203040 reset_machine of Inl e \<Rightarrow> False | Inr m \<Rightarrow> True" by code_simp
  then obtain m' where "gic_dist_writel 0xd18 0x10203040 reset_machine = Inr m'" by (auto split: sum.splits)
  then show ?thesis using system_register_readback [OF _ reset_machine_ok] by blast
qed

end
