(* ===== verification/Bytes.thy ===== *)
theory Bytes
  imports Prelude
begin

text \<open>
  Numbers as sequences of bytes (\<open>bswap.h\<close>), for loads from and stores to memory of the guest and
  the host.
\<close>

section \<open>Little-endian bytes\<close>

text \<open>The bytes of a number, the lowest first, as \<open>stl_le_p\<close>, \<open>ldl_le_p\<close> and the others order them.\<close>

fun to_le :: "nat \<Rightarrow> u64 \<Rightarrow> u8 list" where
  "to_le 0 v = []"
| "to_le (Suc n) v = ucast v # to_le n (drop_bit 8 v)"

fun from_le :: "u8 list \<Rightarrow> u64" where
  "from_le [] = 0"
| "from_le (b # bs) = ucast b OR push_bit 8 (from_le bs)"

definition bswap :: "nat \<Rightarrow> u64 \<Rightarrow> u64" where
  "bswap n v = from_le (rev (to_le n v))"

section \<open>Round trips and single bits\<close>

lemma from_to_le: "from_le (to_le n v) = take_bit (8 * n) v"
proof (induction n arbitrary: v)
  case (Suc n)
  show ?case unfolding to_le.simps from_le.simps Suc by (rule bit_eqI) (auto simp: bit_simps)
qed simp

lemma length_to_le [simp]: "length (to_le n v) = n"
  by (induction n arbitrary: v) simp_all

lemma to_le_cong: "(\<And>j. j < 8 * n \<Longrightarrow> bit v j = bit w j) \<Longrightarrow> to_le n v = to_le n w"
proof (induction n arbitrary: v w)
  case (Suc n)
  have "to_le n (drop_bit 8 v) = to_le n (drop_bit 8 w)" using Suc.prems by (intro Suc.IH) (simp add: bit_drop_bit_eq)
  moreover have "(ucast v :: u8) = ucast w" using Suc.prems by (intro bit_word_eqI) (simp add: bit_simps)
  ultimately show ?case by simp
qed simp

lemma nth_to_le: "i < n \<Longrightarrow> to_le n v ! i = ucast (drop_bit (8 * i) v)"
proof (induction n arbitrary: v i)
  case (Suc n)
  then show ?case by (cases i) (simp_all add: add.commute)
qed simp

lemma bit_from_le:
  "length bs \<le> 8 \<Longrightarrow> bit (from_le bs) m \<longleftrightarrow> m < 8 * length bs \<and> bit (bs ! (m div 8)) (m mod 8)"
proof (induction bs arbitrary: m)
  case (Cons b bs)
  show ?case
  proof (cases "m < 8")
    case False
    then have d: "m div 8 = Suc ((m - 8) div 8)" "m mod 8 = (m - 8) mod 8" by (simp_all add: le_div_geq le_mod_geq)
    have "\<not> bit (ucast b :: u64) m" using False by (auto simp: bit_unsigned_iff dest: bit_imp_le_length)
    moreover have "bit (push_bit 8 (from_le bs)) m \<longleftrightarrow> m < 64 \<and> bit (from_le bs) (m - 8)" using False by (simp add: bit_push_bit_iff)
    moreover have "m < 8 * length (b # bs) \<Longrightarrow> m < 64" "m < 8 * length (b # bs) \<longleftrightarrow> m - 8 < 8 * length bs" using Cons.prems False by auto
    moreover have "bit (from_le bs) (m - 8) \<longleftrightarrow> m - 8 < 8 * length bs \<and> bit (bs ! ((m - 8) div 8)) ((m - 8) mod 8)" using Cons by simp
    ultimately show ?thesis unfolding from_le.simps bit_or_iff d nth_Cons_Suc by blast
  qed (simp add: bit_or_iff bit_push_bit_iff bit_unsigned_iff)
qed simp

lemma to_from_le:
  assumes "length bs = n" "n \<le> 8"
  shows "to_le n (from_le bs) = bs"
proof (rule nth_equalityI)
  show "to_le n (from_le bs) ! i = bs ! i" if "i < length (to_le n (from_le bs))" for i
  proof (rule bit_word_eqI)
    fix j
    assume "j < LENGTH(8)"
    then have j: "j < 8" "(8 * i + j) div 8 = i" "(8 * i + j) mod 8 = j" by auto
    have "i < n" "8 * i + j < 64" using that assms(2) j(1) by simp_all
    then show "bit (to_le n (from_le bs) ! i) j = bit (bs ! i) j"
      using j assms by (simp add: nth_to_le bit_simps bit_from_le)
  qed
qed (simp add: assms)

end
