(* ===== verification/Phys_Mem.thy ===== *)
theory Phys_Mem
  imports Phys_Map Bytes "HOL-Library.Multiset"
begin

text \<open>
  Guest RAM and the accesses to physical memory of \<open>exec.c\<close>: the list of RAM blocks with its
  allocation, the dirty flags of pages (\<open>cpu-all.h\<close>), and the functions that read and write
  physical addresses, \<open>ldl_phys\<close>, \<open>stl_phys\<close>, \<open>cpu_physical_memory_rw\<close> and the rest, for a
  little-endian target on a 64-bit host. Host memory is a number of areas of bytes; an access
  outside an area is an error. The translator is told of writes to code
  (\<open>tb_invalidate_phys_page_range\<close>), which is recorded. Xen, memory backed by files and the
  release of host memory are not modelled.
\<close>

section \<open>State\<close>

record RAMBlock =
  rb_host :: nat
  rb_offset :: u64
  rb_length :: u64
  rb_idstr :: string

record 'w phys_mem =
  pages :: "'w phys_map"
  blocks :: "RAMBlock list"
  host_mem :: "nat \<Rightarrow> nat \<Rightarrow> u8"
  host_size :: "nat \<Rightarrow> nat"
  next_host :: nat
  phys_dirty :: "nat \<Rightarrow> u8"
  in_migration :: bool
  devices :: 'w
  invalidated :: "(u64 \<times> u64) list"

datatype device_endian = DEVICE_NATIVE_ENDIAN | DEVICE_BIG_ENDIAN | DEVICE_LITTLE_ENDIAN

section \<open>RAM blocks\<close>

definition RAM_ADDR_MAX :: u64 where "RAM_ADDR_MAX = - 1"
definition TARGET_PAGE_ALIGN :: "u64 \<Rightarrow> u64" where
  "TARGET_PAGE_ALIGN a = page_of (a + word_of_nat TARGET_PAGE_SIZE - 1)"

definition block_end :: "RAMBlock \<Rightarrow> u64" where
  "block_end b = rb_offset b + rb_length b"

text \<open>The loops of \<open>find_ram_offset\<close>: the block after an end, and the smallest gap that fits.\<close>

definition next_block :: "u64 \<Rightarrow> RAMBlock list \<Rightarrow> u64" where
  "next_block e bs = fold (\<lambda>b nxt. if rb_offset b \<ge> e then min nxt (rb_offset b) else nxt) bs RAM_ADDR_MAX"

definition gap_step :: "u64 \<Rightarrow> RAMBlock list \<Rightarrow> RAMBlock \<Rightarrow> u64 \<times> u64 \<Rightarrow> u64 \<times> u64" where
  "gap_step sz bs b = (\<lambda>(offset, mingap).
     let e = block_end b; nxt = next_block e bs
     in if nxt - e \<ge> sz \<and> nxt - e < mingap then (e, nxt - e) else (offset, mingap))"

definition find_ram_offset :: "u64 \<Rightarrow> RAMBlock list \<Rightarrow> u64 res" where
  "find_ram_offset sz bs =
     (if bs = [] then Inr 0
      else let offset = fst (fold (gap_step sz bs) bs (RAM_ADDR_MAX, RAM_ADDR_MAX))
           in if offset = RAM_ADDR_MAX then Inl (aborted ''Failed to find gap of requested size'') else Inr offset)"

definition last_ram_offset :: "RAMBlock list \<Rightarrow> u64" where
  "last_ram_offset bs = fold (\<lambda>b last. max last (block_end b)) bs 0"

text \<open>
  \<open>qemu_ram_alloc\<close>: fresh host memory, with any contents. All pages of the new block are dirty. The name is the whole identifier of
  the block, with the path of the device in front if there is one. The dirty flags are a function on all page numbers, so the
  array is not reallocated.
\<close>

definition qemu_ram_alloc :: "string \<Rightarrow> u64 \<Rightarrow> (nat \<Rightarrow> u8) \<Rightarrow> 'w phys_mem \<Rightarrow> (u64 \<times> 'w phys_mem) res" where
  "qemu_ram_alloc nm sz contents s =
     (let sz = TARGET_PAGE_ALIGN sz
      in if \<exists>b \<in> set (blocks s). rb_idstr b = nm then Inl (aborted ''RAMBlock already registered'')
         else bindE (find_ram_offset sz (blocks s)) (\<lambda>off.
           let h = next_host s;
               first = unat (drop_bit TARGET_PAGE_BITS off);
               num = unat (drop_bit TARGET_PAGE_BITS sz)
           in Inr (off, s\<lparr>blocks := \<lparr>rb_host = h, rb_offset = off, rb_length = sz, rb_idstr = nm\<rparr> # blocks s,
                host_mem := (host_mem s)(h := contents), host_size := (host_size s)(h := unat sz), next_host := Suc h,
                phys_dirty := (\<lambda>i. if first \<le> i \<and> i < first + num then 0xff else phys_dirty s i)\<rparr>)))"

fun remove_block :: "u64 \<Rightarrow> RAMBlock list \<Rightarrow> RAMBlock list" where
  "remove_block addr [] = []"
| "remove_block addr (b # bs) = (if addr = rb_offset b then bs else b # remove_block addr bs)"

definition qemu_ram_free :: "u64 \<Rightarrow> 'w phys_mem \<Rightarrow> 'w phys_mem" where
  "qemu_ram_free addr s = s\<lparr>blocks := remove_block addr (blocks s)\<rparr>"

fun find_block :: "u64 \<Rightarrow> RAMBlock list \<Rightarrow> RAMBlock option" where
  "find_block addr [] = None"
| "find_block addr (b # bs) = (if addr - rb_offset b < rb_length b then Some b else find_block addr bs)"

text \<open>A host pointer is an area and an offset. The block that is found moves to the front.\<close>

definition qemu_get_ram_ptr :: "u64 \<Rightarrow> 'w phys_mem \<Rightarrow> ((nat \<times> nat) \<times> 'w phys_mem) res" where
  "qemu_get_ram_ptr addr s =
     (case find_block addr (blocks s) of
        None \<Rightarrow> Inl (aborted ''Bad ram offset'')
      | Some b \<Rightarrow> Inr ((rb_host b, unat (addr - rb_offset b)), s\<lparr>blocks := b # remove1 b (blocks s)\<rparr>))"

definition qemu_safe_ram_ptr :: "u64 \<Rightarrow> 'w phys_mem \<Rightarrow> (nat \<times> nat) res" where
  "qemu_safe_ram_ptr addr s =
     (case find_block addr (blocks s) of
        None \<Rightarrow> Inl (aborted ''Bad ram offset'')
      | Some b \<Rightarrow> Inr (rb_host b, unat (addr - rb_offset b)))"

definition qemu_ram_ptr_length :: "u64 \<Rightarrow> u64 \<Rightarrow> 'w phys_mem \<Rightarrow> ((nat \<times> nat) option \<times> u64) res" where
  "qemu_ram_ptr_length addr sz s =
     (if sz = 0 then Inr (None, sz)
      else case find_block addr (blocks s) of
             None \<Rightarrow> Inl (aborted ''Bad ram offset'')
           | Some b \<Rightarrow> Inr (Some (rb_host b, unat (addr - rb_offset b)),
               if addr - rb_offset b + sz > rb_length b then rb_length b - addr + rb_offset b else sz))"

section \<open>Host memory\<close>

definition host_read :: "nat \<times> nat \<Rightarrow> nat \<Rightarrow> 'w phys_mem \<Rightarrow> u8 list res" where
  "host_read = (\<lambda>(h, i) n s.
     if i + n \<le> host_size s h then Inr (map (host_mem s h) [i..<i + n]) else Inl (out_of_bounds ''host memory''))"

definition host_write :: "nat \<times> nat \<Rightarrow> u8 list \<Rightarrow> 'w phys_mem \<Rightarrow> 'w phys_mem res" where
  "host_write = (\<lambda>(h, i) bs s.
     if i + length bs \<le> host_size s h
     then Inr (s\<lparr>host_mem := (host_mem s)(h := \<lambda>j. if i \<le> j \<and> j < i + length bs then bs ! (j - i) else host_mem s h j)\<rparr>)
     else Inl (out_of_bounds ''host memory''))"

definition ld_p :: "device_endian \<Rightarrow> u8 list \<Rightarrow> u64" where
  "ld_p endian bs = (case endian of DEVICE_BIG_ENDIAN \<Rightarrow> from_le (rev bs) | _ \<Rightarrow> from_le bs)"

definition st_p :: "device_endian \<Rightarrow> nat \<Rightarrow> u64 \<Rightarrow> u8 list" where
  "st_p endian n v = (case endian of DEVICE_BIG_ENDIAN \<Rightarrow> rev (to_le n v) | _ \<Rightarrow> to_le n v)"

section \<open>Dirty flags\<close>

definition CODE_DIRTY_FLAG :: u8 where "CODE_DIRTY_FLAG = 0x02"

definition dirty_page :: "u64 \<Rightarrow> nat" where
  "dirty_page addr = unat (drop_bit TARGET_PAGE_BITS addr)"

definition cpu_physical_memory_is_dirty :: "u64 \<Rightarrow> 'w phys_mem \<Rightarrow> bool" where
  "cpu_physical_memory_is_dirty addr s \<longleftrightarrow> phys_dirty s (dirty_page addr) = 0xff"

definition cpu_physical_memory_get_dirty_flags :: "u64 \<Rightarrow> 'w phys_mem \<Rightarrow> u8" where
  "cpu_physical_memory_get_dirty_flags addr s = phys_dirty s (dirty_page addr)"

definition cpu_physical_memory_get_dirty :: "u64 \<Rightarrow> u8 \<Rightarrow> 'w phys_mem \<Rightarrow> u8" where
  "cpu_physical_memory_get_dirty addr flags s = phys_dirty s (dirty_page addr) AND flags"

definition cpu_physical_memory_set_dirty :: "u64 \<Rightarrow> 'w phys_mem \<Rightarrow> 'w phys_mem" where
  "cpu_physical_memory_set_dirty addr s = s\<lparr>phys_dirty := (phys_dirty s)(dirty_page addr := 0xff)\<rparr>"

definition cpu_physical_memory_set_dirty_flags :: "u64 \<Rightarrow> u8 \<Rightarrow> 'w phys_mem \<Rightarrow> 'w phys_mem" where
  "cpu_physical_memory_set_dirty_flags addr flags s =
     s\<lparr>phys_dirty := (phys_dirty s)(dirty_page addr := phys_dirty s (dirty_page addr) OR flags)\<rparr>"

definition cpu_physical_memory_mask_dirty_range :: "u64 \<Rightarrow> nat \<Rightarrow> u8 \<Rightarrow> 'w phys_mem \<Rightarrow> 'w phys_mem" where
  "cpu_physical_memory_mask_dirty_range start len flags s =
     fold (\<lambda>i s. s\<lparr>phys_dirty := (phys_dirty s)(dirty_page start + i := phys_dirty s (dirty_page start + i) AND NOT flags)\<rparr>)
       [0..<len div 2 ^ TARGET_PAGE_BITS] s"

definition tb_invalidate_phys_page_range :: "u64 \<Rightarrow> u64 \<Rightarrow> 'w phys_mem \<Rightarrow> 'w phys_mem" where
  "tb_invalidate_phys_page_range start e s = s\<lparr>invalidated := invalidated s @ [(start, e)]\<rparr>"

text \<open>What every write to RAM does after the bytes are stored.\<close>

definition written :: "u64 \<Rightarrow> nat \<Rightarrow> 'w phys_mem \<Rightarrow> 'w phys_mem" where
  "written addr1 l s =
     (if cpu_physical_memory_is_dirty addr1 s then s
      else cpu_physical_memory_set_dirty_flags addr1 (0xff AND NOT CODE_DIRTY_FLAG)
             (tb_invalidate_phys_page_range addr1 (addr1 + word_of_nat l) s))"

section \<open>Accesses of one size\<close>

definition page_desc :: "phys_addr \<Rightarrow> 'w phys_mem \<Rightarrow> u64" where
  "page_desc addr s =
     (case phys_page_find (unat (drop_bit TARGET_PAGE_BITS addr)) (pages s) of None \<Rightarrow> IO_MEM_UNASSIGNED | Some p \<Rightarrow> phys_offset p)"

definition io_addr :: "phys_addr \<Rightarrow> 'w phys_mem \<Rightarrow> phys_addr" where
  "io_addr addr s =
     (case phys_page_find (unat (drop_bit TARGET_PAGE_BITS addr)) (pages s) of
        None \<Rightarrow> addr
      | Some p \<Rightarrow> ucast (in_page (ucast addr) + region_offset p))"

definition io_read :: "nat \<Rightarrow> phys_addr \<Rightarrow> phys_addr \<Rightarrow> 'w phys_mem \<Rightarrow> (u32 \<times> 'w phys_mem) res" where
  "io_read sz page addr1 s =
     bindE (io_mem_read 2 (pages s) (io_index (page_desc page s)) sz addr1 (devices s)) (\<lambda>(v, w). Inr (v, s\<lparr>devices := w\<rparr>))"

definition io_write :: "nat \<Rightarrow> phys_addr \<Rightarrow> phys_addr \<Rightarrow> u32 \<Rightarrow> 'w phys_mem \<Rightarrow> 'w phys_mem res" where
  "io_write sz page addr1 v s =
     bindE (io_mem_write 2 (pages s) (io_index (page_desc page s)) sz addr1 v (devices s)) (\<lambda>w. Inr (s\<lparr>devices := w\<rparr>))"

text \<open>Bytes at the page's host pointer, for reads; at the pointer of the address itself, for writes.\<close>

definition ram_read :: "nat \<Rightarrow> phys_addr \<Rightarrow> 'w phys_mem \<Rightarrow> (u8 list \<times> 'w phys_mem) res" where
  "ram_read n addr s =
     bindE (qemu_get_ram_ptr (page_of (page_desc addr s)) s) (\<lambda>((h, i), s).
     bindE (host_read (h, i + unat (in_page (ucast addr))) n s) (\<lambda>bs. Inr (bs, s)))"

definition ram_addr_of :: "phys_addr \<Rightarrow> 'w phys_mem \<Rightarrow> u64" where
  "ram_addr_of addr s = page_of (page_desc addr s) + in_page (ucast addr)"

definition ram_write :: "phys_addr \<Rightarrow> u8 list \<Rightarrow> 'w phys_mem \<Rightarrow> 'w phys_mem res" where
  "ram_write addr bs s =
     bindE (qemu_get_ram_ptr (ram_addr_of addr s) s) (\<lambda>(ptr, s). host_write ptr bs s)"

definition is_ram :: "u64 \<Rightarrow> bool" where
  "is_ram pd \<longleftrightarrow> in_page pd = 0"

definition ldl_phys_internal :: "phys_addr \<Rightarrow> device_endian \<Rightarrow> 'w phys_mem \<Rightarrow> (u32 \<times> 'w phys_mem) res" where
  "ldl_phys_internal addr endian s =
     (if \<not> is_ram_or_rom (page_desc addr s)
      then bindE (io_read 2 addr (io_addr addr s) s) (\<lambda>(v, s).
             Inr (if endian = DEVICE_BIG_ENDIAN then ucast (bswap 4 (ucast v)) else v, s))
      else bindE (ram_read 4 addr s) (\<lambda>(bs, s). Inr (ucast (ld_p endian bs), s)))"

definition lduw_phys_internal :: "phys_addr \<Rightarrow> device_endian \<Rightarrow> 'w phys_mem \<Rightarrow> (u32 \<times> 'w phys_mem) res" where
  "lduw_phys_internal addr endian s =
     (if \<not> is_ram_or_rom (page_desc addr s)
      then bindE (io_read 1 addr (io_addr addr s) s) (\<lambda>(v, s).
             Inr (if endian = DEVICE_BIG_ENDIAN then ucast (bswap 2 (ucast v)) else v, s))
      else bindE (ram_read 2 addr s) (\<lambda>(bs, s). Inr (ucast (ld_p endian bs), s)))"

definition ldq_phys_internal :: "phys_addr \<Rightarrow> device_endian \<Rightarrow> 'w phys_mem \<Rightarrow> (u64 \<times> 'w phys_mem) res" where
  "ldq_phys_internal addr endian s =
     (if \<not> is_ram_or_rom (page_desc addr s)
      then bindE (io_read 2 addr (io_addr addr s) s) (\<lambda>(lo, s).
           bindE (io_read 2 addr (io_addr addr s + 4) s) (\<lambda>(hi, s).
           Inr (ucast lo OR push_bit 32 (ucast hi), s)))
      else bindE (ram_read 8 addr s) (\<lambda>(bs, s). Inr (ld_p endian bs, s)))"

definition stl_phys_internal :: "phys_addr \<Rightarrow> u32 \<Rightarrow> device_endian \<Rightarrow> 'w phys_mem \<Rightarrow> 'w phys_mem res" where
  "stl_phys_internal addr val endian s =
     (if \<not> is_ram (page_desc addr s)
      then io_write 2 addr (io_addr addr s) (if endian = DEVICE_BIG_ENDIAN then ucast (bswap 4 (ucast val)) else val) s
      else bindE (ram_write addr (st_p endian 4 (ucast val)) s) (\<lambda>t. Inr (written (ram_addr_of addr s) 4 t)))"

definition stw_phys_internal :: "phys_addr \<Rightarrow> u32 \<Rightarrow> device_endian \<Rightarrow> 'w phys_mem \<Rightarrow> 'w phys_mem res" where
  "stw_phys_internal addr val endian s =
     (if \<not> is_ram (page_desc addr s)
      then io_write 1 addr (io_addr addr s) (if endian = DEVICE_BIG_ENDIAN then ucast (bswap 2 (ucast val)) else val) s
      else bindE (ram_write addr (st_p endian 2 (ucast val)) s) (\<lambda>t. Inr (written (ram_addr_of addr s) 2 t)))"

definition stl_phys_notdirty :: "phys_addr \<Rightarrow> u32 \<Rightarrow> 'w phys_mem \<Rightarrow> 'w phys_mem res" where
  "stl_phys_notdirty addr val s =
     (if \<not> is_ram (page_desc addr s) then io_write 2 addr (io_addr addr s) val s
      else bindE (ram_write addr (to_le 4 (ucast val)) s) (\<lambda>t.
           Inr (if in_migration t then written (ram_addr_of addr s) 4 t else t)))"

definition stq_phys_notdirty :: "phys_addr \<Rightarrow> u64 \<Rightarrow> 'w phys_mem \<Rightarrow> 'w phys_mem res" where
  "stq_phys_notdirty addr val s =
     (if \<not> is_ram (page_desc addr s)
      then bindE (io_write 2 addr (io_addr addr s) (ucast val) s)
             (\<lambda>t. io_write 2 addr (io_addr addr s + 4) (ucast (drop_bit 32 val)) t)
      else bindE (qemu_get_ram_ptr (page_of (page_desc addr s)) s) (\<lambda>((h, i), s).
           host_write (h, i + unat (in_page (ucast addr))) (to_le 8 val) s))"

section \<open>Accesses of any length\<close>

text \<open>
  The number of bytes of a round of \<open>cpu_physical_memory_rw\<close>: what is left of the page, or the
  size of the access to a device, by the alignment of the offset it sees.
\<close>

definition page_left :: "phys_addr \<Rightarrow> nat \<Rightarrow> nat" where
  "page_left addr len = min (TARGET_PAGE_SIZE - unat (in_page (ucast addr))) len"

definition io_size :: "nat \<Rightarrow> phys_addr \<Rightarrow> nat" where
  "io_size l addr1 = (if l \<ge> 4 \<and> addr1 AND 3 = 0 then 2 else if l \<ge> 2 \<and> addr1 AND 1 = 0 then 1 else 0)"

definition write_round :: "phys_addr \<Rightarrow> 'w phys_mem \<Rightarrow> nat \<Rightarrow> nat" where
  "write_round addr s len =
     (let l = page_left addr len in if is_ram (page_desc addr s) then l else 2 ^ io_size l (io_addr addr s))"

definition read_round :: "phys_addr \<Rightarrow> 'w phys_mem \<Rightarrow> nat \<Rightarrow> nat" where
  "read_round addr s len =
     (let l = page_left addr len in if is_ram_or_rom (page_desc addr s) then l else 2 ^ io_size l (io_addr addr s))"

lemma round_pos: "0 < len \<Longrightarrow> 0 < write_round addr s len" "0 < len \<Longrightarrow> 0 < read_round addr s len"
proof -
  have "unat (in_page (ucast addr)) < TARGET_PAGE_SIZE" by (simp add: unat_in_page TARGET_PAGE_SIZE_def TARGET_PAGE_BITS_def)
  then show "0 < len \<Longrightarrow> 0 < write_round addr s len" "0 < len \<Longrightarrow> 0 < read_round addr s len"
    by (simp_all add: write_round_def read_round_def page_left_def Let_def)
qed

function cpu_physical_memory_write :: "phys_addr \<Rightarrow> u8 list \<Rightarrow> 'w phys_mem \<Rightarrow> 'w phys_mem res" where
  "cpu_physical_memory_write addr bs s =
     (if bs = [] then Inr s
      else let l = write_round addr s (length bs)
           in bindE (if is_ram (page_desc addr s)
                     then bindE (ram_write addr (take l bs) s) (\<lambda>t. Inr (written (ram_addr_of addr s) l t))
                     else io_write (io_size (page_left addr (length bs)) (io_addr addr s)) addr (io_addr addr s)
                            (ucast (from_le (take l bs))) s)
                (\<lambda>s. cpu_physical_memory_write (addr + word_of_nat l) (drop l bs) s))"
  by pat_completeness auto
termination
  by (relation "measure (\<lambda>(addr, bs, s). length bs)") (auto simp: round_pos)

function cpu_physical_memory_read :: "phys_addr \<Rightarrow> nat \<Rightarrow> 'w phys_mem \<Rightarrow> (u8 list \<times> 'w phys_mem) res" where
  "cpu_physical_memory_read addr len s =
     (if len = 0 then Inr ([], s)
      else let l = read_round addr s len
           in bindE (if is_ram_or_rom (page_desc addr s) then ram_read l addr s
                     else bindE (io_read (io_size (page_left addr len) (io_addr addr s)) addr (io_addr addr s) s)
                            (\<lambda>(v, s). Inr (to_le l (ucast v), s)))
                (\<lambda>(bs, s). bindE (cpu_physical_memory_read (addr + word_of_nat l) (len - l) s)
                (\<lambda>(bs', s). Inr (bs @ bs', s))))"
  by pat_completeness auto
termination
  by (relation "measure (\<lambda>(addr, len, s). len)") (auto simp: round_pos)

function cpu_physical_memory_write_rom :: "phys_addr \<Rightarrow> u8 list \<Rightarrow> 'w phys_mem \<Rightarrow> 'w phys_mem res" where
  "cpu_physical_memory_write_rom addr bs s =
     (if bs = [] then Inr s
      else let l = page_left addr (length bs)
           in bindE (if \<not> is_ram (page_desc addr s) \<and> in_page (page_desc addr s) \<noteq> IO_MEM_ROM \<and> page_desc addr s AND IO_MEM_ROMD = 0
                     then Inr s else ram_write addr (take l bs) s)
                (\<lambda>s. cpu_physical_memory_write_rom (addr + word_of_nat l) (drop l bs) s))"
  by pat_completeness auto
termination
proof (relation "measure (\<lambda>(addr, bs, s). length bs)")
  fix addr :: phys_addr and bs :: "u8 list" and x s :: "'w phys_mem" and l
  assume "bs \<noteq> []" "l = page_left addr (length bs)"
  moreover have "unat (in_page (ucast addr)) < TARGET_PAGE_SIZE" by (simp add: unat_in_page TARGET_PAGE_SIZE_def TARGET_PAGE_BITS_def)
  ultimately show "((addr + word_of_nat l, drop l bs, x), addr, bs, s) \<in> measure (\<lambda>(addr, bs, s). length bs)"
    by (auto simp: page_left_def)
qed simp

declare cpu_physical_memory_write.simps [simp del] cpu_physical_memory_read.simps [simp del] cpu_physical_memory_write_rom.simps [simp del]

definition ldub_phys :: "phys_addr \<Rightarrow> 'w phys_mem \<Rightarrow> (u32 \<times> 'w phys_mem) res" where
  "ldub_phys addr s = bindE (cpu_physical_memory_read addr 1 s) (\<lambda>(bs, s). Inr (ucast (hd bs), s))"

definition stb_phys :: "phys_addr \<Rightarrow> u32 \<Rightarrow> 'w phys_mem \<Rightarrow> 'w phys_mem res" where
  "stb_phys addr val s = cpu_physical_memory_write addr [ucast val] s"

definition stq_phys :: "phys_addr \<Rightarrow> u64 \<Rightarrow> 'w phys_mem \<Rightarrow> 'w phys_mem res" where
  "stq_phys addr val s = cpu_physical_memory_write addr (to_le 8 val) s"

definition stq_be_phys :: "phys_addr \<Rightarrow> u64 \<Rightarrow> 'w phys_mem \<Rightarrow> 'w phys_mem res" where
  "stq_be_phys addr val s = cpu_physical_memory_write addr (rev (to_le 8 val)) s"

definition ldl_phys :: "phys_addr \<Rightarrow> 'w phys_mem \<Rightarrow> (u32 \<times> 'w phys_mem) res" where
  "ldl_phys addr s = ldl_phys_internal addr DEVICE_NATIVE_ENDIAN s"

definition stl_phys :: "phys_addr \<Rightarrow> u32 \<Rightarrow> 'w phys_mem \<Rightarrow> 'w phys_mem res" where
  "stl_phys addr val s = stl_phys_internal addr val DEVICE_NATIVE_ENDIAN s"

definition lduw_phys :: "phys_addr \<Rightarrow> 'w phys_mem \<Rightarrow> (u32 \<times> 'w phys_mem) res" where
  "lduw_phys addr s = lduw_phys_internal addr DEVICE_NATIVE_ENDIAN s"

definition stw_phys :: "phys_addr \<Rightarrow> u32 \<Rightarrow> 'w phys_mem \<Rightarrow> 'w phys_mem res" where
  "stw_phys addr val s = stw_phys_internal addr val DEVICE_NATIVE_ENDIAN s"

definition ldq_phys :: "phys_addr \<Rightarrow> 'w phys_mem \<Rightarrow> (u64 \<times> 'w phys_mem) res" where
  "ldq_phys addr s = ldq_phys_internal addr DEVICE_NATIVE_ENDIAN s"

definition ldl_le_phys :: "phys_addr \<Rightarrow> 'w phys_mem \<Rightarrow> (u32 \<times> 'w phys_mem) res" where
  "ldl_le_phys addr s = ldl_phys_internal addr DEVICE_LITTLE_ENDIAN s"

definition ldl_be_phys :: "phys_addr \<Rightarrow> 'w phys_mem \<Rightarrow> (u32 \<times> 'w phys_mem) res" where
  "ldl_be_phys addr s = ldl_phys_internal addr DEVICE_BIG_ENDIAN s"

definition lduw_le_phys :: "phys_addr \<Rightarrow> 'w phys_mem \<Rightarrow> (u32 \<times> 'w phys_mem) res" where
  "lduw_le_phys addr s = lduw_phys_internal addr DEVICE_LITTLE_ENDIAN s"

definition lduw_be_phys :: "phys_addr \<Rightarrow> 'w phys_mem \<Rightarrow> (u32 \<times> 'w phys_mem) res" where
  "lduw_be_phys addr s = lduw_phys_internal addr DEVICE_BIG_ENDIAN s"

definition ldq_le_phys :: "phys_addr \<Rightarrow> 'w phys_mem \<Rightarrow> (u64 \<times> 'w phys_mem) res" where
  "ldq_le_phys addr s = ldq_phys_internal addr DEVICE_LITTLE_ENDIAN s"

definition ldq_be_phys :: "phys_addr \<Rightarrow> 'w phys_mem \<Rightarrow> (u64 \<times> 'w phys_mem) res" where
  "ldq_be_phys addr s = ldq_phys_internal addr DEVICE_BIG_ENDIAN s"

definition stl_le_phys :: "phys_addr \<Rightarrow> u32 \<Rightarrow> 'w phys_mem \<Rightarrow> 'w phys_mem res" where
  "stl_le_phys addr val s = stl_phys_internal addr val DEVICE_LITTLE_ENDIAN s"

definition stl_be_phys :: "phys_addr \<Rightarrow> u32 \<Rightarrow> 'w phys_mem \<Rightarrow> 'w phys_mem res" where
  "stl_be_phys addr val s = stl_phys_internal addr val DEVICE_BIG_ENDIAN s"

definition stw_le_phys :: "phys_addr \<Rightarrow> u32 \<Rightarrow> 'w phys_mem \<Rightarrow> 'w phys_mem res" where
  "stw_le_phys addr val s = stw_phys_internal addr val DEVICE_LITTLE_ENDIAN s"

definition stw_be_phys :: "phys_addr \<Rightarrow> u32 \<Rightarrow> 'w phys_mem \<Rightarrow> 'w phys_mem res" where
  "stw_be_phys addr val s = stw_phys_internal addr val DEVICE_BIG_ENDIAN s"

definition stq_le_phys :: "phys_addr \<Rightarrow> u64 \<Rightarrow> 'w phys_mem \<Rightarrow> 'w phys_mem res" where
  "stq_le_phys addr val s = cpu_physical_memory_write addr (to_le 8 val) s"

section \<open>Well-formed RAM\<close>

definition covers :: "RAMBlock \<Rightarrow> u64 \<Rightarrow> bool" where
  "covers b r \<longleftrightarrow> r - rb_offset b < rb_length b"

definition stop :: "RAMBlock \<Rightarrow> nat" where
  "stop b = unat (rb_offset b) + unat (rb_length b)"

text \<open>Blocks lie apart, are made of whole pages, end below \<open>RAM_ADDR_MAX\<close> and have host areas of their own.\<close>

definition blocks_apart :: "RAMBlock list \<Rightarrow> bool" where
  "blocks_apart bs \<longleftrightarrow>
     (\<forall>b\<in>set bs. \<forall>c\<in>set bs. b \<noteq> c \<longrightarrow> stop b \<le> unat (rb_offset c) \<or> stop c \<le> unat (rb_offset b)) \<and>
     (\<forall>b\<in>set bs. stop b < 2 ^ 64 \<and> 1024 dvd unat (rb_offset b) \<and> 1024 dvd unat (rb_length b))"

definition ram_ok :: "'w phys_mem \<Rightarrow> bool" where
  "ram_ok s \<longleftrightarrow> blocks_apart (blocks s) \<and> distinct (map rb_host (blocks s)) \<and>
     (\<forall>b\<in>set (blocks s). rb_host b < next_host s \<and> host_size s (rb_host b) = unat (rb_length b))"

text \<open>The abstract view: the byte at a RAM address.\<close>

definition ram_byte :: "'w phys_mem \<Rightarrow> u64 \<Rightarrow> u8 option" where
  "ram_byte s r = map_option (\<lambda>b. host_mem s (rb_host b) (unat (r - rb_offset b))) (find_block r (blocks s))"

lemma range_offset:
  fixes r x :: u64
  assumes "unat r + n \<le> 2 ^ 64"
  shows "unat (x - r) < n \<longleftrightarrow> unat r \<le> unat x \<and> unat x < unat r + n" "unat r \<le> unat x \<Longrightarrow> unat (x - r) = unat x - unat r"
proof -
  have u: "unat (x - r) = (if unat r \<le> unat x then unat x - unat r else unat x + 2 ^ 64 - unat r)"
    using unat_sub_if_size [of x r] by (simp add: word_size word_le_nat_alt)
  have "unat r < 2 ^ 64" "unat x < 2 ^ 64" using unsigned_less [of r] unsigned_less [of x] by simp_all
  then show "unat (x - r) < n \<longleftrightarrow> unat r \<le> unat x \<and> unat x < unat r + n" using assms u by auto
  show "unat r \<le> unat x \<Longrightarrow> unat (x - r) = unat x - unat r" using u by simp
qed

lemma covers_iff:
  assumes "stop b < 2 ^ 64"
  shows "covers b r \<longleftrightarrow> unat (rb_offset b) \<le> unat r \<and> unat r < stop b"
    "covers b r \<Longrightarrow> unat (r - rb_offset b) = unat r - unat (rb_offset b)"
  using range_offset [of "rb_offset b" "unat (rb_length b)" r] assms
  by (auto simp: covers_def word_less_nat_alt stop_def)

lemma find_block_Some: "find_block r bs = Some b \<Longrightarrow> b \<in> set bs \<and> covers b r"
  by (induction bs) (auto simp: covers_def split: if_splits)

lemma find_block_None: "find_block r bs = None \<Longrightarrow> b \<in> set bs \<Longrightarrow> \<not> covers b r"
  by (induction bs) (auto simp: covers_def split: if_splits)

lemma covers_unique:
  assumes "blocks_apart bs" "b \<in> set bs" "c \<in> set bs" "covers b r" "covers c r"
  shows "b = c"
proof (rule ccontr)
  assume "b \<noteq> c"
  then have "stop b \<le> unat (rb_offset c) \<or> stop c \<le> unat (rb_offset b)" "stop b < 2 ^ 64" "stop c < 2 ^ 64"
    using assms(1-3) by (auto simp: blocks_apart_def)
  then show False using assms(4,5) covers_iff(1) by fastforce
qed

lemma find_block_iff:
  assumes "blocks_apart bs"
  shows "find_block r bs = Some b \<longleftrightarrow> b \<in> set bs \<and> covers b r"
  using find_block_Some [of r bs] find_block_None [of r bs b] covers_unique [OF assms]
  by (cases "find_block r bs") auto

lemma find_block_perm:
  assumes "blocks_apart bs" "set cs = set bs"
  shows "find_block r cs = find_block r bs"
proof -
  have "blocks_apart cs" using assms by (simp add: blocks_apart_def)
  then show ?thesis using find_block_iff [of cs r] find_block_iff [OF assms(1), of r] assms(2)
    by (cases "find_block r cs"; cases "find_block r bs") auto
qed

section \<open>Pointers\<close>

text \<open>The state after a lookup: the blocks in another order.\<close>

definition reordered :: "'w phys_mem \<Rightarrow> 'w phys_mem \<Rightarrow> bool" where
  "reordered s t \<longleftrightarrow> (\<exists>bs. t = s\<lparr>blocks := bs\<rparr> \<and> mset bs = mset (blocks s))"

lemma reordered_ok:
  assumes "reordered s t" "ram_ok s"
  shows "ram_ok t" "find_block r (blocks t) = find_block r (blocks s)" "ram_byte t = ram_byte s"
proof -
  obtain bs where bs: "t = s\<lparr>blocks := bs\<rparr>" "mset bs = mset (blocks s)" using assms(1) by (auto simp: reordered_def)
  have set: "set bs = set (blocks s)" using bs(2) mset_eq_setD by blast
  have "distinct (map rb_host bs) = distinct (map rb_host (blocks s))" by (rule mset_eq_imp_distinct_iff) (simp add: bs(2))
  then show "ram_ok t" using assms(2) set by (auto simp: ram_ok_def bs(1) blocks_apart_def)
  show f: "find_block r (blocks t) = find_block r (blocks s)" for r
    using assms(2) find_block_perm [OF _ set] by (simp add: ram_ok_def bs(1))
  show "ram_byte t = ram_byte s" by (rule ext) (use f in \<open>simp add: ram_byte_def\<close>, simp add: bs(1))
qed

lemma get_ram_ptr:
  assumes "find_block r (blocks s) = Some b"
  shows "\<exists>t. qemu_get_ram_ptr r s = Inr ((rb_host b, unat (r - rb_offset b)), t) \<and> reordered s t"
  using assms find_block_Some [OF assms]
  by (auto simp: qemu_get_ram_ptr_def reordered_def)

text \<open>A range that lies in one page lies in one block.\<close>

lemma page_in_block:
  assumes "ram_ok s" "find_block r (blocks s) = Some b" "unat r mod 1024 + n \<le> 1024"
  shows "unat (r - rb_offset b) + n \<le> unat (rb_length b)"
proof -
  have b: "b \<in> set (blocks s)" "covers b r" using find_block_Some [OF assms(2)] by auto
  then have ok: "stop b < 2 ^ 64" "1024 dvd unat (rb_offset b)" "1024 dvd unat (rb_length b)"
    using assms(1) by (auto simp: ram_ok_def blocks_apart_def)
  obtain p q where pq: "unat (rb_offset b) = 1024 * p" "unat (rb_length b) = 1024 * q" using ok(2,3) by (auto elim!: dvdE)
  let ?d = "unat (r - rb_offset b)"
  have "?d = unat r - 1024 * p" "1024 * p \<le> unat r" "?d < 1024 * q"
    using covers_iff [OF ok(1), of r] b(2) pq by (auto simp: covers_def word_less_nat_alt)
  then have "unat r mod 1024 = ?d mod 1024" by (metis le_add_diff_inverse mod_mult_self4)
  moreover have "?d div 1024 < q" using \<open>?d < 1024 * q\<close> by (simp add: less_mult_imp_div_less mult.commute)
  then have "1024 * (?d div 1024) + 1024 \<le> 1024 * q" by simp
  moreover have "?d = 1024 * (?d div 1024) + ?d mod 1024" by simp
  ultimately show ?thesis using assms(3) pq(2) by linarith
qed

section \<open>One page\<close>

definition ram_update :: "u64 \<Rightarrow> u8 list \<Rightarrow> (u64 \<Rightarrow> u8 option) \<Rightarrow> u64 \<Rightarrow> u8 option" where
  "ram_update r bs f x = (if unat (x - r) < length bs then Some (bs ! unat (x - r)) else f x)"

text \<open>Everything but the contents and the order of the blocks.\<close>

definition same_frame :: "'w phys_mem \<Rightarrow> 'w phys_mem \<Rightarrow> bool" where
  "same_frame s t \<longleftrightarrow> pages t = pages s \<and> devices t = devices s \<and> in_migration t = in_migration s \<and>
     (\<forall>r. find_block r (blocks t) = find_block r (blocks s))"

lemma same_frame_refl [simp]: "same_frame s s"
  by (simp add: same_frame_def)

lemma same_frame_trans: "same_frame s t \<Longrightarrow> same_frame t u \<Longrightarrow> same_frame s u"
  by (simp add: same_frame_def)

lemma host_write_spec:
  assumes "ram_ok s" "find_block r (blocks s) = Some b" "unat (r - rb_offset b) + length bs \<le> unat (rb_length b)"
  shows "\<exists>t. host_write (rb_host b, unat (r - rb_offset b)) bs s = Inr t \<and> ram_ok t \<and> same_frame s t \<and>
    ram_byte t = ram_update r bs (ram_byte s) \<and> phys_dirty t = phys_dirty s \<and> invalidated t = invalidated s"
proof -
  let ?i = "unat (r - rb_offset b)" and ?h = "rb_host b"
  have b: "b \<in> set (blocks s)" "covers b r" using find_block_Some [OF assms(2)] by auto
  have ok: "blocks_apart (blocks s)" "distinct (map rb_host (blocks s))" "stop b < 2 ^ 64" "host_size s ?h = unat (rb_length b)"
    using assms(1) b by (auto simp: ram_ok_def blocks_apart_def)
  define t where "t = s\<lparr>host_mem := (host_mem s)(?h := \<lambda>j. if ?i \<le> j \<and> j < ?i + length bs then bs ! (j - ?i) else host_mem s ?h j)\<rparr>"
  have w: "host_write (?h, ?i) bs s = Inr t" using assms(3) ok(4) by (simp add: host_write_def t_def)
  have r: "unat (rb_offset b) \<le> unat r" "?i = unat r - unat (rb_offset b)" using covers_iff [OF ok(3)] b(2) by auto
  have e: "unat r + length bs \<le> stop b" using r assms(3) by (simp add: stop_def)
  have upd: "unat (x - r) < length bs \<longleftrightarrow> unat r \<le> unat x \<and> unat x < unat r + length bs" for x
    using range_offset(1) [of r "length bs"] e ok(3) by simp
  have inb: "covers b x" if "unat (x - r) < length bs" for x
    using that e r(1) covers_iff(1) [OF ok(3)] by (simp add: upd)
  have byte: "ram_byte t x = ram_update r bs (ram_byte s) x" for x
  proof (cases "find_block x (blocks s)")
    case None
    then have "\<not> unat (x - r) < length bs" using inb find_block_None [OF None b(1)] by blast
    then show ?thesis using None by (simp add: ram_byte_def ram_update_def t_def)
  next
    case (Some c)
    then have c: "c \<in> set (blocks s)" "covers c x" using find_block_Some by auto
    show ?thesis
    proof (cases "c = b")
      case True
      have x: "unat (rb_offset b) \<le> unat x" "unat (x - rb_offset b) = unat x - unat (rb_offset b)"
        using covers_iff [OF ok(3), of x] c(2) True by auto
      have k: "?i \<le> unat (x - rb_offset b) \<and> unat (x - rb_offset b) < ?i + length bs \<longleftrightarrow> unat (x - r) < length bs"
        unfolding upd using x r by auto
      have "unat (x - rb_offset b) - ?i = unat (x - r)" if "unat (x - r) < length bs"
        using that range_offset(2) [of r "length bs" x] e ok(3) x r by (simp add: upd)
      then show ?thesis using Some True k by (auto simp: ram_byte_def ram_update_def t_def)
    next
      case False
      then have "rb_host c \<noteq> ?h" using ok(2) b(1) c(1) by (auto simp: distinct_map inj_on_def)
      moreover have "\<not> unat (x - r) < length bs" using inb covers_unique [OF ok(1) c(1) b(1) c(2)] False by blast
      ultimately show ?thesis using Some by (simp add: ram_byte_def ram_update_def t_def)
    qed
  qed
  have "ram_ok t" using assms(1) by (simp add: ram_ok_def t_def)
  then show ?thesis using w byte by (auto simp: same_frame_def t_def intro!: exI [of _ t] ext)
qed

text \<open>An address whose page is RAM of a block; reads also take ROM.\<close>

definition mem_backed :: "'w phys_mem \<Rightarrow> phys_addr \<Rightarrow> bool" where
  "mem_backed s addr \<longleftrightarrow> is_ram_or_rom (page_desc addr s) \<and> find_block (page_of (page_desc addr s)) (blocks s) \<noteq> None"

definition ram_backed :: "'w phys_mem \<Rightarrow> phys_addr \<Rightarrow> bool" where
  "ram_backed s addr \<longleftrightarrow> mem_backed s addr \<and> is_ram (page_desc addr s)"

lemma page_desc_cong: "pages t = pages s \<Longrightarrow> page_desc addr t = page_desc addr s" "pages t = pages s \<Longrightarrow> ram_addr_of addr t = ram_addr_of addr s"
  "pages t = pages s \<Longrightarrow> io_addr addr t = io_addr addr s"
  by (simp_all add: page_desc_def ram_addr_of_def io_addr_def)

lemma backed_cong: "same_frame s t \<Longrightarrow> mem_backed t addr = mem_backed s addr" "same_frame s t \<Longrightarrow> ram_backed t addr = ram_backed s addr"
  by (simp_all add: mem_backed_def ram_backed_def same_frame_def page_desc_def)

lemma unat_ram_addr_of: "unat (ram_addr_of addr s) = unat (page_of (page_desc addr s)) + unat addr mod 1024"
proof -
  have p: "unat (page_of (page_desc addr s)) = 1024 * (unat (page_desc addr s) div 1024)" by (rule unat_page_of)
  have "unat (page_desc addr s) < 18446744073709551616" using unsigned_less [of "page_desc addr s"] by simp
  then have "unat (page_desc addr s) div 1024 < 18014398509481984" by (simp add: div_less_iff_less_mult)
  then have "1024 * (unat (page_desc addr s) div 1024) + 1024 \<le> 2 ^ 64" by simp
  moreover have "unat addr mod 1024 < 1024" by simp
  ultimately have "1024 * (unat (page_desc addr s) div 1024) + unat addr mod 1024 < 2 ^ 64" by linarith
  then show ?thesis unfolding ram_addr_of_def by (simp add: unat_word_ariths unat_in_page p)
qed

text \<open>The page's block is the block of each of its addresses.\<close>

lemma same_block:
  assumes "ram_ok s" "mem_backed s addr"
  obtains b where "find_block (page_of (page_desc addr s)) (blocks s) = Some b" "find_block (ram_addr_of addr s) (blocks s) = Some b"
    "unat (ram_addr_of addr s - rb_offset b) = unat (page_of (page_desc addr s) - rb_offset b) + unat addr mod 1024"
proof -
  let ?p = "page_of (page_desc addr s)" and ?r = "ram_addr_of addr s"
  obtain b where b: "find_block ?p (blocks s) = Some b" using assms(2) by (auto simp: mem_backed_def)
  then have bb: "b \<in> set (blocks s)" "covers b ?p" using find_block_Some by auto
  then have ok: "stop b < 2 ^ 64" "blocks_apart (blocks s)" using assms(1) by (auto simp: ram_ok_def blocks_apart_def)
  have "unat ?p mod 1024 + 1024 \<le> 1024" by (simp add: unat_page_of)
  then have l: "unat (?p - rb_offset b) + 1024 \<le> unat (rb_length b)" by (rule page_in_block [OF assms(1) b])
  have u: "unat ?r = unat ?p + unat addr mod 1024" by (rule unat_ram_addr_of)
  have p: "unat (rb_offset b) \<le> unat ?p" "unat (?p - rb_offset b) = unat ?p - unat (rb_offset b)"
    using covers_iff [OF ok(1)] bb(2) by auto
  moreover have "unat addr mod 1024 < 1024" by simp
  ultimately have c: "covers b ?r" using covers_iff(1) [OF ok(1), of ?r] u l by (simp add: stop_def)
  then have "find_block ?r (blocks s) = Some b" using find_block_iff [OF ok(2)] bb(1) by blast
  moreover have "unat (?r - rb_offset b) = unat (?p - rb_offset b) + unat addr mod 1024"
    using covers_iff(2) [OF ok(1) c] u p by simp
  ultimately show thesis using that b by blast
qed

lemma ram_write_spec:
  assumes "ram_ok s" "mem_backed s addr" "unat addr mod 1024 + length bs \<le> 1024"
  shows "\<exists>t. ram_write addr bs s = Inr t \<and> ram_ok t \<and> same_frame s t \<and>
    ram_byte t = ram_update (ram_addr_of addr s) bs (ram_byte s) \<and> phys_dirty t = phys_dirty s \<and> invalidated t = invalidated s"
proof -
  let ?r = "ram_addr_of addr s"
  obtain b where b: "find_block ?r (blocks s) = Some b" by (rule same_block [OF assms(1,2)])
  obtain t where t: "qemu_get_ram_ptr ?r s = Inr ((rb_host b, unat (?r - rb_offset b)), t)" "reordered s t"
    using get_ram_ptr [OF b] by blast
  note ok = reordered_ok [OF t(2) assms(1)]
  have "unat ?r mod 1024 = unat addr mod 1024" by (simp add: unat_ram_addr_of unat_page_of)
  then have "unat (?r - rb_offset b) + length bs \<le> unat (rb_length b)" using page_in_block [OF assms(1) b] assms(3) by simp
  then obtain u where u: "host_write (rb_host b, unat (?r - rb_offset b)) bs t = Inr u" "ram_ok u" "same_frame t u"
    "ram_byte u = ram_update ?r bs (ram_byte t)" "phys_dirty u = phys_dirty t" "invalidated u = invalidated t"
    using host_write_spec [OF ok(1), of ?r b bs] b ok(2) by auto
  moreover have "same_frame s t" "phys_dirty t = phys_dirty s" "invalidated t = invalidated s"
    using t(2) ok(2) by (auto simp: reordered_def same_frame_def)
  moreover have "ram_write addr bs s = Inr u" using t(1) u(1) by (simp add: ram_write_def)
  ultimately show ?thesis using same_frame_trans ok(3) by auto
qed

lemma ram_read_spec:
  assumes "ram_ok s" "mem_backed s addr" "unat addr mod 1024 + n \<le> 1024"
  shows "\<exists>t. ram_read n addr s = Inr (map (\<lambda>j. the (ram_byte s (ram_addr_of addr s + word_of_nat j))) [0..<n], t) \<and> ram_ok t \<and>
    same_frame s t \<and> ram_byte t = ram_byte s \<and> phys_dirty t = phys_dirty s \<and> invalidated t = invalidated s"
proof -
  let ?r = "ram_addr_of addr s" and ?p = "page_of (page_desc addr s)"
  obtain b where b: "find_block ?p (blocks s) = Some b" "find_block ?r (blocks s) = Some b"
    "unat (?r - rb_offset b) = unat (?p - rb_offset b) + unat addr mod 1024"
    by (rule same_block [OF assms(1,2)])
  obtain t where t: "qemu_get_ram_ptr ?p s = Inr ((rb_host b, unat (?p - rb_offset b)), t)" "reordered s t"
    using get_ram_ptr [OF b(1)] by blast
  note ok = reordered_ok [OF t(2) assms(1)]
  have bb: "b \<in> set (blocks s)" "covers b ?r" using find_block_Some [OF b(2)] by auto
  then have bo: "stop b < 2 ^ 64" "blocks_apart (blocks s)" "host_size s (rb_host b) = unat (rb_length b)"
    using assms(1) by (auto simp: ram_ok_def blocks_apart_def)
  have "unat ?r mod 1024 = unat addr mod 1024" by (simp add: unat_ram_addr_of unat_page_of)
  then have l: "unat (?r - rb_offset b) + n \<le> unat (rb_length b)" using page_in_block [OF assms(1) b(2)] assms(3) by simp
  have ro: "unat (rb_offset b) \<le> unat ?r" "unat (?r - rb_offset b) = unat ?r - unat (rb_offset b)"
    using covers_iff [OF bo(1)] bb(2) by auto
  have byte: "host_mem s (rb_host b) (unat (?r - rb_offset b) + j) = the (ram_byte s (?r + word_of_nat j))" if "j < n" for j
  proof -
    have "unat ?r + j < stop b" using l ro that by (simp add: stop_def)
    then have u: "unat (?r + word_of_nat j) = unat ?r + j" using bo(1) by (simp add: unat_word_ariths unat_of_nat)
    then have c: "covers b (?r + word_of_nat j)" using covers_iff(1) [OF bo(1)] ro \<open>unat ?r + j < stop b\<close> by simp
    then have "find_block (?r + word_of_nat j) (blocks s) = Some b" using find_block_iff [OF bo(2)] bb(1) by blast
    moreover have "unat (?r + word_of_nat j - rb_offset b) = unat (?r - rb_offset b) + j"
      using covers_iff(2) [OF bo(1) c] u ro by simp
    ultimately show ?thesis by (simp add: ram_byte_def)
  qed
  have tf: "same_frame s t" "phys_dirty t = phys_dirty s" "invalidated t = invalidated s" "host_mem t = host_mem s" "host_size t = host_size s"
    using t(2) ok(2) by (auto simp: reordered_def same_frame_def)
  have "map (host_mem t (rb_host b)) [unat (?r - rb_offset b)..<unat (?r - rb_offset b) + n] =
      map (\<lambda>j. the (ram_byte s (?r + word_of_nat j))) [0..<n]"
    using byte by (intro nth_equalityI) (simp_all add: tf(4))
  then have "host_read (rb_host b, unat (?p - rb_offset b) + unat (in_page (ucast addr))) n t =
      Inr (map (\<lambda>j. the (ram_byte s (?r + word_of_nat j))) [0..<n])"
    using l bo(3) by (simp add: host_read_def tf(5) unat_in_page b(3) [symmetric])
  then have "ram_read n addr s = Inr (map (\<lambda>j. the (ram_byte s (?r + word_of_nat j))) [0..<n], t)" using t(1) by (simp add: ram_read_def)
  then show ?thesis using tf ok by blast
qed

text \<open>Addresses of one page.\<close>

lemma page_add:
  fixes a :: nat
  assumes "a mod 1024 + j < 1024"
  shows "(a + j) div 1024 = a div 1024" "(a + j) mod 1024 = a mod 1024 + j"
proof -
  have aux: "t + j < 1024 \<Longrightarrow> (t + j + 1024 * q) div 1024 = q" "t + j < 1024 \<Longrightarrow> (t + j + 1024 * q) mod 1024 = t + j" for t q :: nat
    by simp_all
  have "a mod 1024 + j + 1024 * (a div 1024) = a + j" by simp
  then show "(a + j) div 1024 = a div 1024" "(a + j) mod 1024 = a mod 1024 + j"
    using aux [OF assms, of "a div 1024"] by metis+
qed

lemma same_page:
  assumes "unat addr mod 1024 + j < 1024"
  shows "unat (addr + word_of_nat j) = unat addr + j" "page_desc (addr + word_of_nat j) s = page_desc addr s"
    "ram_addr_of (addr + word_of_nat j) s = ram_addr_of addr s + word_of_nat j"
    "mem_backed s (addr + word_of_nat j) = mem_backed s addr" "ram_backed s (addr + word_of_nat j) = ram_backed s addr"
proof -
  have a: "unat addr = 1024 * (unat addr div 1024) + unat addr mod 1024" by simp
  have "unat addr < 4294967296" using unsigned_less [of addr] by simp
  then have "unat addr div 1024 < 4194304" by (simp add: div_less_iff_less_mult)
  then have "unat addr + j < 4294967296" using assms a by linarith
  then show u: "unat (addr + word_of_nat j) = unat addr + j" by (simp add: unat_word_ariths unat_of_nat)
  note d = page_add(1) [OF assms] and m = page_add(2) [OF assms]
  then show p: "page_desc (addr + word_of_nat j) s = page_desc addr s" by (simp add: page_desc_def u)
  have r: "unat (ram_addr_of (addr + word_of_nat j) s) = unat (ram_addr_of addr s) + j" unfolding unat_ram_addr_of p u m by simp
  moreover have "unat (ram_addr_of (addr + word_of_nat j) s) < 2 ^ 64" using unsigned_less [of "ram_addr_of (addr + word_of_nat j) s"] by simp
  ultimately have "unat (ram_addr_of (addr + word_of_nat j) s) = unat (ram_addr_of addr s + word_of_nat j)"
    by (simp add: unat_word_ariths unat_of_nat)
  then show "ram_addr_of (addr + word_of_nat j) s = ram_addr_of addr s + word_of_nat j" by (simp add: word_unat_eq_iff)
  show "mem_backed s (addr + word_of_nat j) = mem_backed s addr" "ram_backed s (addr + word_of_nat j) = ram_backed s addr"
    by (simp_all add: mem_backed_def ram_backed_def p)
qed

section \<open>Ranges\<close>

definition ram_addrs :: "'w phys_mem \<Rightarrow> phys_addr \<Rightarrow> nat \<Rightarrow> u64 list" where
  "ram_addrs s addr n = map (\<lambda>i. ram_addr_of (addr + word_of_nat i) s) [0..<n]"

lemma length_ram_addrs [simp]: "length (ram_addrs s addr n) = n"
  by (simp add: ram_addrs_def)

lemma ram_addrs_split:
  assumes "l \<le> n"
  shows "ram_addrs s addr n = ram_addrs s addr l @ ram_addrs s (addr + word_of_nat l) (n - l)"
  using assms by (intro nth_equalityI) (auto simp: ram_addrs_def nth_append of_nat_diff algebra_simps)

lemma ram_addrs_page:
  assumes "unat addr mod 1024 + n \<le> 1024"
  shows "ram_addrs s addr n = map (\<lambda>j. ram_addr_of addr s + word_of_nat j) [0..<n]"
proof (rule nth_equalityI)
  fix i
  assume "i < length (ram_addrs s addr n)"
  then have "i < n" "unat addr mod 1024 + i < 1024" using assms by (auto simp: ram_addrs_def)
  then show "ram_addrs s addr n ! i = map (\<lambda>j. ram_addr_of addr s + word_of_nat j) [0..<n] ! i"
    by (simp add: ram_addrs_def same_page(3))
qed (simp add: ram_addrs_def)

lemma upds_append:
  assumes "length xs = length ys"
  shows "m(xs @ xs' [\<mapsto>] ys @ ys') = m(xs [\<mapsto>] ys, xs' [\<mapsto>] ys')"
  using assms by (simp add: map_upds_def)

lemma ram_update_upds:
  assumes "length bs < 2 ^ 64"
  shows "ram_update r bs f = f(map (\<lambda>j. r + word_of_nat j) [0..<length bs] [\<mapsto>] bs)"
  using assms
proof (induction bs rule: rev_induct)
  case Nil
  show ?case by (simp add: ram_update_def fun_eq_iff)
next
  case (snoc b bs)
  let ?k = "r + word_of_nat (length bs)"
  have k: "x = ?k \<longleftrightarrow> unat (x - r) = length bs" for x
  proof -
    have "x = ?k \<longleftrightarrow> x - r = word_of_nat (length bs)" by (auto simp: algebra_simps)
    also have "\<dots> \<longleftrightarrow> unat (x - r) = length bs" using snoc.prems by (auto simp: word_unat_eq_iff unat_of_nat)
    finally show ?thesis .
  qed
  have "ram_update r (bs @ [b]) f x = ((ram_update r bs f)(?k \<mapsto> b)) x" for x
    using k [of x] by (auto simp: ram_update_def nth_append)
  then show ?case using snoc by (simp add: upds_append fun_eq_iff)
qed

text \<open>What a write does besides storing the bytes.\<close>

definition marks :: "'w phys_mem \<Rightarrow> u64 set \<Rightarrow> 'w phys_mem \<Rightarrow> bool" where
  "marks s rs t \<longleftrightarrow>
     (\<forall>r\<in>rs. phys_dirty t (dirty_page r) AND 0xfd = 0xfd) \<and>
     (\<forall>i. phys_dirty t i = phys_dirty s i \<or> phys_dirty t i = phys_dirty s i OR 0xfd) \<and>
     set (invalidated s) \<subseteq> set (invalidated t) \<and>
     (\<forall>r\<in>rs. phys_dirty s (dirty_page r) AND CODE_DIRTY_FLAG = 0 \<longrightarrow> (\<exists>(a, e)\<in>set (invalidated t). a \<le> r \<and> r < e))"

lemma dirty_bits: "(x OR 0xfd) AND 0xfd = (0xfd :: u8)" "(x OR 0xfd) AND CODE_DIRTY_FLAG = x AND CODE_DIRTY_FLAG"
  "0xff AND NOT CODE_DIRTY_FLAG = 0xfd" "(x OR 0xfd) OR 0xfd = x OR (0xfd :: u8)"
proof -
  show "(x OR 0xfd) AND 0xfd = (0xfd :: u8)" by (rule bit_eqI) (auto simp: bit_simps)
  show "(x OR 0xfd) AND CODE_DIRTY_FLAG = x AND CODE_DIRTY_FLAG" by (simp add: bit.conj_disj_distrib2 CODE_DIRTY_FLAG_def)
  show "0xff AND NOT CODE_DIRTY_FLAG = 0xfd" by (simp add: CODE_DIRTY_FLAG_def)
  show "(x OR 0xfd) OR 0xfd = x OR (0xfd :: u8)" by (simp add: or.assoc)
qed

lemma marks_trans:
  assumes "marks s A t" "marks t B u"
  shows "marks s (A \<union> B) u"
proof -
  have st: "phys_dirty t i = phys_dirty s i \<or> phys_dirty t i = phys_dirty s i OR 0xfd"
    and tu: "phys_dirty u i = phys_dirty t i \<or> phys_dirty u i = phys_dirty t i OR 0xfd" for i
    using assms by (auto simp: marks_def)
  have code: "phys_dirty t i AND CODE_DIRTY_FLAG = phys_dirty s i AND CODE_DIRTY_FLAG" for i using st [of i] dirty_bits(2) by auto
  have "phys_dirty u (dirty_page r) AND 0xfd = 0xfd" if "r \<in> A \<union> B" for r
  proof (cases "r \<in> B")
    case False
    then have "phys_dirty t (dirty_page r) AND 0xfd = 0xfd" using that assms(1) by (auto simp: marks_def)
    then show ?thesis using tu [of "dirty_page r"] dirty_bits(1) by auto
  qed (use assms(2) in \<open>auto simp: marks_def\<close>)
  moreover have "phys_dirty u i = phys_dirty s i \<or> phys_dirty u i = phys_dirty s i OR 0xfd" for i
    using st [of i] tu [of i] dirty_bits(4) by auto
  moreover have "\<exists>(a, e)\<in>set (invalidated u). a \<le> r \<and> r < e" if "r \<in> A \<union> B" "phys_dirty s (dirty_page r) AND CODE_DIRTY_FLAG = 0" for r
  proof (cases "r \<in> A")
    case True
    have "\<exists>(a, e)\<in>set (invalidated t). a \<le> r \<and> r < e" using True that(2) assms(1) by (simp add: marks_def)
    moreover have "set (invalidated t) \<subseteq> set (invalidated u)" using assms(2) by (simp add: marks_def)
    ultimately show ?thesis by blast
  qed (use that assms(2) code in \<open>auto simp: marks_def\<close>)
  ultimately show ?thesis using assms unfolding marks_def by auto
qed

lemma dirty_page_nat: "dirty_page r = unat r div 1024"
  by (simp add: dirty_page_def TARGET_PAGE_BITS_def drop_bit_eq_div unat_div_distrib)

lemma marks_written:
  assumes "unat r mod 1024 + l \<le> 1024" "unat r + l < 2 ^ 64" "phys_dirty t = phys_dirty s" "invalidated t = invalidated s"
  shows "marks s ((\<lambda>j. r + word_of_nat j) ` {0..<l}) (written r l t)"
proof -
  have u: "unat (r + word_of_nat j) = unat r + j" "dirty_page (r + word_of_nat j) = dirty_page r" if "j < l" for j
  proof -
    show u: "unat (r + word_of_nat j) = unat r + j" using that assms(2) by (simp add: unat_word_ariths unat_of_nat)
    have "unat r mod 1024 + j < 1024" using assms(1) that by simp
    then show "dirty_page (r + word_of_nat j) = dirty_page r" unfolding dirty_page_nat u by (rule page_add)
  qed
  have e: "unat (r + word_of_nat l) = unat r + l" using assms(2) by (simp add: unat_word_ariths unat_of_nat)
  show ?thesis
  proof (cases "phys_dirty s (dirty_page r) = 0xff")
    case True
    then show ?thesis using u(2) assms(3,4) by (auto simp: marks_def written_def cpu_physical_memory_is_dirty_def CODE_DIRTY_FLAG_def)
  next
    case False
    then show ?thesis using u e assms(3,4)
      by (auto simp: marks_def written_def cpu_physical_memory_is_dirty_def cpu_physical_memory_set_dirty_flags_def
          tb_invalidate_phys_page_range_def dirty_bits word_le_nat_alt word_less_nat_alt)
  qed
qed

lemma written_frame:
  "pages (written r l t) = pages t" "blocks (written r l t) = blocks t" "host_mem (written r l t) = host_mem t"
  "host_size (written r l t) = host_size t" "next_host (written r l t) = next_host t" "devices (written r l t) = devices t"
  "in_migration (written r l t) = in_migration t"
  by (simp_all add: written_def cpu_physical_memory_set_dirty_flags_def tb_invalidate_phys_page_range_def)

text \<open>A write to RAM: the bytes, the flags and what stays.\<close>

definition writes :: "'w phys_mem \<Rightarrow> u64 list \<Rightarrow> u8 list \<Rightarrow> 'w phys_mem \<Rightarrow> bool" where
  "writes s rs bs t \<longleftrightarrow> ram_ok t \<and> same_frame s t \<and> ram_byte t = (ram_byte s)(rs [\<mapsto>] bs) \<and> marks s (set rs) t"

lemma writes_trans:
  assumes "writes s rs bs t" "writes t rs' bs' u" "length rs = length bs"
  shows "writes s (rs @ rs') (bs @ bs') u"
  using assms marks_trans [of s "set rs" t "set rs'" u] same_frame_trans [of s t u] by (simp add: writes_def upds_append)

lemma ram_top:
  assumes "ram_ok s" "mem_backed s addr" "unat addr mod 1024 + l \<le> 1024"
  shows "unat (ram_addr_of addr s) + l < 2 ^ 64"
proof -
  let ?r = "ram_addr_of addr s"
  obtain b where b: "find_block ?r (blocks s) = Some b" by (rule same_block [OF assms(1,2)])
  have bb: "b \<in> set (blocks s)" "covers b ?r" using find_block_Some [OF b] by auto
  have ok: "stop b < 2 ^ 64" using assms(1) bb(1) by (auto simp: ram_ok_def blocks_apart_def)
  have "unat ?r mod 1024 = unat addr mod 1024" by (simp add: unat_ram_addr_of unat_page_of)
  then have "unat (?r - rb_offset b) + l \<le> unat (rb_length b)" using page_in_block [OF assms(1) b] assms(3) by simp
  then show ?thesis using covers_iff [OF ok] bb(2) ok by (auto simp: stop_def)
qed

lemma ram_write_writes:
  assumes "ram_ok s" "mem_backed s addr" "unat addr mod 1024 + length bs \<le> 1024"
  shows "\<exists>t. bindE (ram_write addr bs s) (\<lambda>t. Inr (written (ram_addr_of addr s) (length bs) t)) = Inr t \<and> writes s (ram_addrs s addr (length bs)) bs t"
proof -
  let ?r = "ram_addr_of addr s" and ?l = "length bs"
  obtain t where t: "ram_write addr bs s = Inr t" "ram_ok t" "same_frame s t"
    "ram_byte t = ram_update ?r bs (ram_byte s)" "phys_dirty t = phys_dirty s" "invalidated t = invalidated s"
    using ram_write_spec [OF assms] by blast
  have "unat ?r mod 1024 = unat addr mod 1024" by (simp add: unat_ram_addr_of unat_page_of)
  then have m: "marks s ((\<lambda>j. ?r + word_of_nat j) ` {0..<?l}) (written ?r ?l t)"
    using assms(3) by (intro marks_written ram_top [OF assms] t) simp
  have rs: "ram_addrs s addr ?l = map (\<lambda>j. ?r + word_of_nat j) [0..<?l]" by (rule ram_addrs_page [OF assms(3)])
  have "ram_byte (written ?r ?l t) = ram_byte t" by (rule ext) (simp add: ram_byte_def written_frame)
  also have "\<dots> = (ram_byte s)(ram_addrs s addr ?l [\<mapsto>] bs)"
    unfolding t(4) rs by (rule ram_update_upds) (use assms(3) in simp)
  finally have "writes s (ram_addrs s addr ?l) bs (written ?r ?l t)"
    using t(2,3) m by (simp add: writes_def rs ram_ok_def same_frame_def written_frame)
  then show ?thesis using t(1) by auto
qed

lemma page_left_nat: "page_left addr n = min (1024 - unat addr mod 1024) n"
  by (simp add: page_left_def unat_in_page TARGET_PAGE_SIZE_def TARGET_PAGE_BITS_def)

lemma ram_addrs_cong: "same_frame s t \<Longrightarrow> ram_addrs t addr n = ram_addrs s addr n"
  by (simp add: ram_addrs_def same_frame_def ram_addr_of_def page_desc_def)

lemma memory_write_writes:
  assumes "ram_ok s" "\<forall>i<length bs. ram_backed s (addr + word_of_nat i)"
  shows "\<exists>t. cpu_physical_memory_write addr bs s = Inr t \<and> writes s (ram_addrs s addr (length bs)) bs t"
  using assms
proof (induction addr bs s rule: cpu_physical_memory_write.induct)
  case (1 addr bs s)
  show ?case
  proof (cases "bs = []")
    case True
    then show ?thesis using 1(2) by (simp add: writes_def marks_def ram_addrs_def cpu_physical_memory_write.simps)
  next
    case False
    define l where "l = page_left addr (length bs)"
    have ram: "ram_backed s addr" using 1(3) False by (auto dest: spec [of _ 0])
    then have d: "is_ram (page_desc addr s)" "mem_backed s addr" by (simp_all add: ram_backed_def)
    have l: "l \<le> length bs" "unat addr mod 1024 + l \<le> 1024" "l = write_round addr s (length bs)"
      using d(1) by (simp_all add: l_def page_left_nat write_round_def Let_def)
    have len: "length (take l bs) = l" using l(1) by simp
    obtain t where t: "bindE (ram_write addr (take l bs) s) (\<lambda>t. Inr (written (ram_addr_of addr s) l t)) = Inr t"
      "writes s (ram_addrs s addr l) (take l bs) t"
      using ram_write_writes [OF 1(2) d(2), of "take l bs"] l len by auto
    have tf: "ram_ok t" "same_frame s t" using t(2) by (simp_all add: writes_def)
    have "\<forall>i<length (drop l bs). ram_backed t (addr + word_of_nat l + word_of_nat i)"
    proof (intro allI impI)
      fix i
      assume "i < length (drop l bs)"
      then have "l + i < length bs" using l(1) by simp
      then have "ram_backed s (addr + word_of_nat (l + i))" using 1(3) by blast
      then show "ram_backed t (addr + word_of_nat l + word_of_nat i)" using backed_cong(2) [OF tf(2)] by (simp add: add.assoc)
    qed
    then obtain u where u: "cpu_physical_memory_write (addr + word_of_nat l) (drop l bs) t = Inr u"
      "writes t (ram_addrs t (addr + word_of_nat l) (length (drop l bs))) (drop l bs) u"
      using 1(1) [OF False l(3) tf(1)] by auto
    have "cpu_physical_memory_write addr bs s = Inr u"
      using False d(1) t(1) u(1) l(3) by (simp add: cpu_physical_memory_write.simps [of addr bs s] Let_def)
    moreover have "writes s (ram_addrs s addr (length bs)) bs u"
      unfolding ram_addrs_split [OF l(1)] using writes_trans [OF t(2) u(2)] l(1) ram_addrs_cong [OF tf(2)] by simp
    ultimately show ?thesis by blast
  qed
qed

lemma memory_read_reads:
  assumes "ram_ok s" "\<forall>i<n. mem_backed s (addr + word_of_nat i)"
  shows "\<exists>t. cpu_physical_memory_read addr n s = Inr (map (\<lambda>r. the (ram_byte s r)) (ram_addrs s addr n), t) \<and> ram_ok t \<and>
    same_frame s t \<and> ram_byte t = ram_byte s"
  using assms
proof (induction addr n s rule: cpu_physical_memory_read.induct)
  case (1 addr n s)
  show ?case
  proof (cases "n = 0")
    case True
    then show ?thesis using 1(2) by (simp add: ram_addrs_def cpu_physical_memory_read.simps)
  next
    case False
    define l where "l = page_left addr n"
    have mem: "mem_backed s addr" using 1(3) False by (auto dest: spec [of _ 0])
    then have d: "is_ram_or_rom (page_desc addr s)" by (simp add: mem_backed_def)
    have l: "l \<le> n" "unat addr mod 1024 + l \<le> 1024" "l = read_round addr s n"
      using d by (simp_all add: l_def page_left_nat read_round_def Let_def)
    let ?f = "\<lambda>r. the (ram_byte s r)"
    obtain t where t: "ram_read l addr s = Inr (map ?f (ram_addrs s addr l), t)" "ram_ok t" "same_frame s t" "ram_byte t = ram_byte s"
      using ram_read_spec [OF 1(2) mem l(2)] ram_addrs_page [OF l(2), of s] by (auto simp: o_def)
    have "\<forall>i<n - l. mem_backed t (addr + word_of_nat l + word_of_nat i)"
    proof (intro allI impI)
      fix i
      assume "i < n - l"
      then have "l + i < n" by simp
      then have "mem_backed s (addr + word_of_nat (l + i))" using 1(3) by blast
      then show "mem_backed t (addr + word_of_nat l + word_of_nat i)" using backed_cong(1) [OF t(3)] by (simp add: add.assoc)
    qed
    then obtain u where u: "cpu_physical_memory_read (addr + word_of_nat l) (n - l) t =
        Inr (map ?f (ram_addrs t (addr + word_of_nat l) (n - l)), u)" "ram_ok u" "same_frame t u" "ram_byte u = ram_byte t"
      using 1(1) [OF False l(3) t(2)] t(4) by auto
    have "cpu_physical_memory_read addr n s = Inr (map ?f (ram_addrs s addr n), u)"
      using False d t(1) u(1) l(3) ram_addrs_split [OF l(1), of s addr] ram_addrs_cong [OF t(3)]
      by (simp add: cpu_physical_memory_read.simps [of addr n s] Let_def)
    then show ?thesis using u(2-4) t(4) same_frame_trans [OF t(3)] by auto
  qed
qed

section \<open>Properties of the accesses\<close>

lemma upds_distinct:
  assumes "distinct rs" "length rs = length bs"
  shows "map (\<lambda>r. the ((f(rs [\<mapsto>] bs)) r)) rs = bs"
  using assms(2,1)
proof (induction rs bs arbitrary: f rule: list_induct2)
  case (Cons x xs y ys)
  then have "(f(x \<mapsto> y, xs [\<mapsto>] ys)) x = Some y" by simp
  then show ?case using Cons by (simp del: map_upds_twist fun_upd_apply)
qed simp

text \<open>
  C6: physical memory is a byte memory. Writing any sequence of bytes with
  \<open>cpu_physical_memory_rw\<close> to addresses whose pages are RAM, whatever pages and blocks it
  crosses, succeeds; reading the range back gives the bytes (unless two of its addresses are
  the same byte of RAM); and what a range that shares no RAM with it reads is not changed.
\<close>

theorem memory_write_read:
  assumes "ram_ok s" "\<forall>i<length bs. ram_backed s (addr + word_of_nat i)" "distinct (ram_addrs s addr (length bs))"
    and "\<forall>i<n. mem_backed s (other + word_of_nat i)" "set (ram_addrs s other n) \<inter> set (ram_addrs s addr (length bs)) = {}"
  shows "\<exists>t u v w. cpu_physical_memory_write addr bs s = Inr t \<and>
    cpu_physical_memory_read addr (length bs) t = Inr (bs, u) \<and>
    cpu_physical_memory_read other n t = Inr (fst v, w) \<and> cpu_physical_memory_read other n s = Inr v"
proof -
  let ?rs = "ram_addrs s addr (length bs)" and ?os = "ram_addrs s other n"
  obtain t where t: "cpu_physical_memory_write addr bs s = Inr t" "writes s ?rs bs t"
    using memory_write_writes [OF assms(1,2)] by blast
  then have tf: "ram_ok t" "same_frame s t" "ram_byte t = (ram_byte s)(?rs [\<mapsto>] bs)" by (simp_all add: writes_def)
  have "\<forall>i<length bs. mem_backed t (addr + word_of_nat i)" "\<forall>i<n. mem_backed t (other + word_of_nat i)"
    using assms(2,4) backed_cong [OF tf(2)] by (simp_all add: ram_backed_def)
  then obtain u w where r: "cpu_physical_memory_read addr (length bs) t = Inr (map (\<lambda>r. the (ram_byte t r)) (ram_addrs t addr (length bs)), u)"
    "cpu_physical_memory_read other n t = Inr (map (\<lambda>r. the (ram_byte t r)) (ram_addrs t other n), w)"
    using memory_read_reads [OF tf(1)] by blast
  obtain v where v: "cpu_physical_memory_read other n s = Inr (map (\<lambda>r. the (ram_byte s r)) ?os, v)"
    using memory_read_reads [OF assms(1,4)] by blast
  have "length ?rs = length bs" by (simp add: ram_addrs_def)
  then have "map (\<lambda>r. the (ram_byte t r)) ?rs = bs" unfolding tf(3) by (rule upds_distinct [OF assms(3)])
  moreover have "map (\<lambda>r. the (ram_byte t r)) ?os = map (\<lambda>r. the (ram_byte s r)) ?os"
    using assms(5) unfolding tf(3) by (auto intro!: arg_cong [where f = the] map_upds_apply_nontin)
  ultimately show ?thesis using t(1) r v ram_addrs_cong [OF tf(2)] by auto
qed

text \<open>Two kilobytes of RAM at address 0x20000000, at RAM address 0x400.\<close>

definition two_pages :: "unit phys_mem" where
  "two_pages = \<lparr>pages = io_mem_init\<lparr>l1_phys_map := [0x80000 div 1024 \<mapsto> (\<lambda>i. if i < 2
       then \<lparr>phys_offset = 0x400 + 0x400 * word_of_nat i, region_offset = 0\<rparr> else new_block 0x80000 i)]\<rparr>,
     blocks = [\<lparr>rb_host = 0, rb_offset = 0x400, rb_length = 0x800, rb_idstr = ''ram''\<rparr>],
     host_mem = (\<lambda>_ _. 0), host_size = (\<lambda>_. 0x800), next_host = 1, phys_dirty = (\<lambda>_. 0),
     in_migration = False, devices = (), invalidated = []\<rparr>"

lemma two_pages_ok: "ram_ok two_pages"
  by (simp add: two_pages_def ram_ok_def blocks_apart_def stop_def)

lemma two_pages_at:
  assumes "j < 0x800"
  shows "page_desc (0x20000000 + word_of_nat j) two_pages = 0x400 + 0x400 * word_of_nat (j div 1024)"
    "ram_backed two_pages (0x20000000 + word_of_nat j)"
    "ram_addr_of (0x20000000 + word_of_nat j) two_pages = 0x400 + word_of_nat j"
proof -
  have u: "unat (0x20000000 + word_of_nat j :: phys_addr) = 0x20000000 + j" using assms by (simp add: unat_word_ariths unat_of_nat)
  have q: "j div 1024 < 2" using assms by (simp add: less_mult_imp_div_less)
  have i: "(0x20000000 + j) div 1024 = 0x80000 + j div 1024" "(0x20000000 + j) mod 1024 = j mod 1024"
    using div_mult_self2 [of 1024 j 524288] mod_mult_self2 [of j 1024 524288] by (simp_all add: add.commute)
  have k: "(0x80000 + j div 1024) div 1024 = 0x200" "(0x80000 + j div 1024) mod 1024 = j div 1024"
    using q by (auto simp: less_2_cases_iff)
  show d: "page_desc (0x20000000 + word_of_nat j) two_pages = 0x400 + 0x400 * word_of_nat (j div 1024)"
    unfolding page_desc_def unat_page u i using q by (simp add: phys_page_find_def two_pages_def page_index k)
  have p: "j div 1024 = 0 \<or> j div 1024 = 1" using q by auto
  show "ram_backed two_pages (0x20000000 + word_of_nat j)"
    unfolding ram_backed_def mem_backed_def d using p
    by (auto simp: is_ram_or_rom_def is_ram_def two_pages_def in_page_def page_of_def TARGET_PAGE_MASK_def IO_MEM_ROM_def)
  have "unat (page_of (0x400 + 0x400 * word_of_nat (j div 1024))) = 0x400 + 1024 * (j div 1024)"
    using p by (auto simp: page_of_def TARGET_PAGE_MASK_def)
  then have "unat (ram_addr_of (0x20000000 + word_of_nat j) two_pages) = 0x400 + j"
    unfolding unat_ram_addr_of d u i by simp
  then show "ram_addr_of (0x20000000 + word_of_nat j) two_pages = 0x400 + word_of_nat j"
    using assms by (simp add: word_unat_eq_iff unat_word_ariths unat_of_nat)
qed

lemma two_pages_range:
  assumes "k + n \<le> 0x800"
  shows "\<forall>i<n. ram_backed two_pages (0x20000000 + word_of_nat k + word_of_nat i)"
    "ram_addrs two_pages (0x20000000 + word_of_nat k) n = map (\<lambda>i. 0x400 + word_of_nat (k + i)) [0..<n]"
proof -
  have at: "0x20000000 + word_of_nat k + word_of_nat i = (0x20000000 :: phys_addr) + word_of_nat (k + i)" for i by simp
  show "\<forall>i<n. ram_backed two_pages (0x20000000 + word_of_nat k + word_of_nat i)"
    unfolding at using two_pages_at(2) assms by (simp del: of_nat_add)
  show "ram_addrs two_pages (0x20000000 + word_of_nat k) n = map (\<lambda>i. 0x400 + word_of_nat (k + i)) [0..<n]"
    unfolding ram_addrs_def at using two_pages_at(3) assms by (intro map_cong) (simp_all del: of_nat_add)
qed

text \<open>Three bytes across the two pages.\<close>

lemma length_three: "Suc (Suc (Suc 0)) = 3"
  by simp

lemma memory_write_read_witness:
  "\<exists>t u v w. cpu_physical_memory_write 0x200003ff [1, 2, 3] two_pages = Inr t \<and>
     cpu_physical_memory_read 0x200003ff 3 t = Inr ([1, 2, 3], u) \<and>
     cpu_physical_memory_read 0x20000402 4 t = Inr (fst v, w) \<and> cpu_physical_memory_read 0x20000402 4 two_pages = Inr v"
proof -
  have b: "\<forall>i<length [1, 2, 3 :: u8]. ram_backed two_pages (0x20000000 + word_of_nat 1023 + word_of_nat i)"
    "\<forall>i<4. mem_backed two_pages (0x20000000 + word_of_nat 1026 + word_of_nat i)"
    using two_pages_range(1) [of 1023 3] two_pages_range(1) [of 1026 4] by (auto simp: ram_backed_def)
  have "distinct (ram_addrs two_pages (0x20000000 + word_of_nat 1023) (length [1, 2, 3 :: u8]))"
    "set (ram_addrs two_pages (0x20000000 + word_of_nat 1026) 4) \<inter>
      set (ram_addrs two_pages (0x20000000 + word_of_nat 1023) (length [1, 2, 3 :: u8])) = {}"
    using two_pages_range(2) [of 1023 3] two_pages_range(2) [of 1026 4] by (simp_all add: upt_conv_Cons length_three)
  then show ?thesis using memory_write_read [OF two_pages_ok b(1) _ b(2)] by (simp add: length_three)
qed

text \<open>
  C7: a write through \<open>cpu_physical_memory_rw\<close> never goes unnoticed: every byte's page has all
  flags but the one for code set afterwards, no flag of any page is cleared, the code flag is
  not touched, and if it was clear (the page has translated code), the translations of a range
  with the byte were invalidated.
\<close>

theorem memory_write_noticed:
  assumes "ram_ok s" "\<forall>i<length bs. ram_backed s (addr + word_of_nat i)"
  shows "\<exists>t. cpu_physical_memory_write addr bs s = Inr t \<and>
    (\<forall>r\<in>set (ram_addrs s addr (length bs)). phys_dirty t (dirty_page r) AND 0xfd = 0xfd \<and>
       (phys_dirty s (dirty_page r) AND CODE_DIRTY_FLAG = 0 \<longrightarrow> (\<exists>(a, e)\<in>set (invalidated t). a \<le> r \<and> r < e))) \<and>
    (\<forall>i. phys_dirty s i AND NOT (phys_dirty t i) = 0 \<and> phys_dirty t i AND CODE_DIRTY_FLAG = phys_dirty s i AND CODE_DIRTY_FLAG)"
proof -
  obtain t where t: "cpu_physical_memory_write addr bs s = Inr t" "marks s (set (ram_addrs s addr (length bs))) t"
    using memory_write_writes [OF assms] by (auto simp: writes_def)
  have d: "phys_dirty t i = phys_dirty s i \<or> phys_dirty t i = phys_dirty s i OR 0xfd" for i using t(2) by (simp add: marks_def)
  have zero: "x AND NOT (x OR y) = 0" for x y :: u8 by (rule bit_eqI) (auto simp: bit_simps)
  have "phys_dirty s i AND NOT (phys_dirty t i) = 0" for i
    using d [of i] by (elim disjE ssubst) (simp, rule zero)
  moreover have "phys_dirty t i AND CODE_DIRTY_FLAG = phys_dirty s i AND CODE_DIRTY_FLAG" for i using d [of i] dirty_bits(2) by auto
  ultimately show ?thesis using t by (simp add: marks_def)
qed

lemma memory_write_noticed_witness:
  "\<exists>t. cpu_physical_memory_write 0x20000400 [7] two_pages = Inr t \<and> phys_dirty t 2 AND 0xfd = 0xfd \<and>
     (\<exists>(a, e)\<in>set (invalidated t). a \<le> 0x800 \<and> 0x800 < e)"
proof -
  have b: "\<forall>i<length [7 :: u8]. ram_backed two_pages (0x20000000 + word_of_nat 1024 + word_of_nat i)"
    using two_pages_range(1) [of 1024 1] by simp
  have "ram_addrs two_pages (0x20000000 + word_of_nat 1024) (length [7 :: u8]) = [0x800]"
    using two_pages_range(2) [of 1024 1] by simp
  then show ?thesis using memory_write_noticed [OF two_pages_ok b] by (auto simp: dirty_page_nat two_pages_def)
qed

section \<open>Aligned words\<close>

text \<open>
  What the exception code of the processor relies on: words of memory that can be loaded, some
  of which can be stored, where a store changes the word of its own cell only. Several addresses
  may name the same cell.
\<close>

locale word_memory =
  fixes ld :: "phys_addr \<Rightarrow> 's \<Rightarrow> (u32 \<times> 's) res"
    and st :: "phys_addr \<Rightarrow> u32 \<Rightarrow> 's \<Rightarrow> 's res"
    and readable :: "'s \<Rightarrow> phys_addr \<Rightarrow> bool"
    and usable :: "'s \<Rightarrow> phys_addr \<Rightarrow> bool"
    and cell :: "'s \<Rightarrow> phys_addr \<Rightarrow> u64"
    and word_at :: "'s \<Rightarrow> phys_addr \<Rightarrow> u32"
  assumes usable_readable: "usable s a \<Longrightarrow> readable s a"
    and st_law: "usable s a \<Longrightarrow> \<exists>t. st a v s = Inr t \<and> readable t = readable s \<and> usable t = usable s \<and> cell t = cell s \<and>
      word_at t a = v \<and> (\<forall>b. readable s b \<longrightarrow> cell s b \<noteq> cell s a \<longrightarrow> word_at t b = word_at s b)"
    and ld_law: "readable s a \<Longrightarrow> \<exists>t. ld a s = Inr (word_at s a, t) \<and> readable t = readable s \<and> usable t = usable s \<and>
      cell t = cell s \<and> word_at t = word_at s"
begin

definition same_shape :: "'s \<Rightarrow> 's \<Rightarrow> bool" where
  "same_shape s t \<longleftrightarrow> readable t = readable s \<and> usable t = usable s \<and> cell t = cell s"

definition push :: "u32 \<Rightarrow> phys_addr \<times> 's \<Rightarrow> (phys_addr \<times> 's) res" where
  "push v = (\<lambda>(sp, m). bindE (st (sp - 4) v m) (\<lambda>m. Inr (sp - 4, m)))"

definition pop :: "phys_addr \<times> 's \<Rightarrow> (u32 \<times> phys_addr \<times> 's) res" where
  "pop = (\<lambda>(sp, m). bindE (ld sp m) (\<lambda>(v, m). Inr (v, sp + 4, m)))"

fun pops :: "nat \<Rightarrow> phys_addr \<times> 's \<Rightarrow> (u32 list \<times> phys_addr \<times> 's) res" where
  "pops 0 x = Inr ([], x)"
| "pops (Suc n) x = bindE (pop x) (\<lambda>(v, x). bindE (pops n x) (\<lambda>(vs, x). Inr (v # vs, x)))"

definition frame_at :: "'s \<Rightarrow> phys_addr \<Rightarrow> u32 list \<Rightarrow> bool" where
  "frame_at m sp ws \<longleftrightarrow> (\<forall>i<length ws. usable m (sp + 4 * word_of_nat i) \<and> word_at m (sp + 4 * word_of_nat i) = ws ! i)"

definition below :: "'s \<Rightarrow> phys_addr \<Rightarrow> nat \<Rightarrow> bool" where
  "below m sp n \<longleftrightarrow> (\<forall>i<n. usable m (sp - 4 * word_of_nat (Suc i))) \<and>
     (\<forall>i<n. \<forall>j<n. i \<noteq> j \<longrightarrow> cell m (sp - 4 * word_of_nat (Suc i)) \<noteq> cell m (sp - 4 * word_of_nat (Suc j)))"

lemma push_frame:
  assumes "below m sp (length vs)"
  shows "\<exists>m'. foldE push vs (sp, m) = Inr (sp - 4 * word_of_nat (length vs), m') \<and> same_shape m m' \<and>
    (\<forall>i<length vs. word_at m' (sp - 4 * word_of_nat (Suc i)) = vs ! i) \<and>
    (\<forall>b. readable m b \<longrightarrow> (\<forall>i<length vs. cell m b \<noteq> cell m (sp - 4 * word_of_nat (Suc i))) \<longrightarrow> word_at m' b = word_at m b)"
  using assms
proof (induction vs rule: rev_induct)
  case Nil
  show ?case by (simp add: same_shape_def)
next
  case (snoc v vs)
  let ?n = "length vs" and ?a = "\<lambda>i. sp - 4 * word_of_nat (Suc i)"
  have "below m sp ?n" using snoc.prems by (simp add: below_def)
  then obtain m1 where m1: "foldE push vs (sp, m) = Inr (sp - 4 * word_of_nat ?n, m1)" "same_shape m m1"
    "\<forall>i<?n. word_at m1 (?a i) = vs ! i"
    "\<forall>b. readable m b \<longrightarrow> (\<forall>i<?n. cell m b \<noteq> cell m (?a i)) \<longrightarrow> word_at m1 b = word_at m b" using snoc.IH by blast
  have u: "\<And>i. i \<le> ?n \<Longrightarrow> usable m (?a i)" "\<And>i. i < ?n \<Longrightarrow> cell m (?a i) \<noteq> cell m (?a ?n)"
    using snoc.prems by (auto simp: below_def less_Suc_eq_le simp del: of_nat_Suc)
  have a: "sp - 4 * word_of_nat ?n - 4 = ?a ?n" by (simp add: algebra_simps)
  obtain m2 where m2: "st (?a ?n) v m1 = Inr m2" "same_shape m m2" "word_at m2 (?a ?n) = v"
    "\<forall>b. readable m b \<longrightarrow> cell m b \<noteq> cell m (?a ?n) \<longrightarrow> word_at m2 b = word_at m1 b"
    using st_law [of m1 "?a ?n" v] u(1) m1(2) by (auto simp: same_shape_def)
  have "foldE push (vs @ [v]) (sp, m) = Inr (?a ?n, m2)" using m1(1) m2(1) by (simp add: foldE_append push_def a)
  moreover have "word_at m2 (?a i) = (vs @ [v]) ! i" if "i < length (vs @ [v])" for i
  proof (cases "i = ?n")
    case False
    then have "i < ?n" using that by simp
    then show ?thesis using m2(4) u m1(3) usable_readable by (simp add: nth_append del: of_nat_Suc)
  qed (use m2(3) in simp)
  moreover have "word_at m2 b = word_at m b" if "readable m b" "\<forall>i<length (vs @ [v]). cell m b \<noteq> cell m (?a i)" for b
    using that m2(4) m1(4) by simp
  ultimately show ?case using m2(2) by (simp del: of_nat_Suc)
qed

lemma pop_frame:
  assumes "frame_at m sp ws"
  shows "\<exists>m'. pops (length ws) (sp, m) = Inr (ws, sp + 4 * word_of_nat (length ws), m') \<and> same_shape m m' \<and> word_at m' = word_at m"
  using assms
proof (induction ws arbitrary: sp m)
  case (Cons w ws)
  have "usable m sp" "word_at m sp = w" using Cons.prems by (auto simp: frame_at_def dest: spec [of _ 0])
  then obtain m1 where m1: "ld sp m = Inr (w, m1)" "same_shape m m1" "word_at m1 = word_at m"
    using ld_law usable_readable unfolding same_shape_def by blast
  have "frame_at m1 (sp + 4) ws" unfolding frame_at_def m1(3)
  proof (intro allI impI)
    fix i
    assume "i < length ws"
    then have "usable m (sp + 4 * word_of_nat (Suc i)) \<and> word_at m (sp + 4 * word_of_nat (Suc i)) = ws ! i"
      using Cons.prems by (auto simp: frame_at_def dest!: spec [of _ "Suc i"])
    then show "usable m1 (sp + 4 + 4 * word_of_nat i) \<and> word_at m (sp + 4 + 4 * word_of_nat i) = ws ! i"
      using m1(2) by (simp add: same_shape_def algebra_simps)
  qed
  then obtain m2 where m2: "pops (length ws) (sp + 4, m1) = Inr (ws, sp + 4 + 4 * word_of_nat (length ws), m2)" "same_shape m1 m2"
    "word_at m2 = word_at m1" using Cons.IH by blast
  then show ?case using m1 by (simp add: pop_def same_shape_def algebra_simps)
qed (simp add: same_shape_def)

lemma pushed_frame:
  assumes "below m sp (length vs)"
  shows "\<exists>m'. foldE push vs (sp, m) = Inr (sp - 4 * word_of_nat (length vs), m') \<and> same_shape m m' \<and>
    frame_at m' (sp - 4 * word_of_nat (length vs)) (rev vs) \<and>
    (\<forall>b. readable m b \<longrightarrow> (\<forall>i<length vs. cell m b \<noteq> cell m (sp - 4 * word_of_nat (Suc i))) \<longrightarrow> word_at m' b = word_at m b)"
proof -
  let ?n = "length vs"
  obtain m' where m': "foldE push vs (sp, m) = Inr (sp - 4 * word_of_nat ?n, m')" "same_shape m m'"
    "\<forall>i<?n. word_at m' (sp - 4 * word_of_nat (Suc i)) = vs ! i"
    "\<forall>b. readable m b \<longrightarrow> (\<forall>i<?n. cell m b \<noteq> cell m (sp - 4 * word_of_nat (Suc i))) \<longrightarrow> word_at m' b = word_at m b"
    using push_frame [OF assms] by blast
  have "frame_at m' (sp - 4 * word_of_nat ?n) (rev vs)" unfolding frame_at_def
  proof (intro allI impI)
    fix i
    assume i: "i < length (rev vs)"
    then have "word_of_nat ?n = (word_of_nat (Suc (?n - Suc i)) + word_of_nat i :: u32)" unfolding of_nat_add [symmetric] by simp
    then have a: "sp - 4 * word_of_nat ?n + 4 * word_of_nat i = sp - 4 * word_of_nat (Suc (?n - Suc i))" by (simp add: algebra_simps)
    have "usable m (sp - 4 * word_of_nat (Suc (?n - Suc i)))" using assms i unfolding below_def by (simp del: of_nat_Suc)
    then show "usable m' (sp - 4 * word_of_nat ?n + 4 * word_of_nat i) \<and> word_at m' (sp - 4 * word_of_nat ?n + 4 * word_of_nat i) = rev vs ! i"
      unfolding a using m'(2,3) i by (simp add: same_shape_def rev_nth del: of_nat_Suc)
  qed
  then show ?thesis using m' by blast
qed

end

text \<open>Aligned words of RAM and ROM are such a memory.\<close>

definition ram_readable :: "'w phys_mem \<Rightarrow> phys_addr \<Rightarrow> bool" where
  "ram_readable s a \<longleftrightarrow> ram_ok s \<and> mem_backed s a \<and> unat a mod 4 = 0"

definition ram_usable :: "'w phys_mem \<Rightarrow> phys_addr \<Rightarrow> bool" where
  "ram_usable s a \<longleftrightarrow> ram_ok s \<and> ram_backed s a \<and> unat a mod 4 = 0"

definition ram_cell :: "'w phys_mem \<Rightarrow> phys_addr \<Rightarrow> u64" where
  "ram_cell s a = ram_addr_of a s"

definition ram_word :: "'w phys_mem \<Rightarrow> phys_addr \<Rightarrow> u32" where
  "ram_word s a = ucast (from_le (map (\<lambda>j. the (ram_byte s (ram_addr_of a s + word_of_nat j))) [0..<4]))"

lemma ld_st_p: "ld_p endian (st_p endian n v) = take_bit (8 * n) v"
  by (cases endian) (simp_all add: ld_p_def st_p_def from_to_le)

lemma word_in_page: "unat a mod 4 = 0 \<Longrightarrow> unat a mod 1024 + 4 \<le> 1024"
proof -
  assume "unat a mod 4 = 0"
  then have "4 dvd unat a mod 1024" by (simp add: dvd_eq_mod_eq_0 mod_mod_cancel)
  then obtain k where "unat a mod 1024 = 4 * k" by blast
  moreover have "unat a mod 1024 < 1024" by simp
  ultimately show ?thesis by simp
qed

lemma stl_writes:
  assumes "ram_usable s a"
  shows "\<exists>t. stl_phys a v s = Inr t \<and> writes s (ram_addrs s a 4) (to_le 4 (ucast v)) t"
  using assms ram_write_writes [of s a "to_le 4 (ucast v)"] word_in_page [of a]
  by (auto simp: stl_phys_def stl_phys_internal_def st_p_def ram_usable_def ram_backed_def)

lemma ram_word_cong:
  assumes "same_frame s t" "\<And>j. j < 4 \<Longrightarrow> ram_byte t (ram_addr_of a s + word_of_nat j) = ram_byte s (ram_addr_of a s + word_of_nat j)"
  shows "ram_word t a = ram_word s a"
proof -
  have "ram_addr_of a t = ram_addr_of a s" using assms(1) by (simp add: same_frame_def ram_addr_of_def page_desc_def)
  then show ?thesis using assms(2) unfolding ram_word_def by (intro arg_cong [where f = "\<lambda>bs. ucast (from_le bs)"] map_cong) auto
qed

lemma words_apart:
  assumes "ram_readable s a" "ram_readable s b" "ram_cell s b \<noteq> ram_cell s a" "j < 4" "i < 4"
  shows "ram_addr_of b s + word_of_nat j \<noteq> ram_addr_of a s + word_of_nat i"
proof
  assume e: "ram_addr_of b s + word_of_nat j = ram_addr_of a s + word_of_nat i"
  have u: "unat (ram_addr_of c s + word_of_nat k) = unat (ram_addr_of c s) + k" "unat (ram_addr_of c s) mod 4 = 0"
    if "ram_readable s c" "k < 4" for c k
  proof -
    have c: "unat c mod 4 = 0" "mem_backed s c" "ram_ok s" using that(1) by (simp_all add: ram_readable_def)
    have "unat (ram_addr_of c s) + 4 < 2 ^ 64" using ram_top [OF c(3,2)] word_in_page [OF c(1)] by blast
    then show "unat (ram_addr_of c s + word_of_nat k) = unat (ram_addr_of c s) + k" using that(2) by (simp add: unat_word_ariths unat_of_nat)
    have "4 dvd unat c mod 1024" using c(1) by (simp add: dvd_eq_mod_eq_0 mod_mod_cancel)
    then show "unat (ram_addr_of c s) mod 4 = 0" by (simp add: unat_ram_addr_of unat_page_of dvd_eq_mod_eq_0 [symmetric])
  qed
  have "unat (ram_addr_of b s) + j = unat (ram_addr_of a s) + i" using e u assms by metis
  moreover have "4 dvd unat (ram_addr_of b s)" "4 dvd unat (ram_addr_of a s)" using u(2) [OF assms(1,5)] u(2) [OF assms(2,4)] by (simp_all add: dvd_eq_mod_eq_0)
  ultimately have "unat (ram_addr_of b s) = unat (ram_addr_of a s)" using assms(4,5) by (auto elim!: dvdE)
  then show False using assms(3) by (simp add: ram_cell_def word_unat_eq_iff)
qed

lemma ram_usable_readable: "ram_usable s a \<Longrightarrow> ram_readable s a"
  by (simp add: ram_usable_def ram_readable_def ram_backed_def)

lemma readable_cong:
  assumes "same_frame s t" "ram_ok s" "ram_ok t"
  shows "ram_readable t = ram_readable s" "ram_usable t = ram_usable s" "ram_cell t = ram_cell s"
  using assms backed_cong [OF assms(1)]
  by (auto simp: ram_readable_def ram_usable_def ram_cell_def same_frame_def ram_addr_of_def page_desc_def fun_eq_iff)

interpretation ram: word_memory ldl_phys stl_phys ram_readable ram_usable ram_cell ram_word
proof
  show "ram_usable s a \<Longrightarrow> ram_readable s a" for s :: "'a phys_mem" and a by (rule ram_usable_readable)
next
  fix s :: "'a phys_mem" and a and v :: u32
  assume u: "ram_usable s a"
  let ?rs = "ram_addrs s a 4" and ?bs = "to_le 4 (ucast v)"
  obtain t where t: "stl_phys a v s = Inr t" "ram_ok t" "same_frame s t" "ram_byte t = (ram_byte s)(?rs [\<mapsto>] ?bs)"
    using stl_writes [OF u] by (auto simp: writes_def)
  have p: "unat a mod 1024 + 4 \<le> 1024" using u word_in_page [of a] by (simp add: ram_usable_def)
  have rs: "?rs = map (\<lambda>j. ram_addr_of a s + word_of_nat j) [0..<4]" by (rule ram_addrs_page [OF p])
  have "ram_ok s" using u by (simp add: ram_usable_def)
  note sh = readable_cong [OF t(3) this t(2)]
  have "distinct ?rs" unfolding rs by (simp add: upt_rec)
  then have "map (\<lambda>r. the (ram_byte t r)) ?rs = ?bs" unfolding t(4) by (rule upds_distinct) simp
  then have "ram_word t a = ucast (from_le ?bs)" using sh(3) unfolding rs by (simp add: ram_word_def ram_cell_def o_def fun_eq_iff)
  also have "\<dots> = v" unfolding from_to_le by (rule u32_eqI) (simp add: bit_simps)
  finally have "ram_word t a = v" .
  moreover have "ram_word t b = ram_word s b" if b: "ram_readable s b" "ram_cell s b \<noteq> ram_cell s a" for b
  proof (rule ram_word_cong [OF t(3)])
    fix j :: nat
    assume "j < 4"
    then have "ram_addr_of b s + word_of_nat j \<notin> set ?rs" unfolding rs using words_apart [OF ram_usable_readable [OF u] b] by auto
    then show "ram_byte t (ram_addr_of b s + word_of_nat j) = ram_byte s (ram_addr_of b s + word_of_nat j)"
      unfolding t(4) by (rule map_upds_apply_nontin)
  qed
  ultimately show "\<exists>t. stl_phys a v s = Inr t \<and> ram_readable t = ram_readable s \<and> ram_usable t = ram_usable s \<and> ram_cell t = ram_cell s \<and>
      ram_word t a = v \<and> (\<forall>b. ram_readable s b \<longrightarrow> ram_cell s b \<noteq> ram_cell s a \<longrightarrow> ram_word t b = ram_word s b)"
    using t(1) sh by blast
next
  fix s :: "'a phys_mem" and a
  assume u: "ram_readable s a"
  then have m: "ram_ok s" "mem_backed s a" "unat a mod 1024 + 4 \<le> 1024" "is_ram_or_rom (page_desc a s)"
    using word_in_page [of a] by (simp_all add: ram_readable_def mem_backed_def)
  obtain t where t: "ram_read 4 a s = Inr (map (\<lambda>j. the (ram_byte s (ram_addr_of a s + word_of_nat j))) [0..<4], t)" "ram_ok t"
    "same_frame s t" "ram_byte t = ram_byte s" using ram_read_spec [OF m(1-3)] by blast
  have "ldl_phys a s = Inr (ram_word s a, t)" using t(1) m(4) by (simp add: ldl_phys_def ldl_phys_internal_def ld_p_def ram_word_def)
  moreover have "ram_word t = ram_word s" using ram_word_cong [OF t(3)] t(4) by (simp add: fun_eq_iff)
  ultimately show "\<exists>t. ldl_phys a s = Inr (ram_word s a, t) \<and> ram_readable t = ram_readable s \<and> ram_usable t = ram_usable s \<and>
      ram_cell t = ram_cell s \<and> ram_word t = ram_word s"
    using readable_cong [OF t(3) m(1) t(2)] by blast
qed

section \<open>Allocation\<close>

lemma next_block_spec:
  "e \<le> next_block e bs" "c \<in> set bs \<Longrightarrow> e \<le> rb_offset c \<Longrightarrow> next_block e bs \<le> rb_offset c"
proof -
  let ?f = "\<lambda>b nxt. if rb_offset b \<ge> e then min nxt (rb_offset b) else nxt"
  have "fold ?f bs n \<le> n \<and> (e \<le> n \<longrightarrow> e \<le> fold ?f bs n) \<and> (\<forall>c\<in>set bs. e \<le> rb_offset c \<longrightarrow> fold ?f bs n \<le> rb_offset c)" for n
  proof (induction bs arbitrary: n)
    case (Cons b bs)
    have "?f b n \<le> n" "e \<le> n \<longrightarrow> e \<le> ?f b n" "e \<le> rb_offset b \<longrightarrow> ?f b n \<le> rb_offset b" by auto
    then show ?case using Cons.IH [of "?f b n"] by (auto intro: order_trans)
  qed simp
  from this [of RAM_ADDR_MAX] show "e \<le> next_block e bs" "c \<in> set bs \<Longrightarrow> e \<le> rb_offset c \<Longrightarrow> next_block e bs \<le> rb_offset c"
    by (auto simp: next_block_def RAM_ADDR_MAX_def)
qed

lemma gap_found:
  assumes "fold (gap_step sz bs) xs (offset, g) = (offset', g')" "set xs \<subseteq> set bs"
  shows "offset' = offset \<or> (\<exists>b\<in>set bs. offset' = block_end b \<and> sz \<le> next_block offset' bs - offset')"
  using assms
proof (induction xs arbitrary: offset g)
  case (Cons b xs)
  obtain o1 g1 where s: "gap_step sz bs b (offset, g) = (o1, g1)" by fastforce
  then have "o1 = offset \<or> o1 = block_end b \<and> sz \<le> next_block o1 bs - o1" by (auto simp: gap_step_def Let_def split: if_splits)
  then show ?case using Cons.IH [of o1 g1] Cons.prems s by auto
qed simp

lemma find_ram_offset_free:
  assumes "blocks_apart bs" "find_ram_offset sz bs = Inr off"
  shows "unat off + unat sz < 2 ^ 64" "1024 dvd unat off"
    "c \<in> set bs \<Longrightarrow> stop c \<le> unat off \<or> unat off + unat sz \<le> unat (rb_offset c)"
proof -
  have "unat off + unat sz < 2 ^ 64 \<and> 1024 dvd unat off \<and> (c \<in> set bs \<longrightarrow> stop c \<le> unat off \<or> unat off + unat sz \<le> unat (rb_offset c))"
  proof (cases "bs = []")
    case True
    then show ?thesis using assms(2) unsigned_less [of sz] by (simp add: find_ram_offset_def)
  next
    case False
    obtain b where b: "b \<in> set bs" "off = block_end b" "sz \<le> next_block off bs - off"
      using assms(2) False gap_found [of sz bs bs RAM_ADDR_MAX RAM_ADDR_MAX]
      by (cases "fold (gap_step sz bs) bs (RAM_ADDR_MAX, RAM_ADDR_MAX)") (auto simp: find_ram_offset_def Let_def split: if_splits)
    have bo: "stop b < 2 ^ 64" "1024 dvd unat (rb_offset b)" "1024 dvd unat (rb_length b)" using assms(1) b(1) by (auto simp: blocks_apart_def)
    have off: "unat off = stop b" using bo(1) by (simp add: b(2) block_end_def stop_def unat_word_ariths)
    have le: "off \<le> next_block off bs" by (rule next_block_spec)
    then have gap: "unat off + unat sz \<le> unat (next_block off bs)" using b(3) unat_sub [OF le] by (simp add: word_le_nat_alt)
    have "unat (next_block off bs) < 2 ^ 64" using unsigned_less [of "next_block off bs"] by simp
    moreover have "1024 dvd unat off" unfolding off stop_def using bo(2,3) by simp
    moreover have "stop c \<le> unat off \<or> unat off + unat sz \<le> unat (rb_offset c)" if c: "c \<in> set bs"
    proof (cases "off \<le> rb_offset c")
      case True
      then have "next_block off bs \<le> rb_offset c" by (rule next_block_spec(2) [OF c])
      then show ?thesis using gap by (simp add: word_le_nat_alt)
    next
      case False
      then have "unat (rb_offset c) < stop b" by (simp add: off word_le_nat_alt not_le)
      moreover have "c \<noteq> b \<longrightarrow> stop c \<le> unat (rb_offset b) \<or> stop b \<le> unat (rb_offset c)"
        using assms(1) b(1) c unfolding blocks_apart_def by blast
      ultimately have "c = b \<or> stop c \<le> unat (rb_offset b)" by linarith
      then show ?thesis unfolding off by (auto simp: stop_def)
    qed
    ultimately show ?thesis using gap by linarith
  qed
  then show "unat off + unat sz < 2 ^ 64" "1024 dvd unat off"
    "c \<in> set bs \<Longrightarrow> stop c \<le> unat off \<or> unat off + unat sz \<le> unat (rb_offset c)" by blast+
qed

text \<open>
  C8: \<open>qemu_ram_alloc\<close> gives out fresh memory: the new block overlaps no other, the bytes of
  all other blocks are kept, and all bytes of the new one are its own contents.
\<close>

theorem ram_alloc_fresh:
  assumes "ram_ok s" "qemu_ram_alloc nm sz contents s = Inr (off, t)"
  shows "ram_ok t \<and> (\<forall>r. ram_byte s r \<noteq> None \<longrightarrow> ram_byte t r = ram_byte s r) \<and>
    (\<forall>i<unat (TARGET_PAGE_ALIGN sz). ram_byte s (off + word_of_nat i) = None \<and> ram_byte t (off + word_of_nat i) = Some (contents i))"
proof -
  let ?z = "TARGET_PAGE_ALIGN sz" and ?h = "next_host s"
  let ?b = "\<lparr>rb_host = ?h, rb_offset = off, rb_length = ?z, rb_idstr = nm\<rparr>"
  have t: "find_ram_offset ?z (blocks s) = Inr off" "blocks t = ?b # blocks s" "host_mem t = (host_mem s)(?h := contents)"
    "host_size t = (host_size s)(?h := unat ?z)" "next_host t = Suc ?h"
    using assms(2) by (auto simp: qemu_ram_alloc_def Let_def split: if_splits)
  have apart: "blocks_apart (blocks s)" and host: "\<And>c. c \<in> set (blocks s) \<Longrightarrow> rb_host c < ?h" using assms(1) by (auto simp: ram_ok_def)
  note free = find_ram_offset_free [OF apart t(1)]
  have new: "stop ?b = unat off + unat ?z" "stop ?b < 2 ^ 64" using free(1) by (simp_all add: stop_def)
  have "1024 dvd unat ?z" by (simp add: TARGET_PAGE_ALIGN_def unat_page_of)
  then have "blocks_apart (blocks t)"
    unfolding t(2) blocks_apart_def using apart free new by (auto simp: blocks_apart_def)
  moreover have "?h \<notin> rb_host ` set (blocks s)" using host by fastforce
  moreover have "rb_host c \<noteq> ?h" if "c \<in> set (blocks s)" for c using host [OF that] by simp
  ultimately have ok: "ram_ok t" using assms(1) t host by (auto simp: ram_ok_def less_Suc_eq)
  have old: "\<not> covers ?b r" if "find_block r (blocks s) = Some c" for r c
    using find_block_Some [OF that] covers_iff(1) [OF new(2), of r] new(1) free(3) [of c] covers_iff(1) [of c r] apart
    by (auto simp: blocks_apart_def)
  have "ram_byte t r = ram_byte s r" if r: "ram_byte s r \<noteq> None" for r
  proof -
    obtain c where c: "find_block r (blocks s) = Some c" using r by (auto simp: ram_byte_def)
    then have "rb_host c \<noteq> ?h" using find_block_Some [OF c] host [of c] by auto
    then show ?thesis using c old [OF c] by (simp add: ram_byte_def t covers_def)
  qed
  moreover have "ram_byte s (off + word_of_nat i) = None \<and> ram_byte t (off + word_of_nat i) = Some (contents i)" if "i < unat ?z" for i
  proof -
    have u: "unat (off + word_of_nat i) = unat off + i" using that free(1) by (simp add: unat_word_ariths unat_of_nat)
    then have c: "covers ?b (off + word_of_nat i)" using covers_iff(1) [OF new(2)] new(1) that by simp
    have "unat (off + word_of_nat i - off) = i" using that free(1) by (simp add: unat_of_nat)
    moreover have "find_block (off + word_of_nat i) (blocks s) = None"
      using c old [of "off + word_of_nat i"] by (cases "find_block (off + word_of_nat i) (blocks s)") auto
    ultimately show ?thesis using c by (simp add: ram_byte_def t covers_def)
  qed
  ultimately show ?thesis using ok by blast
qed

lemma ram_alloc_fresh_witness:
  "\<exists>t. qemu_ram_alloc ''sram'' 100 (\<lambda>i. 5) two_pages = Inr (0xc00, t) \<and> ram_ok t \<and> ram_byte t 0xc63 = Some 5"
proof -
  have "TARGET_PAGE_ALIGN 100 = 0x400" by (simp add: TARGET_PAGE_ALIGN_def page_of_def TARGET_PAGE_MASK_def)
  moreover have "find_ram_offset 0x400 (blocks two_pages) = Inr 0xc00"
    by (simp add: find_ram_offset_def gap_step_def next_block_def block_end_def two_pages_def RAM_ADDR_MAX_def Let_def)
  moreover have "\<not> (\<exists>b\<in>set (blocks two_pages). rb_idstr b = ''sram'')" by (simp add: two_pages_def)
  ultimately have "\<exists>t. qemu_ram_alloc ''sram'' 100 (\<lambda>i. 5) two_pages = Inr (0xc00, t)" by (simp add: qemu_ram_alloc_def Let_def)
  then obtain t where t: "qemu_ram_alloc ''sram'' 100 (\<lambda>i. 5) two_pages = Inr (0xc00, t)" by blast
  from ram_alloc_fresh [OF two_pages_ok t] have "ram_ok t" "\<forall>i<1024. ram_byte t (0xc00 + word_of_nat i) = Some 5"
    using \<open>TARGET_PAGE_ALIGN 100 = 0x400\<close> by auto
  moreover from this(2) have "99 < (1024 :: nat) \<longrightarrow> ram_byte t (0xc00 + word_of_nat 99) = Some 5" by (rule spec)
  ultimately show ?thesis using t by simp
qed

text \<open>
  \<open>stq_phys_notdirty\<close> never marks the page as dirty, though \<open>stl_phys_notdirty\<close> does
  during a migration.
\<close>

lemma stq_notdirty_unnoticed:
  assumes "stq_phys_notdirty addr v s = Inr t" "is_ram (page_desc addr s)"
  shows "phys_dirty t = phys_dirty s"
  using assms
  by (auto simp: stq_phys_notdirty_def qemu_get_ram_ptr_def host_write_def split: option.splits if_splits prod.splits)

lemma stl_notdirty_migration:
  assumes "stl_phys_notdirty addr v s = Inr t" "is_ram (page_desc addr s)" "in_migration s"
  shows "phys_dirty t (dirty_page (ram_addr_of addr s)) AND 0xfd = 0xfd"
proof -
  obtain u where u: "ram_write addr (to_le 4 (ucast v)) s = Inr u" "t = (if in_migration u then written (ram_addr_of addr s) 4 u else u)"
    using assms(1,2) by (auto simp: stl_phys_notdirty_def)
  then have "in_migration u" using assms(3) by (auto simp: ram_write_def qemu_get_ram_ptr_def host_write_def split: option.splits if_splits)
  then show ?thesis using u(2) dirty_bits
    by (auto simp: written_def cpu_physical_memory_is_dirty_def cpu_physical_memory_set_dirty_flags_def tb_invalidate_phys_page_range_def)
qed

end
