(* ===== verification/V7m.thy ===== *)
theory V7m
  imports Nvic Phys_Mem
begin

text \<open>
  Taking and leaving exceptions on an ARMv7-M processor (\<open>target-arm/helper.c\<close>): the stack
  operations, \<open>do_interrupt_v7m\<close> and \<open>do_v7m_exception_exit\<close>, over the interrupt controller of
  theory \<open>Nvic\<close> and the physical memory of theory \<open>Phys_Mem\<close>. Fetching code through the MMU and
  the semihosting calls are arguments.
\<close>

section \<open>State\<close>

record 'w v7m =
  core :: machine
  mem :: "'w phys_mem"

definition EXCP_UDEF :: int where "EXCP_UDEF = 1"
definition EXCP_SWI :: int where "EXCP_SWI = 2"
definition EXCP_PREFETCH_ABORT :: int where "EXCP_PREFETCH_ABORT = 3"
definition EXCP_DATA_ABORT :: int where "EXCP_DATA_ABORT = 4"
definition EXCP_IRQ :: int where "EXCP_IRQ = 5"
definition EXCP_BKPT :: int where "EXCP_BKPT = 7"
definition EXCP_EXCEPTION_EXIT :: int where "EXCP_EXCEPTION_EXIT = 8"

record 'w semihosting =
  lduw_code :: "u32 \<Rightarrow> 'w v7m \<Rightarrow> u32"
  do_arm_semihosting :: "'w v7m \<Rightarrow> (u32 \<times> 'w v7m) res"

definition upd_cpu :: "(CPUARMState \<Rightarrow> CPUARMState) \<Rightarrow> 'w v7m \<Rightarrow> 'w v7m" where
  "upd_cpu f s = s\<lparr>core := (core s)\<lparr>cpu := f (cpu (core s))\<rparr>\<rparr>"

definition put_core :: "'w v7m \<Rightarrow> machine res \<Rightarrow> 'w v7m res" where
  "put_core s r = bindE r (\<lambda>m. Inr (s\<lparr>core := m\<rparr>))"

abbreviation env :: "'w v7m \<Rightarrow> CPUARMState" where
  "env s \<equiv> cpu (core s)"

section \<open>The stack\<close>

definition v7m_push :: "u32 \<Rightarrow> 'w v7m \<Rightarrow> 'w v7m res" where
  "v7m_push val s =
     (let s = upd_cpu (set_reg 13 (regs (env s) 13 - 4)) s
      in bindE (stl_phys (regs (env s) 13) val (mem s)) (\<lambda>m. Inr (s\<lparr>mem := m\<rparr>)))"

definition v7m_pop :: "'w v7m \<Rightarrow> (u32 \<times> 'w v7m) res" where
  "v7m_pop s =
     bindE (ldl_phys (regs (env s) 13) (mem s)) (\<lambda>(val, m).
     Inr (val, upd_cpu (set_reg 13 (regs (env s) 13 + 4)) (s\<lparr>mem := m\<rparr>)))"

definition pop_reg :: "nat \<Rightarrow> 'w v7m \<Rightarrow> 'w v7m res" where
  "pop_reg r s = bindE (v7m_pop s) (\<lambda>(val, s). Inr (upd_cpu (set_reg r val) s))"

section \<open>Exceptions\<close>

text \<open>The number of rounds of \<open>gic_complete_irq\<close> is the first argument.\<close>

definition do_v7m_exception_exit :: "nat \<Rightarrow> 'w v7m \<Rightarrow> 'w v7m res" where
  "do_v7m_exception_exit n s =
     (let type = regs (env s) 15
      in bindE (if v7m_exception (env s) \<noteq> 0
                then put_core s (armv7m_nvic_complete_irq n (v7m_exception (env s)) (core s)) else Inr s) (\<lambda>s.
         let s = upd_cpu (\<lambda>e. switch_v7m_sp e (type AND 4 \<noteq> 0)) s
         in bindE (foldE pop_reg [0, 1, 2, 3, 12, 14, 15] s) (\<lambda>s.
            bindE (v7m_pop s) (\<lambda>(xpsr, s).
            let s = upd_cpu (\<lambda>e. xpsr_write e xpsr 0xfffffdff) s
            in Inr (if xpsr AND 0x200 \<noteq> 0 then upd_cpu (set_reg 13 (regs (env s) 13 OR 4)) s else s)))))"

definition exc_return :: "CPUARMState \<Rightarrow> u32" where
  "exc_return e = 0xfffffff1 OR (if current_sp e then 4 else 0) OR (if v7m_exception e = 0 then 8 else 0)"

text \<open>The part of \<open>do_interrupt_v7m\<close> after the exception number is known.\<close>

definition enter_exception :: "u32 \<Rightarrow> u32 \<Rightarrow> 'w v7m \<Rightarrow> 'w v7m res" where
  "enter_exception xpsr lr s =
     (let align = (regs (env s) 13 AND 4 \<noteq> 0);
          s = (if align then upd_cpu (set_reg 13 (regs (env s) 13 - 4)) s else s);
          xpsr = (if align then xpsr OR 0x200 else xpsr)
      in bindE (v7m_push xpsr s) (\<lambda>s.
         bindE (v7m_push (regs (env s) 15) s) (\<lambda>s.
         bindE (v7m_push (regs (env s) 14) s) (\<lambda>s.
         bindE (v7m_push (regs (env s) 12) s) (\<lambda>s.
         bindE (v7m_push (regs (env s) 3) s) (\<lambda>s.
         bindE (v7m_push (regs (env s) 2) s) (\<lambda>s.
         bindE (v7m_push (regs (env s) 1) s) (\<lambda>s.
         bindE (v7m_push (regs (env s) 0) s) (\<lambda>s.
         let s = upd_cpu (\<lambda>e. switch_v7m_sp e False) s;
             s = upd_cpu (\<lambda>e. e\<lparr>uncached_cpsr := uncached_cpsr e AND NOT CPSR_IT\<rparr>) s;
             s = upd_cpu (set_reg 14 lr) s
         in bindE (ldl_phys (vecbase (env s) + word_of_int (v7m_exception (env s)) * 4) (mem s)) (\<lambda>(addr, m).
            Inr (upd_cpu (\<lambda>e. (set_reg 15 (addr AND 0xfffffffe) e)\<lparr>thumb := addr AND 1\<rparr>) (s\<lparr>mem := m\<rparr>))))))))))))"

definition do_interrupt_v7m :: "nat \<Rightarrow> 'w semihosting option \<Rightarrow> 'w v7m \<Rightarrow> 'w v7m res" where
  "do_interrupt_v7m n semi s =
     (let xpsr = xpsr_read (env s); lr = exc_return (env s); index = exception_index (env s);
          pend = (\<lambda>irq s. put_core s (armv7m_nvic_set_pending (int irq) (core s)))
      in if index = EXCP_UDEF then pend ARMV7M_EXCP_USAGE s
         else if index = EXCP_SWI then pend ARMV7M_EXCP_SVC (upd_cpu (set_reg 15 (regs (env s) 15 + 2)) s)
         else if index = EXCP_PREFETCH_ABORT \<or> index = EXCP_DATA_ABORT then pend ARMV7M_EXCP_MEM s
         else if index = EXCP_BKPT then
           (case semi of
              None \<Rightarrow> pend ARMV7M_EXCP_DEBUG s
            | Some sh \<Rightarrow>
                if lduw_code sh (regs (env s) 15) s AND 0xff = 0xab
                then bindE (do_arm_semihosting sh (upd_cpu (set_reg 15 (regs (env s) 15 + 2)) s)) (\<lambda>(val, s).
                     Inr (upd_cpu (set_reg 0 val) s))
                else pend ARMV7M_EXCP_DEBUG s)
         else if index = EXCP_IRQ then
           bindE (armv7m_nvic_acknowledge_irq (core s)) (\<lambda>(irq, m).
             enter_exception xpsr lr (upd_cpu (\<lambda>e. e\<lparr>v7m_exception := irq\<rparr>) (s\<lparr>core := m\<rparr>)))
         else if index = EXCP_EXCEPTION_EXIT then do_v7m_exception_exit n s
         else Inl (cpu_abort ''Unhandled exception''))"

section \<open>The stack as memory\<close>

definition with_stack :: "phys_addr \<times> 'w phys_mem \<Rightarrow> 'w v7m \<Rightarrow> 'w v7m" where
  "with_stack x s = (upd_cpu (set_reg 13 (fst x)) s)\<lparr>mem := snd x\<rparr>"


lemma upd_cpu_simps [simp]:
  "env (upd_cpu f s) = f (env s)" "mem (upd_cpu f s) = mem s" "core (upd_cpu f s) = (core s)\<lparr>cpu := f (env s)\<rparr>"
  "upd_cpu f (upd_cpu g s) = upd_cpu (f \<circ> g) s"
  by (simp_all add: upd_cpu_def)

lemma with_stack_simps [simp]:
  "env (with_stack x s) = set_reg 13 (fst x) (env s)" "mem (with_stack x s) = snd x"
  "core (with_stack x s) = (core s)\<lparr>cpu := set_reg 13 (fst x) (env s)\<rparr>" "with_stack y (with_stack x s) = with_stack y s"
  by (simp_all add: with_stack_def upd_cpu_def set_reg_def)

lemma with_own_stack: "with_stack (regs (env s) 13, mem s) s = s"
  by (simp add: with_stack_def upd_cpu_def set_reg_def)

lemma regs_set_reg [simp]: "regs (set_reg i v e) j = (if j = i then v else regs e j)"
  by (simp add: set_reg_def)

lemma push_eq: "v7m_push v (with_stack x s) = bindE (ram.push v x) (\<lambda>x. Inr (with_stack x s))"
  by (cases x) (simp add: v7m_push_def ram.push_def Let_def bindE_assoc with_stack_def upd_cpu_def set_reg_def)




section \<open>Entering an exception\<close>

definition aligned_sp :: "CPUARMState \<Rightarrow> u32" where
  "aligned_sp e = (if regs e 13 AND 4 \<noteq> 0 then regs e 13 - 4 else regs e 13)"

definition stacked_xpsr :: "CPUARMState \<Rightarrow> u32 \<Rightarrow> u32" where
  "stacked_xpsr e xpsr = (if regs e 13 AND 4 \<noteq> 0 then xpsr OR 0x200 else xpsr)"

definition enter_cpu :: "u32 \<Rightarrow> CPUARMState \<Rightarrow> CPUARMState" where
  "enter_cpu lr e = set_reg 14 lr ((switch_v7m_sp e False)\<lparr>uncached_cpsr := uncached_cpsr e AND NOT CPSR_IT\<rparr>)"

definition vector :: "CPUARMState \<Rightarrow> u32" where
  "vector e = vecbase e + word_of_int (v7m_exception e) * 4"

definition stacked :: "u32 \<Rightarrow> CPUARMState \<Rightarrow> u32 list" where
  "stacked xpsr e = [regs e 0, regs e 1, regs e 2, regs e 3, regs e 12, regs e 14, regs e 15, stacked_xpsr e xpsr]"

lemma switch_keeps [simp]:
  "vecbase (switch_v7m_sp e b) = vecbase e" "v7m_exception (switch_v7m_sp e b) = v7m_exception e" "uncached_cpsr (switch_v7m_sp e b) = uncached_cpsr e"
  "vecbase (set_reg i v e) = vecbase e" "v7m_exception (set_reg i v e) = v7m_exception e" "uncached_cpsr (set_reg i v e) = uncached_cpsr e"
  by (simp_all add: switch_v7m_sp_def set_reg_def)

lemma enter_eq:
  "enter_exception xpsr lr s =
     bindE (foldE ram.push (rev (stacked xpsr (env s))) (aligned_sp (env s), mem s)) (\<lambda>x.
     let e = enter_cpu lr (set_reg 13 (fst x) (env s))
     in bindE (ldl_phys (vector (env s)) (snd x)) (\<lambda>(w, m).
        Inr (s\<lparr>core := (core s)\<lparr>cpu := (set_reg 15 (w AND 0xfffffffe) e)\<lparr>thumb := w AND 1\<rparr>\<rparr>, mem := m\<rparr>)))"
proof -
  have a: "(if regs (env s) 13 AND 4 \<noteq> 0 then upd_cpu (set_reg 13 (regs (env s) 13 - 4)) s else s) = with_stack (aligned_sp (env s), mem s) s"
    by (simp add: aligned_sp_def with_stack_def upd_cpu_def set_reg_def)
  show ?thesis
    unfolding enter_exception_def Let_def a stacked_xpsr_def [symmetric]
    by (simp add: push_eq bindE_assoc stacked_def)
      (auto simp: enter_cpu_def vector_def with_stack_def upd_cpu_def set_reg_def intro!: bindE_ext)
qed

text \<open>Room for the frame below the stack pointer, and a vector apart from it.\<close>

definition stack_room :: "'w phys_mem \<Rightarrow> CPUARMState \<Rightarrow> bool" where
  "stack_room m e \<longleftrightarrow> ram.below m (aligned_sp e) 8 \<and> ram_readable m (vector e) \<and>
     (\<forall>i<8. ram_cell m (vector e) \<noteq> ram_cell m (aligned_sp e - 4 * word_of_nat (Suc i)))"

lemma entered:
  assumes "stack_room (mem s) (env s)"
  obtains m where
    "enter_exception xpsr lr s = Inr (s\<lparr>core := (core s)\<lparr>cpu := (set_reg 15 (ram_word (mem s) (vector (env s)) AND 0xfffffffe)
       (enter_cpu lr (set_reg 13 (aligned_sp (env s) - 32) (env s))))\<lparr>thumb := ram_word (mem s) (vector (env s)) AND 1\<rparr>\<rparr>, mem := m\<rparr>)"
    "ram.same_shape (mem s) m" "ram.frame_at m (aligned_sp (env s) - 32) (stacked xpsr (env s))"
proof -
  let ?vs = "rev (stacked xpsr (env s))" and ?sp = "aligned_sp (env s)" and ?v = "vector (env s)"
  have n: "length ?vs = 8" by (simp add: stacked_def)
  have "ram.below (mem s) ?sp (length ?vs)" using assms unfolding n by (simp add: stack_room_def)
  then obtain m where m: "foldE ram.push ?vs (?sp, mem s) = Inr (?sp - 32, m)" "ram.same_shape (mem s) m"
      "ram.frame_at m (?sp - 32) (stacked xpsr (env s))"
      "\<forall>b. ram_readable (mem s) b \<longrightarrow> (\<forall>i<8. ram_cell (mem s) b \<noteq> ram_cell (mem s) (?sp - 4 * word_of_nat (Suc i))) \<longrightarrow> ram_word m b = ram_word (mem s) b"
    using ram.pushed_frame [of "mem s" ?sp ?vs] unfolding n rev_rev_ident by (auto simp del: of_nat_Suc)
  have "ram_readable m ?v" "ram_word m ?v = ram_word (mem s) ?v"
    using assms m(2,4) by (simp_all add: stack_room_def ram.same_shape_def del: of_nat_Suc)
  then obtain m' where m': "ldl_phys ?v m = Inr (ram_word (mem s) ?v, m')" "ram.same_shape m m'" "ram_word m' = ram_word m"
    using ram.ld_law unfolding ram.same_shape_def by metis
  show ?thesis
  proof (rule that)
    show "enter_exception xpsr lr s = Inr (s\<lparr>core := (core s)\<lparr>cpu := (set_reg 15 (ram_word (mem s) (vector (env s)) AND 0xfffffffe)
       (enter_cpu lr (set_reg 13 (aligned_sp (env s) - 32) (env s))))\<lparr>thumb := ram_word (mem s) (vector (env s)) AND 1\<rparr>\<rparr>, mem := m'\<rparr>)"
      unfolding enter_eq using m(1) m'(1) by simp
    show "ram.same_shape (mem s) m'" using m(2) m'(2) by (simp add: ram.same_shape_def)
    show "ram.frame_at m' (aligned_sp (env s) - 32) (stacked xpsr (env s))"
      using m(3) m'(2,3) by (simp add: ram.same_shape_def ram.frame_at_def)
  qed
qed

section \<open>Leaving an exception\<close>




section \<open>Back where the exception was taken\<close>




lemma xpsr_write_keeps [simp]:
  "regs (xpsr_write e v m) = regs e" "current_sp (xpsr_write e v m) = current_sp e" "other_sp (xpsr_write e v m) = other_sp e"
  by (simp_all add: xpsr_write_def write_flags_def Let_def)

lemma set_reg_keeps [simp]:
  "current_sp (set_reg i v e) = current_sp e" "other_sp (set_reg i v e) = other_sp e" "xpsr_read (set_reg i v e) = xpsr_read e"
  by (simp_all add: set_reg_def xpsr_read_def)





text \<open>The exception \<open>e\<close> is signalled to a processor that can take it.\<close>

definition takes :: "'w v7m \<Rightarrow> nat \<Rightarrow> bool" where
  "takes s e \<longleftrightarrow> exception_index (env s) = EXCP_IRQ \<and> machine_ok (core s) \<and> 0 < e \<and> e < 80 \<and>
     current_pending (the_gic (nvic (core s))) = int (gic_number e) \<and>
     GIC_GET_PRIORITY (the_gic (nvic (core s))) (gic_number e) < running_priority (the_gic (nvic (core s))) \<and>
     stack_room (mem s) ((env s)\<lparr>v7m_exception := int e\<rparr>)"

definition vector_word :: "'w v7m \<Rightarrow> nat \<Rightarrow> u32" where
  "vector_word s e = ram_word (mem s) (vecbase (env s) + word_of_nat e * 4)"

lemma taken:
  assumes "takes s e" "stack_ok (the_gic (nvic (core s))) xs"
  obtains t r e1 where "do_interrupt_v7m n semi s = Inr t" "machine_ok (core t)" "stack_ok (the_gic (nvic (core t))) (gic_number e # xs)"
    "e1 = (env s)\<lparr>interrupt_request := r, v7m_exception := int e\<rparr>"
    "env t = (set_reg 15 (vector_word s e AND 0xfffffffe)
       (enter_cpu (exc_return (env s)) (set_reg 13 (aligned_sp e1 - 32) e1)))\<lparr>thumb := vector_word s e AND 1\<rparr>"
    "ram.frame_at (mem t) (aligned_sp e1 - 32) (stacked (xpsr_read (env s)) e1)"
proof -
  have a: "machine_ok (core s)" "e < 80" "current_pending (the_gic (nvic (core s))) = int (gic_number e)"
    "GIC_GET_PRIORITY (the_gic (nvic (core s))) (gic_number e) < running_priority (the_gic (nvic (core s)))"
    using assms(1) by (simp_all add: takes_def)
  obtain m1 where m1: "armv7m_nvic_acknowledge_irq (core s) = Inr (int e, m1)" "machine_ok m1"
    "stack_ok (the_gic (nvic m1)) (gic_number e # xs)" "line_only (env s) (cpu m1)"
    by (rule acknowledge_delivers [OF a(1) assms(2) a(2-4)])
  then obtain r where r: "cpu m1 = (env s)\<lparr>interrupt_request := r\<rparr>" by (auto simp: line_only_def)
  define e1 where "e1 = (env s)\<lparr>interrupt_request := r, v7m_exception := int e\<rparr>"
  define s1 where "s1 = upd_cpu (\<lambda>c. c\<lparr>v7m_exception := int e\<rparr>) (s\<lparr>core := m1\<rparr>)"
  have s1: "env s1 = e1" "mem s1 = mem s" "core s1 = m1\<lparr>cpu := e1\<rparr>" by (simp_all add: s1_def e1_def r)
  have "aligned_sp e1 = aligned_sp ((env s)\<lparr>v7m_exception := int e\<rparr>)" "vector e1 = vector ((env s)\<lparr>v7m_exception := int e\<rparr>)"
    by (simp_all add: aligned_sp_def vector_def e1_def)
  then have "stack_room (mem s1) (env s1)" using assms(1) unfolding s1 takes_def stack_room_def by simp
  moreover have w: "ram_word (mem s1) (vector (env s1)) = vector_word s e" unfolding s1 by (simp add: vector_def e1_def vector_word_def)
  ultimately obtain m where m: "enter_exception (xpsr_read (env s)) (exc_return (env s)) s1 =
      Inr (s1\<lparr>core := (core s1)\<lparr>cpu := (set_reg 15 (vector_word s e AND 0xfffffffe)
       (enter_cpu (exc_return (env s)) (set_reg 13 (aligned_sp e1 - 32) e1)))\<lparr>thumb := vector_word s e AND 1\<rparr>\<rparr>, mem := m\<rparr>)"
    "ram.frame_at m (aligned_sp e1 - 32) (stacked (xpsr_read (env s)) e1)"
    using entered [of s1 "xpsr_read (env s)" "exc_return (env s)"] unfolding w s1(1) by metis
  define c where "c = (set_reg 15 (vector_word s e AND 0xfffffffe)
       (enter_cpu (exc_return (env s)) (set_reg 13 (aligned_sp e1 - 32) e1)))\<lparr>thumb := vector_word s e AND 1\<rparr>"
  have "interrupt_request c = interrupt_request (cpu m1)"
    by (simp add: c_def enter_cpu_def set_reg_def switch_v7m_sp_def e1_def r)
  then have ok: "machine_ok (m1\<lparr>cpu := c\<rparr>)" using m1(2) by (simp add: machine_ok_def line_settled_def)
  have "do_interrupt_v7m n semi s = enter_exception (xpsr_read (env s)) (exc_return (env s)) s1"
    using assms(1) m1(1) by (simp add: do_interrupt_v7m_def takes_def EXCP_UDEF_def EXCP_SWI_def EXCP_PREFETCH_ABORT_def
        EXCP_DATA_ABORT_def EXCP_BKPT_def EXCP_IRQ_def s1_def Let_def)
  then have "do_interrupt_v7m n semi s = Inr (s1\<lparr>core := m1\<lparr>cpu := c\<rparr>, mem := m\<rparr>)"
    using m(1) by (simp add: s1(3) c_def)
  then show ?thesis
    by (rule that) (use ok m1(3) m(2) in \<open>simp_all add: e1_def c_def\<close>)
qed


section \<open>Witness\<close>






section \<open>The IT state of a handler\<close>

text \<open>
  The IT bits that are cleared on entry are those of \<open>uncached_cpsr\<close>, which never holds them; the
  state of an IT block, \<open>condexec_bits\<close>, is left as it was, so that the handler starts inside the
  IT block of the code it interrupts.
\<close>

lemma handler_keeps_it_state:
  assumes "takes s e" "stack_ok (the_gic (nvic (core s))) xs"
  shows "\<exists>t. do_interrupt_v7m n semi s = Inr t \<and> condexec_bits (env t) = condexec_bits (env s)"
proof -
  obtain t r e1 where t: "do_interrupt_v7m n semi s = Inr t" "e1 = (env s)\<lparr>interrupt_request := r, v7m_exception := int e\<rparr>"
    "env t = (set_reg 15 (vector_word s e AND 0xfffffffe)
       (enter_cpu (exc_return (env s)) (set_reg 13 (aligned_sp e1 - 32) e1)))\<lparr>thumb := vector_word s e AND 1\<rparr>"
    by (rule taken [OF assms, of n semi])
  then show ?thesis by (simp add: enter_cpu_def switch_v7m_sp_def set_reg_def)
qed

end
