(* ===== verification/Bitband.thy ===== *)
theory Bitband
  imports Phys_Mem
begin

text \<open>
  The bit-band memory of ARMv7-M boards (\<open>hw/armv7m.c\<close>): two regions of 32 megabytes, each word
  of which stands for one bit of memory. Every access reads the byte, halfword or word that has
  the bit and, for a write, stores it with the bit changed.
\<close>

section \<open>Accesses\<close>

definition bitband_addr :: "u32 \<Rightarrow> u32 \<Rightarrow> u32" where
  "bitband_addr base addr = base OR drop_bit 5 (addr AND 0x1ffffff)"

definition bit_of :: "u32 \<Rightarrow> u32 \<Rightarrow> nat" where
  "bit_of offset m = unat (drop_bit 2 offset AND m)"

definition bitband_readb :: "u32 \<Rightarrow> phys_addr \<Rightarrow> 'w phys_mem \<Rightarrow> (u32 \<times> 'w phys_mem) res" where
  "bitband_readb base offset s =
     bindE (cpu_physical_memory_read (bitband_addr base offset) 1 s) (\<lambda>(bs, s).
     let v = ucast (from_le bs) :: u8
     in Inr (if v AND push_bit (bit_of offset 7) 1 \<noteq> 0 then 1 else 0, s))"

definition bitband_writeb :: "u32 \<Rightarrow> phys_addr \<Rightarrow> u32 \<Rightarrow> 'w phys_mem \<Rightarrow> 'w phys_mem res" where
  "bitband_writeb base offset val s =
     (let addr = bitband_addr base offset; msk = push_bit (bit_of offset 7) 1 :: u8
      in bindE (cpu_physical_memory_read addr 1 s) (\<lambda>(bs, s).
         let v = ucast (from_le bs) :: u8;
             v = (if val AND 1 \<noteq> 0 then v OR msk else v AND NOT msk)
         in cpu_physical_memory_write addr (to_le 1 (ucast v)) s))"

definition bitband_readw :: "u32 \<Rightarrow> phys_addr \<Rightarrow> 'w phys_mem \<Rightarrow> (u32 \<times> 'w phys_mem) res" where
  "bitband_readw base offset s =
     (let addr = bitband_addr base offset AND NOT 1; msk = push_bit (bit_of offset 15) 1 :: u16
      in bindE (cpu_physical_memory_read addr 2 s) (\<lambda>(bs, s).
         let v = ucast (from_le bs) :: u16
         in Inr (if v AND msk \<noteq> 0 then 1 else 0, s)))"

definition bitband_writew :: "u32 \<Rightarrow> phys_addr \<Rightarrow> u32 \<Rightarrow> 'w phys_mem \<Rightarrow> 'w phys_mem res" where
  "bitband_writew base offset val s =
     (let addr = bitband_addr base offset AND NOT 1; msk = push_bit (bit_of offset 15) 1 :: u16
      in bindE (cpu_physical_memory_read addr 2 s) (\<lambda>(bs, s).
         let v = ucast (from_le bs) :: u16;
             v = (if val AND 1 \<noteq> 0 then v OR msk else v AND NOT msk)
         in cpu_physical_memory_write addr (to_le 2 (ucast v)) s))"

definition bitband_readl :: "u32 \<Rightarrow> phys_addr \<Rightarrow> 'w phys_mem \<Rightarrow> (u32 \<times> 'w phys_mem) res" where
  "bitband_readl base offset s =
     (let addr = bitband_addr base offset AND NOT 3; msk = push_bit (bit_of offset 31) 1 :: u32
      in bindE (cpu_physical_memory_read addr 4 s) (\<lambda>(bs, s).
         let v = ucast (from_le bs) :: u32
         in Inr (if v AND msk \<noteq> 0 then 1 else 0, s)))"

definition bitband_writel :: "u32 \<Rightarrow> phys_addr \<Rightarrow> u32 \<Rightarrow> 'w phys_mem \<Rightarrow> 'w phys_mem res" where
  "bitband_writel base offset val s =
     (let addr = bitband_addr base offset AND NOT 3; msk = push_bit (bit_of offset 31) 1 :: u32
      in bindE (cpu_physical_memory_read addr 4 s) (\<lambda>(bs, s).
         let v = ucast (from_le bs) :: u32;
             v = (if val AND 1 \<noteq> 0 then v OR msk else v AND NOT msk)
         in cpu_physical_memory_write addr (to_le 4 (ucast v)) s))"

text \<open>The tables \<open>bitband_ops.old_mmio\<close>, by the size of an access.\<close>

definition bitband_read :: "nat \<Rightarrow> u32 \<Rightarrow> phys_addr \<Rightarrow> 'w phys_mem \<Rightarrow> (u32 \<times> 'w phys_mem) res" where
  "bitband_read k = [bitband_readb, bitband_readw, bitband_readl] ! k"

definition bitband_write :: "nat \<Rightarrow> u32 \<Rightarrow> phys_addr \<Rightarrow> u32 \<Rightarrow> 'w phys_mem \<Rightarrow> 'w phys_mem res" where
  "bitband_write k = [bitband_writeb, bitband_writew, bitband_writel] ! k"

section \<open>One scheme for the three sizes\<close>

definition band_addr :: "nat \<Rightarrow> u32 \<Rightarrow> phys_addr \<Rightarrow> phys_addr" where
  "band_addr k base offset = bitband_addr base offset AND NOT (mask k)"

definition band_bit :: "nat \<Rightarrow> phys_addr \<Rightarrow> nat" where
  "band_bit k offset = unat offset div 4 mod (8 * 2 ^ k)"

lemma bit_of_eq: "bit_of offset (mask j) = unat offset div 4 mod 2 ^ j"
  unfolding bit_of_def take_bit_eq_mask [symmetric] unsigned_take_bit_eq
  by (simp add: take_bit_eq_mod drop_bit_eq_div unat_div_distrib)

lemma bits_of: "bit_of offset 7 = band_bit 0 offset" "bit_of offset 15 = band_bit 1 offset" "bit_of offset 31 = band_bit 2 offset"
  using bit_of_eq [of offset 3] bit_of_eq [of offset 4] bit_of_eq [of offset 5] by (simp_all add: band_bit_def mask_eq_exp_minus_1)

lemma band_bit_less: "band_bit k offset < 8 * 2 ^ k"
  by (simp add: band_bit_def)

definition change_bit :: "bool \<Rightarrow> nat \<Rightarrow> 'a::len word \<Rightarrow> 'a word" where
  "change_bit c m v = (if c then set_bit m v else unset_bit m v)"

lemma bit_change_bit: "bit (change_bit c m v) j = (if j = m \<and> j < LENGTH('a) then c else bit v j)" for v :: "'a::len word"
  by (auto simp: change_bit_def bit_simps dest: bit_imp_le_length)

lemma to_le_change:
  assumes "length bs = n" "n \<le> 8" "m < 8 * n"
  shows "to_le n (change_bit c m (from_le bs)) = bs[m div 8 := change_bit c (m mod 8) (bs ! (m div 8))]"
proof (rule nth_equalityI)
  show "to_le n (change_bit c m (from_le bs)) ! i = bs[m div 8 := change_bit c (m mod 8) (bs ! (m div 8))] ! i"
    if "i < length (to_le n (change_bit c m (from_le bs)))" for i
  proof (rule bit_word_eqI)
    fix j
    assume "j < LENGTH(8)"
    then have j: "j < 8" "(8 * i + j) div 8 = i" "(8 * i + j) mod 8 = j" "8 * i + j = m \<longleftrightarrow> m div 8 = i \<and> m mod 8 = j" by auto
    have i: "i < n" "8 * i + j < 64" using that assms(2) j(1) by simp_all
    show "bit (to_le n (change_bit c m (from_le bs)) ! i) j = bit (bs[m div 8 := change_bit c (m mod 8) (bs ! (m div 8))] ! i) j"
      using i j assms by (auto simp: nth_to_le bit_simps bit_change_bit bit_from_le nth_list_update)
  qed
qed (simp add: assms)

lemma size_cases:
  assumes "k < (3 :: nat)"
  obtains "k = 0" | "k = 1" | "k = 2"
  using assms by linarith

lemma bitband_read_eq:
  assumes "k < 3"
  shows "bitband_read k base offset s =
     bindE (cpu_physical_memory_read (band_addr k base offset) (2 ^ k) s) (\<lambda>(bs, s). Inr (of_bool (bit (from_le bs) (band_bit k offset)), s))"
  using assms
proof (cases rule: size_cases)
  case 1
  then show ?thesis using band_bit_less [of 0 offset]
    by (auto simp: bitband_read_def bitband_readb_def band_addr_def bits_of Let_def and_2_power_eq_0_iff bit_simps intro!: bindE_ext)
next
  case 2
  then show ?thesis using band_bit_less [of 1 offset]
    by (auto simp: bitband_read_def bitband_readw_def band_addr_def bits_of Let_def and_2_power_eq_0_iff bit_simps intro!: bindE_ext)
next
  case 3
  then show ?thesis using band_bit_less [of 2 offset]
    by (auto simp: bitband_read_def bitband_readl_def band_addr_def bits_of Let_def and_2_power_eq_0_iff bit_simps mask_eq_exp_minus_1
        intro!: bindE_ext)
qed

lemma changed_word:
  fixes x :: u64 and val :: u32
  assumes "m < 8 * n" "LENGTH('a::len) = 8 * n"
  shows "to_le n (ucast (if val AND 1 \<noteq> 0 then (ucast x :: 'a word) OR 2 ^ m else ucast x AND NOT (2 ^ m))) =
    to_le n (change_bit (bit val 0) m x)"
proof (rule to_le_cong)
  fix j
  assume "j < 8 * n"
  then show "bit (ucast (if val AND 1 \<noteq> 0 then (ucast x :: 'a word) OR 2 ^ m else ucast x AND NOT (2 ^ m)) :: u64) j =
      bit (change_bit (bit val 0) m x) j"
    using assms and_2_power_eq_0_iff [of val 0]
    by (auto simp: bit_change_bit bit_simps bit_2_power dest: bit_imp_le_length)
qed

lemma bitband_write_eq:
  assumes "k < 3"
  shows "bitband_write k base offset val s =
     bindE (cpu_physical_memory_read (band_addr k base offset) (2 ^ k) s) (\<lambda>(bs, s).
       cpu_physical_memory_write (band_addr k base offset) (to_le (2 ^ k) (change_bit (bit val 0) (band_bit k offset) (from_le bs))) s)"
  using assms
proof (cases rule: size_cases)
  case 1
  note c = changed_word [of "band_bit 0 offset" 1 val, where 'a = 8]
  show ?thesis using 1 band_bit_less [of 0 offset]
    by (simp add: c bitband_write_def bitband_writeb_def band_addr_def bits_of Let_def del: to_le.simps One_nat_def)
next
  case 2
  note c = changed_word [of "band_bit 1 offset" 2 val, where 'a = 16]
  show ?thesis using 2 band_bit_less [of 1 offset]
    by (simp add: c bitband_write_def bitband_writew_def band_addr_def bits_of Let_def mask_eq_exp_minus_1 del: One_nat_def)
next
  case 3
  note c = changed_word [of "band_bit 2 offset" 4 val, where 'a = 32]
  show ?thesis using 3 band_bit_less [of 2 offset]
    by (simp add: c bitband_write_def bitband_writel_def band_addr_def bits_of Let_def mask_eq_exp_minus_1)
qed

section \<open>Where the bit is\<close>

text \<open>The number of the bit that an offset names, counted from the start of the memory.\<close>

definition band_index :: "phys_addr \<Rightarrow> nat" where
  "band_index offset = unat offset mod 0x2000000 div 4"

lemma band_mod: "band_bit k offset mod 8 = unat offset div 4 mod 8" "band_bit k offset div 8 = unat offset div 32 mod 2 ^ k"
proof -
  have "band_bit k offset = 8 * (unat offset div 4 div 8 mod 2 ^ k) + unat offset div 4 mod 8"
    unfolding band_bit_def by (rule mod_mult2_eq)
  then show "band_bit k offset mod 8 = unat offset div 4 mod 8" "band_bit k offset div 8 = unat offset div 32 mod 2 ^ k"
    by (simp_all add: div_mult2_eq [symmetric])
qed

lemma index_mod: "band_index offset mod 8 = unat offset div 4 mod 8" "band_index offset div 8 = unat (drop_bit 5 (offset AND 0x1ffffff))"
proof -
  have "unat offset mod (4 * 0x800000) = 4 * (unat offset div 4 mod 0x800000) + unat offset mod 4" by (rule mod_mult2_eq)
  then have i: "band_index offset = unat offset div 4 mod 0x800000" by (simp add: band_index_def)
  then show "band_index offset mod 8 = unat offset div 4 mod 8" by (simp add: mod_mod_cancel)
  have "offset AND 0x1ffffff = take_bit 25 offset" by (simp add: take_bit_eq_mask mask_eq_exp_minus_1)
  then have "unat (offset AND 0x1ffffff) = take_bit 25 (unat offset)" by (simp only: unsigned_take_bit_eq)
  then have "unat (offset AND 0x1ffffff) = unat offset mod 0x2000000" by (simp add: take_bit_eq_mod)
  then show "band_index offset div 8 = unat (drop_bit 5 (offset AND 0x1ffffff))"
    by (simp add: band_index_def drop_bit_eq_div unat_div_distrib div_mult2_eq [symmetric])
qed

lemma low25: "offset AND 0x1ffffff = take_bit 25 (offset :: u32)"
  by (simp add: take_bit_eq_mask mask_eq_exp_minus_1)

lemma band_byte:
  assumes "base AND 0xfffff = 0"
  shows "bitband_addr base offset = base + word_of_nat (band_index offset div 8)"
proof -
  have b: "\<not> bit base n" if "n < 20" for n
  proof -
    have "\<not> bit (base AND mask 20) n" using assms by (simp add: mask_eq_exp_minus_1)
    then show ?thesis using that by (simp add: bit_simps)
  qed
  have "\<not> bit (drop_bit 5 (offset AND 0x1ffffff)) n" if "20 \<le> n" for n
    using that unfolding low25 by (auto simp: bit_drop_bit_eq bit_take_bit_iff)
  then have "base OR drop_bit 5 (offset AND 0x1ffffff) = base + drop_bit 5 (offset AND 0x1ffffff)"
    using b by (intro disjunctive_add [symmetric]) (metis not_le)
  then show ?thesis by (simp add: bitband_addr_def index_mod(2))
qed

lemma and_not_mask_add: "(a AND NOT (mask k)) + (a AND mask k) = (a :: 'a::len word)"
proof -
  have "(a AND NOT (mask k)) + (a AND mask k) = (a AND NOT (mask k)) OR (a AND mask k)" by (rule disjunctive_add) (auto simp: bit_simps)
  also have "\<dots> = a" by (rule bit_word_eqI) (auto simp: bit_simps)
  finally show ?thesis .
qed

lemma word_nat_cast: "word_of_nat (unat x) = x"
  by simp

lemma band_split:
  assumes "base AND 0xfffff = 0" "k < 3"
  shows "bitband_addr base offset = band_addr k base offset + word_of_nat (band_bit k offset div 8)"
    "unat (band_addr k base offset) mod 2 ^ k = 0"
proof -
  let ?A = "bitband_addr base offset"
  have "take_bit k (take_bit 20 base) = 0" using assms(1) by (simp add: take_bit_eq_mask mask_eq_exp_minus_1)
  then have b: "take_bit k base = 0" using assms(2) by (simp add: min_def split: if_splits)
  have "take_bit k (drop_bit 5 (offset AND 0x1ffffff)) = take_bit k (drop_bit 5 offset)"
    using assms(2) unfolding low25 by (intro bit_word_eqI) (auto simp: bit_drop_bit_eq bit_take_bit_iff)
  then have "?A AND mask k = take_bit k (drop_bit 5 offset)"
    unfolding take_bit_eq_mask [symmetric] bitband_addr_def by (simp add: b)
  moreover have "unat (take_bit k (drop_bit 5 offset)) = unat offset div 32 mod 2 ^ k"
    unfolding unsigned_take_bit_eq by (simp add: take_bit_eq_mod drop_bit_eq_div unat_div_distrib)
  ultimately have "?A AND mask k = word_of_nat (band_bit k offset div 8)" unfolding band_mod(2) by (metis word_nat_cast)
  then show "?A = band_addr k base offset + word_of_nat (band_bit k offset div 8)"
    using and_not_mask_add [of ?A k] by (simp add: band_addr_def)
  have "take_bit k (?A AND NOT (mask k)) = 0" by (rule bit_word_eqI) (auto simp: bit_simps)
  then have "take_bit k (unat (band_addr k base offset)) = 0" unfolding band_addr_def unsigned_take_bit_eq [symmetric] by simp
  then show "unat (band_addr k base offset) mod 2 ^ k = 0" by (simp add: take_bit_eq_mod)
qed

lemma band_page:
  assumes "base AND 0xfffff = 0" "k < 3"
  shows "unat (band_addr k base offset) mod 1024 + 2 ^ k \<le> 1024"
proof -
  let ?a = "unat (band_addr k base offset)"
  have k: "(2 :: nat) ^ k dvd 1024" using assms(2) by (cases rule: size_cases) simp_all
  then have "2 ^ k dvd ?a mod 1024" using band_split(2) [OF assms] by (simp add: dvd_eq_mod_eq_0 mod_mod_cancel)
  then obtain c where c: "?a mod 1024 = 2 ^ k * c" by blast
  obtain d :: nat where d: "1024 = 2 ^ k * d" using k by blast
  have "2 ^ k * c < 2 ^ k * d" unfolding c [symmetric] d [symmetric] by simp
  then have "2 ^ k * Suc c \<le> 2 ^ k * d" by (intro mult_le_mono) simp_all
  moreover have "?a mod 1024 + 2 ^ k = 2 ^ k * Suc c" using c by simp
  ultimately show ?thesis using d by simp
qed

section \<open>One bit\<close>

lemma upds_nth:
  assumes "length vs = length rs" "distinct rs" "i < length rs"
  shows "(f(rs [\<mapsto>] vs)) (rs ! i) = Some (vs ! i)"
  using assms
proof (induction vs rs arbitrary: f i rule: list_induct2)
  case (Cons v vs r rs)
  then show ?case by (cases i) (simp_all add: map_upds_apply_nontin del: map_upds_twist)
qed simp

lemma upds_one:
  assumes "distinct rs" "length bs = length rs" "\<And>i. i < length rs \<Longrightarrow> f (rs ! i) = Some (bs ! i)" "j < length rs"
  shows "f(rs [\<mapsto>] bs[j := b]) = f(rs ! j \<mapsto> b)"
proof
  fix r
  show "(f(rs [\<mapsto>] bs[j := b])) r = (f(rs ! j \<mapsto> b)) r"
  proof (cases "r \<in> set rs")
    case True
    then obtain i where i: "i < length rs" "r = rs ! i" by (auto simp: in_set_conv_nth)
    have "(f(rs [\<mapsto>] bs[j := b])) (rs ! i) = Some (bs[j := b] ! i)" using assms(1,2) i(1) by (intro upds_nth) simp_all
    then show ?thesis using assms i by (auto simp: nth_list_update nth_eq_iff_index_eq)
  next
    case False
    then show ?thesis using assms(4) by (auto simp: map_upds_apply_nontin)
  qed
qed

lemma backed_byte: "ram_ok s \<Longrightarrow> mem_backed s a \<Longrightarrow> ram_byte s (ram_addr_of a s) \<noteq> None"
  by (erule same_block) (auto simp: ram_byte_def)

text \<open>The bytes that an access to a bit reads, and the one of them that has the bit.\<close>

lemma band_bytes:
  fixes offset :: phys_addr
  assumes "base AND 0xfffff = 0" "k < 3"
  defines "j \<equiv> band_bit k offset div 8"
  shows "mem_backed s (bitband_addr base offset) \<Longrightarrow> i < 2 ^ k \<Longrightarrow> mem_backed s (band_addr k base offset + word_of_nat i)"
    "ram_backed s (bitband_addr base offset) \<Longrightarrow> i < 2 ^ k \<Longrightarrow> ram_backed s (band_addr k base offset + word_of_nat i)"
    "j < 2 ^ k" "ram_addrs s (band_addr k base offset) (2 ^ k) ! j = ram_addr_of (bitband_addr base offset) s"
    "distinct (ram_addrs s (band_addr k base offset) (2 ^ k))"
proof -
  have p: "unat (band_addr k base offset) mod 1024 + i < 1024" if "i < 2 ^ k" for i using band_page [OF assms(1,2), of offset] that by simp
  show j: "j < 2 ^ k" by (simp add: j_def band_mod)
  note a = band_split(1) [OF assms(1,2), of offset, folded j_def]
  show "i < 2 ^ k \<Longrightarrow> mem_backed s (band_addr k base offset + word_of_nat i)" if "mem_backed s (bitband_addr base offset)"
    using that same_page(4) [OF p [OF j], of s] same_page(4) [OF p [of i], of s] unfolding a by simp
  show "i < 2 ^ k \<Longrightarrow> ram_backed s (band_addr k base offset + word_of_nat i)" if "ram_backed s (bitband_addr base offset)"
    using that same_page(5) [OF p [OF j], of s] same_page(5) [OF p [of i], of s] unfolding a by simp
  show "ram_addrs s (band_addr k base offset) (2 ^ k) ! j = ram_addr_of (bitband_addr base offset) s"
    using j by (simp add: ram_addrs_def a)
  have "ram_addrs s (band_addr k base offset) (2 ^ k) = map (\<lambda>i. ram_addr_of (band_addr k base offset) s + word_of_nat i) [0..<2 ^ k]"
    using band_page [OF assms(1,2)] by (rule ram_addrs_page)
  note e = this
  from assms(2) show "distinct (ram_addrs s (band_addr k base offset) (2 ^ k))"
    unfolding e by (cases rule: size_cases) (simp_all add: upt_rec)
qed

lemma bitband_read_bit:
  assumes "ram_ok s" "base AND 0xfffff = 0" "k < 3" "mem_backed s (bitband_addr base offset)"
  shows "\<exists>t. bitband_read k base offset s =
      Inr (of_bool (bit (the (ram_byte s (ram_addr_of (bitband_addr base offset) s))) (unat offset div 4 mod 8)), t) \<and>
    ram_ok t \<and> same_frame s t \<and> ram_byte t = ram_byte s"
proof -
  let ?a = "band_addr k base offset" and ?rs = "ram_addrs s (band_addr k base offset) (2 ^ k)"
  note b = band_bytes(1,2,4,5) [OF assms(2,3), where s = s and offset = offset]
  note j = band_bytes(3) [OF assms(2,3), where offset = offset]
  obtain t where t: "cpu_physical_memory_read ?a (2 ^ k) s = Inr (map (\<lambda>r. the (ram_byte s r)) ?rs, t)" "ram_ok t" "same_frame s t"
    "ram_byte t = ram_byte s" using memory_read_reads [OF assms(1), of "2 ^ k" ?a] b(1) [OF assms(4)] by blast
  have "(2 :: nat) ^ k \<le> 8" using assms(3) by (cases rule: size_cases) simp_all
  then have "bit (from_le (map (\<lambda>r. the (ram_byte s r)) ?rs)) (band_bit k offset) \<longleftrightarrow>
      bit (the (ram_byte s (ram_addr_of (bitband_addr base offset) s))) (unat offset div 4 mod 8)"
    using j b(3) band_bit_less [of k offset] by (simp add: bit_from_le band_mod(1))
  then show ?thesis unfolding bitband_read_eq [OF assms(3)] using t by simp
qed

lemma bitband_write_bit:
  assumes "ram_ok s" "base AND 0xfffff = 0" "k < 3" "ram_backed s (bitband_addr base offset)"
  shows "\<exists>t. bitband_write k base offset val s = Inr t \<and> ram_ok t \<and> same_frame s t \<and>
    ram_byte t = (ram_byte s)(ram_addr_of (bitband_addr base offset) s \<mapsto>
      change_bit (bit val 0) (unat offset div 4 mod 8) (the (ram_byte s (ram_addr_of (bitband_addr base offset) s))))"
proof -
  let ?a = "band_addr k base offset" and ?rs = "ram_addrs s (band_addr k base offset) (2 ^ k)"
  let ?j = "band_bit k offset div 8" and ?bs = "map (\<lambda>r. the (ram_byte s r)) (ram_addrs s (band_addr k base offset) (2 ^ k))"
  have m: "mem_backed s (bitband_addr base offset)" using assms(4) by (simp add: ram_backed_def)
  note b = band_bytes(1,2,4,5) [OF assms(2,3), where s = s and offset = offset]
  note j = band_bytes(3) [OF assms(2,3), where offset = offset]
  obtain u where u: "cpu_physical_memory_read ?a (2 ^ k) s = Inr (?bs, u)" "ram_ok u" "same_frame s u" "ram_byte u = ram_byte s"
    using memory_read_reads [OF assms(1), of "2 ^ k" ?a] b(1) [OF m] by blast
  have k: "(2 :: nat) ^ k \<le> 8" using assms(3) by (cases rule: size_cases) simp_all
  define v where "v = change_bit (bit val 0) (band_bit k offset mod 8) (?bs ! ?j)"
  have w: "to_le (2 ^ k) (change_bit (bit val 0) (band_bit k offset) (from_le ?bs)) = ?bs[?j := v]"
    unfolding v_def using k band_bit_less [of k offset] by (intro to_le_change) simp_all
  have rs: "ram_addrs u ?a (2 ^ k) = ?rs" by (rule ram_addrs_cong [OF u(3)])
  have "\<forall>i<length (?bs[?j := v]). ram_backed u (?a + word_of_nat i)"
    using b(2) [OF assms(4)] backed_cong(2) [OF u(3)] by simp
  then obtain t where t: "cpu_physical_memory_write ?a (?bs[?j := v]) u = Inr t" "writes u ?rs (?bs[?j := v]) t"
    using memory_write_writes [OF u(2)] rs by fastforce
  have "ram_byte s (?rs ! i) = Some (?bs ! i)" if "i < length ?rs" for i
    using that b(1) [OF m] backed_byte [OF assms(1)] by (auto simp: ram_addrs_def)
  then have "(ram_byte s)(?rs [\<mapsto>] ?bs[?j := v]) = (ram_byte s)(?rs ! ?j \<mapsto> v)" using j b(4) by (intro upds_one) simp_all
  then have "ram_byte t = (ram_byte s)(ram_addr_of (bitband_addr base offset) s \<mapsto> v)" "ram_ok t" "same_frame u t"
    using t(2) u(4) b(3) by (simp_all add: writes_def)
  moreover have "v = change_bit (bit val 0) (unat offset div 4 mod 8) (the (ram_byte s (ram_addr_of (bitband_addr base offset) s)))"
    using j b(3) by (simp add: v_def band_mod(1))
  ultimately show ?thesis unfolding bitband_write_eq [OF assms(3)] using u(1,3) w t(1) same_frame_trans by (simp add: w) blast
qed

text \<open>
  C9: the words of the bit-band memory are the bits of the memory below it: an access of any size
  to the word of offset 4n (or inside it) reads bit n mod 8 of byte n div 8 as 0 or 1, and a
  write makes that bit the lowest bit of the written value and changes no other bit of memory.
\<close>

theorem bitband_names_bits:
  assumes "ram_ok s" "base AND 0xfffff = 0" "k < 3" "n = band_index offset"
  defines "r \<equiv> ram_addr_of (base + word_of_nat (n div 8)) s"
  shows "(mem_backed s (base + word_of_nat (n div 8)) \<longrightarrow>
      (\<exists>t. bitband_read k base offset s = Inr (of_bool (bit (the (ram_byte s r)) (n mod 8)), t) \<and> ram_byte t = ram_byte s)) \<and>
    (ram_backed s (base + word_of_nat (n div 8)) \<longrightarrow>
      (\<exists>t b. bitband_write k base offset val s = Inr t \<and> ram_ok t \<and> ram_byte t = (ram_byte s)(r \<mapsto> b) \<and>
        (\<forall>i<8. bit b i = (if i = n mod 8 then bit val 0 else bit (the (ram_byte s r)) i))))"
proof -
  have a: "bitband_addr base offset = base + word_of_nat (n div 8)" "unat offset div 4 mod 8 = n mod 8"
    using band_byte [OF assms(2)] index_mod(1) assms(4) by simp_all
  show ?thesis unfolding r_def
  proof (intro conjI impI)
    assume "mem_backed s (base + word_of_nat (n div 8))"
    then show "\<exists>t. bitband_read k base offset s =
        Inr (of_bool (bit (the (ram_byte s (ram_addr_of (base + word_of_nat (n div 8)) s))) (n mod 8)), t) \<and> ram_byte t = ram_byte s"
      using bitband_read_bit [OF assms(1-3), of offset] unfolding a by blast
  next
    assume "ram_backed s (base + word_of_nat (n div 8))"
    then obtain t where "bitband_write k base offset val s = Inr t" "ram_ok t" "ram_byte t = (ram_byte s)(ram_addr_of (base + word_of_nat (n div 8)) s
        \<mapsto> change_bit (bit val 0) (n mod 8) (the (ram_byte s (ram_addr_of (base + word_of_nat (n div 8)) s))))"
      using bitband_write_bit [OF assms(1-3), of offset val] unfolding a by blast
    then show "\<exists>t b. bitband_write k base offset val s = Inr t \<and> ram_ok t \<and> ram_byte t = (ram_byte s)(ram_addr_of (base + word_of_nat (n div 8)) s \<mapsto> b) \<and>
        (\<forall>i<8. bit b i = (if i = n mod 8 then bit val 0 else bit (the (ram_byte s (ram_addr_of (base + word_of_nat (n div 8)) s))) i))"
      by (intro exI conjI) (assumption | simp add: bit_change_bit)+
  qed
qed

text \<open>Bit 3 of the second byte of RAM.\<close>

lemma bitband_names_bits_witness:
  "\<exists>t b. bitband_write 2 0x20000000 (4 * 11) 1 two_pages = Inr t \<and> ram_byte t = (ram_byte two_pages)(0x401 \<mapsto> b) \<and> bit b 3"
proof -
  have n: "11 = band_index (4 * 11)" by (simp add: band_index_def)
  have d: "ram_backed two_pages (0x20000000 + word_of_nat (11 div 8))" "ram_addr_of (0x20000000 + word_of_nat (11 div 8)) two_pages = 0x401"
    using two_pages_at(2,3) [of "11 div 8"] by simp_all
  show ?thesis using bitband_names_bits [OF two_pages_ok _ _ n, where base = "0x20000000" and k = 2 and val = 1] d by (auto dest!: spec [of _ 3])
qed

end
