(* ===== verification/Memory_Access.thy ===== *)
theory Memory_Access
  imports Memory_Flat
begin

text \<open>
  Accesses to a memory-mapped region (\<open>memory.c\<close>): validity of an access, its splitting
  into accesses of the sizes the device implements, the thunks that the physical memory
  layer calls, and the port I/O variants. The device is a table of fallible functions on a
  device state \<open>'w\<close>, with \<open>None\<close> for a null pointer. Sizes are \<open>nat\<close>: they are 1, 2, 4 or 8.
  The bit search of \<open>bitops.h\<close> that selects an entry of the tables is included.
\<close>

section \<open>Bit search\<close>

definition ffs_step :: "nat \<Rightarrow> nat \<times> u64 \<Rightarrow> nat \<times> u64" where
  "ffs_step k = (\<lambda>(num, word). if word AND mask k = 0 then (num + k, drop_bit k word) else (num, word))"

definition bitops_ffsl :: "u64 \<Rightarrow> nat" where
  "bitops_ffsl word = fst (ffs_step 1 (ffs_step 2 (ffs_step 4 (ffs_step 8 (ffs_step 16 (ffs_step 32 (0, word)))))))"

section \<open>Devices\<close>

record 'w MemoryRegionPortio =
  pio_offset :: u32
  pio_len :: u32
  pio_size :: nat
  pio_read :: "('w \<Rightarrow> u32 \<Rightarrow> (u32 \<times> 'w) res) option"
  pio_write :: "('w \<Rightarrow> u32 \<Rightarrow> u32 \<Rightarrow> 'w res) option"

record 'w MemoryRegionOps =
  ops_read :: "('w \<Rightarrow> phys_addr \<Rightarrow> nat \<Rightarrow> (u64 \<times> 'w) res) option"
  ops_write :: "('w \<Rightarrow> phys_addr \<Rightarrow> u64 \<Rightarrow> nat \<Rightarrow> 'w res) option"
  valid_min_access_size :: nat
  valid_max_access_size :: nat
  valid_unaligned :: bool
  impl_min_access_size :: nat
  impl_max_access_size :: nat
  old_portio :: "'w MemoryRegionPortio list option"
  old_mmio_read :: "('w \<Rightarrow> phys_addr \<Rightarrow> (u32 \<times> 'w) res) list"
  old_mmio_write :: "('w \<Rightarrow> phys_addr \<Rightarrow> u32 \<Rightarrow> 'w res) list"

text \<open>A call through a pointer of the table.\<close>

definition via :: "string \<Rightarrow> 'f option \<Rightarrow> ('f \<Rightarrow> 'a res) \<Rightarrow> 'a res" where
  "via nm p f = (case p of None \<Rightarrow> Inl (out_of_bounds nm) | Some g \<Rightarrow> f g)"

definition memory_region_read_accessor ::
  "'w MemoryRegionOps \<Rightarrow> phys_addr \<Rightarrow> nat \<Rightarrow> nat \<Rightarrow> u64 \<Rightarrow> u64 \<times> 'w \<Rightarrow> (u64 \<times> 'w) res" where
  "memory_region_read_accessor ops addr sz shift msk = (\<lambda>(value, w).
     via ''mr->ops->read'' (ops_read ops) (\<lambda>rd.
     bindE (rd w addr sz) (\<lambda>(tmp, w). Inr (value OR push_bit shift (tmp AND msk), w))))"

definition memory_region_write_accessor ::
  "'w MemoryRegionOps \<Rightarrow> phys_addr \<Rightarrow> nat \<Rightarrow> nat \<Rightarrow> u64 \<Rightarrow> u64 \<times> 'w \<Rightarrow> (u64 \<times> 'w) res" where
  "memory_region_write_accessor ops addr sz shift msk = (\<lambda>(value, w).
     via ''mr->ops->write'' (ops_write ops) (\<lambda>wr.
     bindE (wr w addr (drop_bit shift value AND msk) sz) (\<lambda>w. Inr (value, w))))"

function access_loop ::
  "(phys_addr \<Rightarrow> nat \<Rightarrow> nat \<Rightarrow> u64 \<Rightarrow> 's \<Rightarrow> 's res) \<Rightarrow> phys_addr \<Rightarrow> nat \<Rightarrow> nat \<Rightarrow> nat \<Rightarrow> 's \<Rightarrow> 's res" where
  "access_loop access addr access_size sz i s =
     (if i < sz \<and> 0 < access_size
      then bindE (access (addr + of_nat i) access_size (i * 8) (drop_bit (64 - access_size * 8) (- 1)) s)
             (access_loop access addr access_size sz (i + access_size))
      else Inr s)"
  by pat_completeness auto

termination
  by (relation "measure (\<lambda>(access, addr, access_size, sz, i, s). sz - i)") auto

declare access_loop.simps [simp del]

definition adjusted_size :: "nat \<Rightarrow> nat \<Rightarrow> nat \<Rightarrow> nat" where
  "adjusted_size sz access_size_min access_size_max =
     (let access_size_min = (if access_size_min = 0 then 1 else access_size_min);
          access_size_max = (if access_size_max = 0 then 4 else access_size_max)
      in max (min sz access_size_max) access_size_min)"

definition access_with_adjusted_size ::
  "phys_addr \<Rightarrow> nat \<Rightarrow> nat \<Rightarrow> nat \<Rightarrow> (phys_addr \<Rightarrow> nat \<Rightarrow> nat \<Rightarrow> u64 \<Rightarrow> 's \<Rightarrow> 's res) \<Rightarrow> 's \<Rightarrow> 's res" where
  "access_with_adjusted_size addr sz access_size_min access_size_max access s =
     access_loop access addr (adjusted_size sz access_size_min access_size_max) sz 0 s"

definition memory_region_access_valid :: "'w MemoryRegionOps \<Rightarrow> phys_addr \<Rightarrow> nat \<Rightarrow> bool" where
  "memory_region_access_valid ops addr sz =
     (if \<not> valid_unaligned ops \<and> addr AND (of_nat sz - 1) \<noteq> 0 then False
      else if valid_max_access_size ops = 0 then True
      else if sz > valid_max_access_size ops \<or> sz < valid_min_access_size ops then False
      else True)"

definition nth_fn :: "string \<Rightarrow> 'f list \<Rightarrow> nat \<Rightarrow> ('f \<Rightarrow> 'a res) \<Rightarrow> 'a res" where
  "nth_fn nm fs i f = (if i < length fs then f (fs ! i) else Inl (out_of_bounds nm))"

definition memory_region_read_thunk_n ::
  "'w MemoryRegionOps \<Rightarrow> MemoryRegion \<Rightarrow> phys_addr \<Rightarrow> nat \<Rightarrow> 'w \<Rightarrow> (u32 \<times> 'w) res" where
  "memory_region_read_thunk_n ops mr addr sz w =
     (if \<not> memory_region_access_valid ops addr sz then Inr (- 1, w)
      else if ops_read ops = None
      then nth_fn ''mr->ops->old_mmio.read'' (old_mmio_read ops) (bitops_ffsl (of_nat sz)) (\<lambda>rd. rd w addr)
      else bindE (access_with_adjusted_size (addr + mr_offset mr) sz (impl_min_access_size ops)
                    (impl_max_access_size ops) (memory_region_read_accessor ops) (0, w))
             (\<lambda>(data, w). Inr (ucast data, w)))"

definition memory_region_write_thunk_n ::
  "'w MemoryRegionOps \<Rightarrow> MemoryRegion \<Rightarrow> phys_addr \<Rightarrow> nat \<Rightarrow> u64 \<Rightarrow> 'w \<Rightarrow> 'w res" where
  "memory_region_write_thunk_n ops mr addr sz data w =
     (if \<not> memory_region_access_valid ops addr sz then Inr w
      else if ops_write ops = None
      then nth_fn ''mr->ops->old_mmio.write'' (old_mmio_write ops) (bitops_ffsl (of_nat sz))
             (\<lambda>wr. wr w addr (ucast data))
      else bindE (access_with_adjusted_size (addr + mr_offset mr) sz (impl_min_access_size ops)
                    (impl_max_access_size ops) (memory_region_write_accessor ops) (data, w))
             (\<lambda>(data, w). Inr w))"

text \<open>The thunks the physical layer calls, for accesses of 1, 2 and 4 bytes.\<close>

definition memory_region_read_thunk ::
  "'w MemoryRegionOps \<Rightarrow> MemoryRegion \<Rightarrow> (phys_addr \<Rightarrow> 'w \<Rightarrow> (u32 \<times> 'w) res) list" where
  "memory_region_read_thunk ops mr =
     [\<lambda>addr. memory_region_read_thunk_n ops mr addr 1, \<lambda>addr. memory_region_read_thunk_n ops mr addr 2,
      \<lambda>addr. memory_region_read_thunk_n ops mr addr 4]"

definition memory_region_write_thunk ::
  "'w MemoryRegionOps \<Rightarrow> MemoryRegion \<Rightarrow> (phys_addr \<Rightarrow> u32 \<Rightarrow> 'w \<Rightarrow> 'w res) list" where
  "memory_region_write_thunk ops mr =
     [\<lambda>addr data. memory_region_write_thunk_n ops mr addr 1 (ucast data),
      \<lambda>addr data. memory_region_write_thunk_n ops mr addr 2 (ucast data),
      \<lambda>addr data. memory_region_write_thunk_n ops mr addr 4 (ucast data)]"

section \<open>Port I/O\<close>

text \<open>The list ends before the entry of size zero that terminates the table.\<close>

fun find_portio :: "'w MemoryRegionPortio list \<Rightarrow> u64 \<Rightarrow> nat \<Rightarrow> bool \<Rightarrow> 'w MemoryRegionPortio option" where
  "find_portio [] offset width wr = None"
| "find_portio (mrp # mrps) offset width wr =
     (if pio_size mrp = 0 then None
      else if ucast (pio_offset mrp) \<le> offset \<and> offset < ucast (pio_offset mrp + pio_len mrp) \<and>
              width = pio_size mrp \<and> (if wr then pio_write mrp \<noteq> None else pio_read mrp \<noteq> None)
      then Some mrp
      else find_portio mrps offset width wr)"

definition memory_region_iorange_read ::
  "'w MemoryRegionOps \<Rightarrow> MemoryRegion \<Rightarrow> u64 \<Rightarrow> nat \<Rightarrow> 'w \<Rightarrow> (u64 \<times> 'w) res" where
  "memory_region_iorange_read ops mr offset width w =
     (case old_portio ops of
        Some tbl \<Rightarrow>
          (case find_portio tbl offset width False of
             Some mrp \<Rightarrow> via ''mrp->read'' (pio_read mrp) (\<lambda>rd.
               bindE (rd w (ucast offset + mr_offset mr)) (\<lambda>(v, w). Inr (ucast v, w)))
           | None \<Rightarrow>
               if width = 2 then
                 (case find_portio tbl offset 1 False of
                    None \<Rightarrow> Inl (assert_failed ''mrp'')
                  | Some mrp \<Rightarrow> via ''mrp->read'' (pio_read mrp) (\<lambda>rd.
                      bindE (rd w (ucast offset + mr_offset mr)) (\<lambda>(v0, w).
                      bindE (rd w (ucast offset + mr_offset mr + 1)) (\<lambda>(v1, w).
                      Inr (ucast (v0 OR push_bit 8 v1), w)))))
               else Inr (push_bit (width * 8) 1 - 1, w))
      | None \<Rightarrow>
          access_with_adjusted_size (ucast offset + mr_offset mr) width (impl_min_access_size ops)
            (impl_max_access_size ops) (memory_region_read_accessor ops) (0, w))"

definition memory_region_iorange_write ::
  "'w MemoryRegionOps \<Rightarrow> MemoryRegion \<Rightarrow> u64 \<Rightarrow> nat \<Rightarrow> u64 \<Rightarrow> 'w \<Rightarrow> 'w res" where
  "memory_region_iorange_write ops mr offset width data w =
     (case old_portio ops of
        Some tbl \<Rightarrow>
          (case find_portio tbl offset width True of
             Some mrp \<Rightarrow> via ''mrp->write'' (pio_write mrp) (\<lambda>wr.
               wr w (ucast offset + mr_offset mr) (ucast data))
           | None \<Rightarrow>
               if width = 2 then
                 (case find_portio tbl offset 1 False of
                    None \<Rightarrow> Inl (assert_failed ''mrp'')
                  | Some mrp \<Rightarrow> via ''mrp->write'' (pio_write mrp) (\<lambda>wr.
                      bindE (wr w (ucast offset + mr_offset mr) (ucast (data AND 0xff)))
                        (\<lambda>w. wr w (ucast offset + mr_offset mr + 1) (ucast (drop_bit 8 data)))))
               else Inr w)
      | None \<Rightarrow>
          bindE (access_with_adjusted_size (ucast offset + mr_offset mr) width (impl_min_access_size ops)
                   (impl_max_access_size ops) (memory_region_write_accessor ops) (data, w))
            (\<lambda>(data, w). Inr w))"

section \<open>The lowest set bit\<close>

definition ffs_inv :: "u64 \<Rightarrow> nat \<Rightarrow> nat \<times> u64 \<Rightarrow> bool" where
  "ffs_inv w k = (\<lambda>(num, word). word = drop_bit num w \<and> (\<forall>j<num. \<not> bit w j) \<and> word AND mask k \<noteq> 0)"

lemma and_mask_eq_0_iff: "(word :: u64) AND mask k = 0 \<longleftrightarrow> (\<forall>j<k. \<not> bit word j)"
  using bit_imp_le_length [of word] by (auto simp: bit_eq_iff bit_simps)

lemma ffs_step_inv:
  assumes "ffs_inv w (2 * k) s"
  shows "ffs_inv w k (ffs_step k s)"
proof -
  obtain num word where s: "s = (num, word)" by (cases s)
  have w: "word = drop_bit num w" "\<forall>j<num. \<not> bit w j" and nz: "\<exists>j<2 * k. bit word j"
    using assms by (auto simp: s ffs_inv_def and_mask_eq_0_iff)
  show ?thesis
  proof (cases "word AND mask k = 0")
    case True
    then have low: "\<forall>j<k. \<not> bit w (num + j)" using w(1) by (auto simp: and_mask_eq_0_iff bit_simps)
    have "\<not> bit w j" if "j < num + k" for j
    proof (cases "j < num")
      case False
      then show ?thesis using low that by (metis add_diff_inverse_nat add_less_cancel_left)
    qed (use w(2) in simp)
    moreover obtain j where "j < 2 * k" "bit word j" "k \<le> j"
      using nz True by (auto simp: and_mask_eq_0_iff not_le [symmetric])
    then have "\<exists>i<k. bit (drop_bit k word) i"
      by (intro exI [of _ "j - k"]) (auto simp: bit_simps)
    ultimately show ?thesis
      using True w(1) by (auto simp: s ffs_inv_def ffs_step_def and_mask_eq_0_iff drop_bit_drop_bit add.commute)
  next
    case False
    then show ?thesis using w by (simp add: s ffs_inv_def ffs_step_def)
  qed
qed

section \<open>Bytes of a value\<close>

text \<open>The \<open>n\<close> bytes of a byte memory from an address on, in little-endian order, and their storing.\<close>

type_synonym bytes = "phys_addr \<Rightarrow> u8"

fun le_bytes :: "bytes \<Rightarrow> phys_addr \<Rightarrow> nat \<Rightarrow> u64" where
  "le_bytes mem a 0 = 0"
| "le_bytes mem a (Suc n) = ucast (mem a) OR push_bit 8 (le_bytes mem (a + 1) n)"

fun store_le :: "bytes \<Rightarrow> phys_addr \<Rightarrow> nat \<Rightarrow> u64 \<Rightarrow> bytes" where
  "store_le mem a 0 v = mem"
| "store_le mem a (Suc n) v = store_le (mem(a := ucast v)) (a + 1) n (drop_bit 8 v)"

lemma le_bytes_add:
  "le_bytes mem a (m + n) = le_bytes mem a m OR push_bit (8 * m) (le_bytes mem (a + of_nat m) n)"
  by (induction m arbitrary: a) (simp_all add: push_bit_or or.assoc add.assoc add.commute [of 8])

lemma store_le_add:
  "store_le mem a (m + n) v = store_le (store_le mem a m v) (a + of_nat m) n (drop_bit (8 * m) v)"
  by (induction m arbitrary: mem a v) (simp_all add: ac_simps drop_bit_drop_bit)

lemma bit_le_bytes: "bit (le_bytes mem a n) j \<longleftrightarrow> j < 64 \<and> j < 8 * n \<and> bit (mem (a + of_nat (j div 8))) (j mod 8)"
proof (induction n arbitrary: a j)
  case (Suc n)
  show ?case
  proof (cases "j < 8")
    case False
    then obtain k where k: "j = 8 + k" using le_Suc_ex not_le by blast
    then have "j div 8 = Suc (k div 8)" "k mod 8 = j mod 8" by simp_all
    then have "a + 1 + of_nat (k div 8) = a + of_nat (j div 8)" "k mod 8 = j mod 8" by (simp_all add: add.assoc)
    then show ?thesis using k Suc.IH [of "a + 1" k] by (auto simp: bit_simps add.assoc dest: bit_imp_le_length)
  qed (auto simp: bit_simps Suc.IH dest: bit_imp_le_length)
qed simp

lemma le_bytes_mask:
  assumes "n \<le> 8"
  shows "push_bit j (le_bytes mem a n) AND push_bit j (mask (n * 8)) = push_bit j (le_bytes mem a n)"
  by (rule bit_eqI) (use assms in \<open>auto simp: bit_simps bit_le_bytes\<close>)

lemma store_le_at:
  assumes "n < 2 ^ 32"
  shows "store_le mem a n v x = (if unat (x - a) < n then ucast (drop_bit (8 * unat (x - a)) v) else mem x)"
  using assms
proof (induction n arbitrary: mem a v)
  case (Suc n)
  show ?case
  proof (cases "x = a")
    case True
    have "unat (- 1 :: phys_addr) = 2 ^ 32 - 1" by (simp add: unsigned_minus_1_eq_mask mask_eq_exp_minus_1)
    then show ?thesis using True Suc by simp
  next
    case False
    then have "unat (x - a) \<noteq> 0" by (simp add: unat_eq_zero)
    then obtain k where k: "unat (x - a) = Suc k" using not0_implies_Suc by blast
    have "unat (x - a - 1) = unat (x - a) - 1" using False by (intro unat_minus_one) simp
    then have "unat (x - (a + 1)) = k" using k by (simp add: diff_diff_eq)
    then show ?thesis using False k Suc.prems by (simp add: Suc.IH drop_bit_drop_bit ac_simps)
  qed
qed simp

lemma store_le_low:
  assumes "take_bit (8 * n) u = take_bit (8 * n) v"
  shows "store_le mem a n u = store_le mem a n v"
  using assms
proof (induction n arbitrary: mem a u v)
  case (Suc n)
  have b: "bit u j = bit v j" if "j < 8 * Suc n" for j
    using Suc.prems that by (metis bit_take_bit_iff)
  then have "ucast u = (ucast v :: u8)"
    by (intro bit_eqI) (simp add: bit_simps b)
  moreover have "take_bit (8 * n) (drop_bit 8 u) = take_bit (8 * n) (drop_bit 8 v)"
    by (rule bit_eqI) (simp add: bit_simps b cong: conj_cong)
  ultimately show ?case using Suc.IH [of "drop_bit 8 u" "drop_bit 8 v"] by simp
qed simp

lemma le_bytes_store_le:
  assumes "n \<le> 8"
  shows "le_bytes (store_le mem a n v) a n = take_bit (8 * n) v"
proof (rule bit_word_eqI)
  fix j
  assume "j < LENGTH(64)"
  then have "unat (word_of_nat (j div 8) :: phys_addr) = j div 8"
    by (simp add: unsigned_of_nat take_bit_nat_eq_self_iff)
  then show "bit (le_bytes (store_le mem a n v) a n) j \<longleftrightarrow> bit (take_bit (8 * n) v) j"
    using assms by (auto simp: bit_le_bytes store_le_at bit_simps dest: bit_imp_le_length)
qed

section \<open>Splitting an access\<close>

lemma read_loop:
  assumes rd: "ops_read ops = Some rd" "\<And>w a n. rd w a n = Inr (le_bytes (mem w) a n, w)"
    and sz: "sz \<le> 8" "0 < k"
  shows "i \<le> sz \<Longrightarrow> k dvd (sz - i) \<Longrightarrow>
    access_loop (memory_region_read_accessor ops) addr k sz i (v, w) =
      Inr (v OR push_bit (8 * i) (le_bytes (mem w) (addr + of_nat i) (sz - i)), w)"
proof (induction "sz - i" arbitrary: i v rule: less_induct)
  case less
  show ?case
  proof (cases "i = sz")
    case True
    then show ?thesis by (simp add: access_loop.simps)
  next
    case False
    then have lt: "i < sz" and k: "k \<le> sz - i" using less.prems by (auto dest: dvd_imp_le)
    then obtain n where n: "sz - i = k + n" using le_Suc_ex by blast
    have sub: "sz - (i + k) = n" "i + k \<le> sz" "k dvd n" using n lt less.prems(2) by (auto simp: dvd_add_right_iff)
    have "access_loop (memory_region_read_accessor ops) addr k sz i (v, w) =
        access_loop (memory_region_read_accessor ops) addr k sz (i + k)
          (v OR push_bit (i * 8) (le_bytes (mem w) (addr + of_nat i) k), w)"
      using lt sz k by (subst access_loop.simps)
        (simp add: memory_region_read_accessor_def via_def rd le_bytes_mask)
    also have "\<dots> = Inr ((v OR push_bit (i * 8) (le_bytes (mem w) (addr + of_nat i) k)) OR
        push_bit (8 * (i + k)) (le_bytes (mem w) (addr + of_nat (i + k)) n), w)"
      using sub n sz(2) by (subst less.hyps) auto
    finally show ?thesis
      by (simp add: n le_bytes_add push_bit_or or.assoc ac_simps distrib_left)
  qed
qed

lemma write_loop:
  assumes wr: "ops_write ops = Some wr" "\<And>w a x n. \<exists>w'. wr w a x n = Inr w' \<and> mem w' = store_le (mem w) a n x"
    and sz: "sz \<le> 8" "0 < k"
  shows "i \<le> sz \<Longrightarrow> k dvd (sz - i) \<Longrightarrow>
    \<exists>w'. access_loop (memory_region_write_accessor ops) addr k sz i (v, w) = Inr (v, w') \<and>
      mem w' = store_le (mem w) (addr + of_nat i) (sz - i) (drop_bit (8 * i) v)"
proof (induction "sz - i" arbitrary: i w rule: less_induct)
  case less
  show ?case
  proof (cases "i = sz")
    case True
    then show ?thesis by (simp add: access_loop.simps)
  next
    case False
    then have lt: "i < sz" and k: "k \<le> sz - i" using less.prems by (auto dest: dvd_imp_le)
    then obtain n where n: "sz - i = k + n" using le_Suc_ex by blast
    have sub: "sz - (i + k) = n" "i + k \<le> sz" "k dvd n" "n < sz - i"
      using n lt less.prems(2) sz(2) by (auto simp: dvd_add_right_iff)
    let ?x = "drop_bit (8 * i) v AND drop_bit (64 - k * 8) (- 1)"
    obtain u where u: "wr w (addr + of_nat i) ?x k = Inr u" "mem u = store_le (mem w) (addr + of_nat i) k ?x"
      using wr(2) by blast
    have "take_bit (8 * k) ?x = take_bit (8 * k) (drop_bit (8 * i) v)"
      by (rule bit_eqI) (use k sz(1) in \<open>auto simp: bit_simps\<close>)
    then have mu: "mem u = store_le (mem w) (addr + of_nat i) k (drop_bit (8 * i) v)"
      using u(2) store_le_low by metis
    have "access_loop (memory_region_write_accessor ops) addr k sz i (v, w) =
        access_loop (memory_region_write_accessor ops) addr k sz (i + k) (v, u)"
      using lt sz k u(1) by (subst access_loop.simps)
        (simp add: memory_region_write_accessor_def via_def wr mult.commute)
    moreover obtain w' where "access_loop (memory_region_write_accessor ops) addr k sz (i + k) (v, u) = Inr (v, w')"
      "mem w' = store_le (mem u) (addr + of_nat (i + k)) n (drop_bit (8 * (i + k)) v)"
      using less.hyps [of "i + k" u] sub by auto
    ultimately show ?thesis
      by (simp add: n mu store_le_add drop_bit_drop_bit ac_simps distrib_left)
  qed
qed

section \<open>Properties\<close>

text \<open>
  A device that behaves like byte memory in the accesses it implements: reads give the
  bytes, writes store them.
\<close>

definition byte_reads :: "'w MemoryRegionOps \<Rightarrow> ('w \<Rightarrow> bytes) \<Rightarrow> bool" where
  "byte_reads ops mem \<longleftrightarrow> (\<exists>rd. ops_read ops = Some rd \<and> (\<forall>w a n. rd w a n = Inr (le_bytes (mem w) a n, w)))"

definition byte_writes :: "'w MemoryRegionOps \<Rightarrow> ('w \<Rightarrow> bytes) \<Rightarrow> bool" where
  "byte_writes ops mem \<longleftrightarrow> (\<exists>wr. ops_write ops = Some wr \<and>
     (\<forall>w a x n. \<exists>w'. wr w a x n = Inr w' \<and> mem w' = store_le (mem w) a n x))"

definition sizes_fit :: "'w MemoryRegionOps \<Rightarrow> nat \<Rightarrow> bool" where
  "sizes_fit ops sz \<longleftrightarrow> sz \<in> {1, 2, 4} \<and> impl_min_access_size ops \<in> {0, 1, 2, 4} \<and>
     impl_min_access_size ops \<le> sz \<and> impl_max_access_size ops \<in> {0, 1, 2, 4, 8}"

lemma adjusted_size_dvd:
  assumes "sizes_fit ops sz"
  shows "adjusted_size sz (impl_min_access_size ops) (impl_max_access_size ops) dvd sz"
    "0 < adjusted_size sz (impl_min_access_size ops) (impl_max_access_size ops)" "sz \<le> 8"
proof -
  have "\<forall>n\<in>set [1, 2, 4]. \<forall>m\<in>set [0, 1, 2, 4]. \<forall>k\<in>set [0, 1, 2, 4, 8]. m \<le> n \<longrightarrow>
      adjusted_size n m k dvd n \<and> 0 < adjusted_size n m k"
    by code_simp
  moreover have "sz \<in> set [1, 2, 4]" "impl_min_access_size ops \<in> set [0, 1, 2, 4]"
    "impl_max_access_size ops \<in> set [0, 1, 2, 4, 8]" "impl_min_access_size ops \<le> sz"
    using assms by (simp_all add: sizes_fit_def)
  ultimately show "adjusted_size sz (impl_min_access_size ops) (impl_max_access_size ops) dvd sz"
    "0 < adjusted_size sz (impl_min_access_size ops) (impl_max_access_size ops)" by blast+
  show "sz \<le> 8" using assms by (auto simp: sizes_fit_def)
qed

lemma read_thunk_bytes:
  assumes "byte_reads ops mem" "memory_region_access_valid ops addr sz" "sizes_fit ops sz"
  shows "memory_region_read_thunk_n ops mr addr sz w = Inr (ucast (le_bytes (mem w) (addr + mr_offset mr) sz), w)"
proof -
  obtain rd where rd: "ops_read ops = Some rd" "\<And>w a n. rd w a n = Inr (le_bytes (mem w) a n, w)"
    using assms(1) by (auto simp: byte_reads_def)
  note a = adjusted_size_dvd [OF assms(3)]
  show ?thesis using assms(2) a(1) read_loop [OF rd a(3,2), of 0]
    by (simp add: memory_region_read_thunk_n_def access_with_adjusted_size_def rd(1))
qed

text \<open>
  C19: the splitting of memory-mapped accesses is invisible: on a device that behaves like
  byte memory in the access sizes it implements, a guest write of 1, 2 or 4 bytes followed
  by a read of the same size gives the low bytes of the data, for all implemented access
  sizes not above the guest's, and changes no other byte.
\<close>

theorem mmio_write_read:
  assumes "byte_reads ops mem" "byte_writes ops mem" "memory_region_access_valid ops addr sz" "sizes_fit ops sz"
  shows "\<exists>w'. memory_region_write_thunk_n ops mr addr sz data w = Inr w' \<and>
    memory_region_read_thunk_n ops mr addr sz w' = Inr (ucast (take_bit (8 * sz) data), w') \<and>
    (\<forall>x. sz \<le> unat (x - (addr + mr_offset mr)) \<longrightarrow> mem w' x = mem w x)"
proof -
  obtain wr where wr: "ops_write ops = Some wr"
    "\<And>w a x n. \<exists>w'. wr w a x n = Inr w' \<and> mem w' = store_le (mem w) a n x"
    using assms(2) by (auto simp: byte_writes_def)
  note a = adjusted_size_dvd [OF assms(4)]
  obtain w' where w': "memory_region_write_thunk_n ops mr addr sz data w = Inr w'"
    "mem w' = store_le (mem w) (addr + mr_offset mr) sz data"
    using assms(3) a(1) write_loop [OF wr a(3,2), of 0 "addr + mr_offset mr" data w]
    by (auto simp: memory_region_write_thunk_n_def access_with_adjusted_size_def wr(1))
  then show ?thesis
    using read_thunk_bytes [OF assms(1,3,4), of mr w'] le_bytes_store_le [OF a(3)] a(3) by (simp add: store_le_at)
qed

text \<open>RAM behind 8-bit accesses only.\<close>

definition ram_ops :: "bytes MemoryRegionOps" where
  "ram_ops = \<lparr>ops_read = Some (\<lambda>w a n. Inr (le_bytes w a n, w)), ops_write = Some (\<lambda>w a x n. Inr (store_le w a n x)),
     valid_min_access_size = 1, valid_max_access_size = 4, valid_unaligned = False,
     impl_min_access_size = 1, impl_max_access_size = 1, old_portio = None, old_mmio_read = [], old_mmio_write = []\<rparr>"

theorem mmio_write_read_witness:
  "\<exists>w'. memory_region_write_thunk_n ram_ops blank_region 8 4 0x12345678 (\<lambda>_. 0) = Inr w' \<and>
    memory_region_read_thunk_n ram_ops blank_region 8 4 w' = Inr (0x12345678, w')"
proof -
  have "byte_reads ram_ops id" "byte_writes ram_ops id" "memory_region_access_valid ram_ops 8 4" "sizes_fit ram_ops 4"
    by (simp_all add: byte_reads_def byte_writes_def ram_ops_def memory_region_access_valid_def sizes_fit_def)
  from mmio_write_read [OF this, of blank_region "0x12345678" "\<lambda>_. 0"] show ?thesis
    by (auto simp: take_bit_eq_mod)
qed

text \<open>
  The table of the old access functions is indexed by the position of the lowest set
  bit, which \<open>bitops_ffsl\<close> finds in every word but zero; so accesses of 1, 2 and 4 bytes use
  the entries 0, 1 and 2.
\<close>

theorem bitops_ffsl_lowest_bit:
  assumes "w \<noteq> 0"
  shows "bit w (bitops_ffsl w) \<and> (\<forall>j<bitops_ffsl w. \<not> bit w j)"
proof -
  have "w AND mask 64 = w" by (rule bit_eqI) (auto simp: bit_simps)
  then have "ffs_inv w (2 * 32) (0, w)" using assms by (simp add: ffs_inv_def)
  from ffs_step_inv [OF this] have "ffs_inv w 32 (ffs_step 32 (0, w))" .
  moreover obtain num word where r: "ffs_step 1 (ffs_step 2 (ffs_step 4 (ffs_step 8 (ffs_step 16 (ffs_step 32 (0, w)))))) = (num, word)"
    by fastforce
  ultimately have "ffs_inv w 1 (ffs_step 1 (ffs_step 2 (ffs_step 4 (ffs_step 8 (ffs_step 16 (ffs_step 32 (0, w)))))))"
    by (intro ffs_step_inv [of w 16, simplified] ffs_step_inv [of w 8, simplified] ffs_step_inv [of w 4, simplified]
        ffs_step_inv [of w 2, simplified] ffs_step_inv [of w 1, unfolded mult_1_right]) simp
  then have "word = drop_bit num w" "\<forall>j<num. \<not> bit w j" "\<exists>j<1. bit word j"
    unfolding r ffs_inv_def prod.case and_mask_eq_0_iff by blast+
  then show ?thesis using r by (simp add: bitops_ffsl_def bit_drop_bit_eq)
qed

theorem bitops_ffsl_lowest_bit_witness: "bit (0x50 :: u64) (bitops_ffsl 0x50)"
  using bitops_ffsl_lowest_bit [of "0x50"] by simp

text \<open>
  A defect of the port writes. A 16-bit write to two 8-bit ports looks the ports up
  by their read function, so that on write-only ports it fails the assertion although
  both ports can be written.
\<close>

definition write_only_ports :: "u32 list MemoryRegionOps" where
  "write_only_ports = \<lparr>ops_read = None, ops_write = None, valid_min_access_size = 0,
     valid_max_access_size = 0, valid_unaligned = False, impl_min_access_size = 0, impl_max_access_size = 0,
     old_portio = Some [
       \<lparr>pio_offset = 0, pio_len = 2, pio_size = 1, pio_read = None, pio_write = Some (\<lambda>w a d. Inr (d # w))\<rparr>],
     old_mmio_read = [], old_mmio_write = []\<rparr>"

theorem portio_word_write_needs_read:
  "memory_region_iorange_write write_only_ports blank_region 0 1 5 [] = Inr [5] \<and>
   memory_region_iorange_write write_only_ports blank_region 1 1 6 [] = Inr [6] \<and>
   memory_region_iorange_write write_only_ports blank_region 0 2 0x0605 [] = Inl (assert_failed ''mrp'')"
  by code_simp

end
