(* ===== verification/Arm_Helpers.thy ===== *)
theory Arm_Helpers
  imports Arm_State
begin

text \<open>
  The arithmetic helpers of the ARM processor (\<open>target-arm/op_helper.c\<close>, \<open>target-arm/helper.c\<close>,
  \<open>target-arm/op_addsub.h\<close>): saturating and flag-setting arithmetic, shifts, bit operations,
  the parallel additions and subtractions, and the user-bank register access. Helpers that
  touch the processor state return the result with the new state. The lemmas relate each to
  arithmetic on integers.
\<close>

section \<open>Saturating arithmetic\<close>

abbreviation "SIGNBIT \<equiv> 0x80000000 :: u32"

definition set_q :: "CPUARMState \<Rightarrow> CPUARMState" where
  "set_q env = env\<lparr>QF := 1\<rparr>"

definition helper_add_setq :: "u32 \<Rightarrow> u32 \<Rightarrow> CPUARMState \<Rightarrow> u32 \<times> CPUARMState" where
  "helper_add_setq a b env =
     (let res = a + b
      in (res, if (res XOR a) AND SIGNBIT \<noteq> 0 \<and> (a XOR b) AND SIGNBIT = 0 then set_q env else env))"

definition helper_add_saturate :: "u32 \<Rightarrow> u32 \<Rightarrow> CPUARMState \<Rightarrow> u32 \<times> CPUARMState" where
  "helper_add_saturate a b env =
     (let res = a + b
      in if (res XOR a) AND SIGNBIT \<noteq> 0 \<and> (a XOR b) AND SIGNBIT = 0
         then (NOT (signed_drop_bit 31 a XOR SIGNBIT), set_q env) else (res, env))"

definition helper_sub_saturate :: "u32 \<Rightarrow> u32 \<Rightarrow> CPUARMState \<Rightarrow> u32 \<times> CPUARMState" where
  "helper_sub_saturate a b env =
     (let res = a - b
      in if (res XOR a) AND SIGNBIT \<noteq> 0 \<and> (a XOR b) AND SIGNBIT \<noteq> 0
         then (NOT (signed_drop_bit 31 a XOR SIGNBIT), set_q env) else (res, env))"

definition helper_double_saturate :: "u32 \<Rightarrow> CPUARMState \<Rightarrow> u32 \<times> CPUARMState" where
  "helper_double_saturate val env =
     (if 0x40000000 \<le> sint val then (NOT SIGNBIT, set_q env)
      else if sint val \<le> sint (0xc0000000 :: u32) then (SIGNBIT, set_q env)
      else (push_bit 1 val, env))"

definition helper_add_usaturate :: "u32 \<Rightarrow> u32 \<Rightarrow> CPUARMState \<Rightarrow> u32 \<times> CPUARMState" where
  "helper_add_usaturate a b env =
     (let res = a + b in if res < a then (- 1, set_q env) else (res, env))"

definition helper_sub_usaturate :: "u32 \<Rightarrow> u32 \<Rightarrow> CPUARMState \<Rightarrow> u32 \<times> CPUARMState" where
  "helper_sub_usaturate a b env =
     (let res = a - b in if res > a then (0, set_q env) else (res, env))"

definition do_ssat :: "u32 \<Rightarrow> nat \<Rightarrow> CPUARMState \<Rightarrow> u32 \<times> CPUARMState" where
  "do_ssat val shift env =
     (let top = signed_drop_bit shift val;
          msk = push_bit shift 1 - 1
      in if 0 < sint top then (msk, set_q env)
         else if sint top < - 1 then (NOT msk, set_q env)
         else (val, env))"

definition do_usat :: "u32 \<Rightarrow> nat \<Rightarrow> CPUARMState \<Rightarrow> u32 \<times> CPUARMState" where
  "do_usat val shift env =
     (let mx = push_bit shift 1 - 1
      in if sint val < 0 then (0, set_q env)
         else if mx < val then (mx, set_q env)
         else (val, env))"

definition helper_ssat :: "u32 \<Rightarrow> nat \<Rightarrow> CPUARMState \<Rightarrow> u32 \<times> CPUARMState" where
  "helper_ssat x shift env = do_ssat x shift env"

definition helper_usat :: "u32 \<Rightarrow> nat \<Rightarrow> CPUARMState \<Rightarrow> u32 \<times> CPUARMState" where
  "helper_usat x shift env = do_usat x shift env"

definition sext16 :: "u32 \<Rightarrow> u32" where
  "sext16 x = scast (ucast x :: u16)"

definition helper_ssat16 :: "u32 \<Rightarrow> nat \<Rightarrow> CPUARMState \<Rightarrow> u32 \<times> CPUARMState" where
  "helper_ssat16 x shift env =
     (case do_ssat (sext16 x) shift env of (lo, env) \<Rightarrow>
      case do_ssat (signed_drop_bit 16 x) shift env of (hi, env) \<Rightarrow>
        (ucast (ucast lo :: u16) OR push_bit 16 hi, env))"

definition helper_usat16 :: "u32 \<Rightarrow> nat \<Rightarrow> CPUARMState \<Rightarrow> u32 \<times> CPUARMState" where
  "helper_usat16 x shift env =
     (case do_usat (sext16 x) shift env of (lo, env) \<Rightarrow>
      case do_usat (signed_drop_bit 16 x) shift env of (hi, env) \<Rightarrow>
        (ucast (ucast lo :: u16) OR push_bit 16 hi, env))"

section \<open>Flag-setting arithmetic\<close>

definition helper_add_cc :: "u32 \<Rightarrow> u32 \<Rightarrow> CPUARMState \<Rightarrow> u32 \<times> CPUARMState" where
  "helper_add_cc a b env =
     (let result = a + b
      in (result, env\<lparr>NF := result, ZF := result, CF := flag (result < a),
                      VF := (a XOR b XOR - 1) AND (a XOR result)\<rparr>))"

definition helper_adc_cc :: "u32 \<Rightarrow> u32 \<Rightarrow> CPUARMState \<Rightarrow> u32 \<times> CPUARMState" where
  "helper_adc_cc a b env =
     (let (result, c) = (if CF env = 0 then (a + b, a + b < a) else (a + b + 1, a + b + 1 \<le> a))
      in (result, env\<lparr>CF := flag c, VF := (a XOR b XOR - 1) AND (a XOR result), NF := result, ZF := result\<rparr>))"

definition helper_sub_cc :: "u32 \<Rightarrow> u32 \<Rightarrow> CPUARMState \<Rightarrow> u32 \<times> CPUARMState" where
  "helper_sub_cc a b env =
     (let result = a - b
      in (result, env\<lparr>NF := result, ZF := result, CF := flag (a \<ge> b), VF := (a XOR b) AND (a XOR result)\<rparr>))"

definition helper_sbc_cc :: "u32 \<Rightarrow> u32 \<Rightarrow> CPUARMState \<Rightarrow> u32 \<times> CPUARMState" where
  "helper_sbc_cc a b env =
     (let (result, c) = (if CF env = 0 then (a - b - 1, a > b) else (a - b, a \<ge> b))
      in (result, env\<lparr>CF := flag c, VF := (a XOR b) AND (a XOR result), NF := result, ZF := result\<rparr>))"

section \<open>Shifts\<close>

definition shift_amount :: "u32 \<Rightarrow> nat" where
  "shift_amount i = unat (i AND 0xff)"

definition helper_shl :: "u32 \<Rightarrow> u32 \<Rightarrow> u32" where
  "helper_shl x i = (let shift = shift_amount i in if 32 \<le> shift then 0 else push_bit shift x)"

definition helper_shr :: "u32 \<Rightarrow> u32 \<Rightarrow> u32" where
  "helper_shr x i = (let shift = shift_amount i in if 32 \<le> shift then 0 else drop_bit shift x)"

definition helper_sar :: "u32 \<Rightarrow> u32 \<Rightarrow> u32" where
  "helper_sar x i = (let shift = shift_amount i in signed_drop_bit (if 32 \<le> shift then 31 else shift) x)"

definition helper_shl_cc :: "u32 \<Rightarrow> u32 \<Rightarrow> CPUARMState \<Rightarrow> u32 \<times> CPUARMState" where
  "helper_shl_cc x i env =
     (let shift = shift_amount i
      in if 32 \<le> shift then (0, env\<lparr>CF := (if shift = 32 then x AND 1 else 0)\<rparr>)
         else if shift \<noteq> 0 then (push_bit shift x, env\<lparr>CF := drop_bit (32 - shift) x AND 1\<rparr>)
         else (x, env))"

definition helper_shr_cc :: "u32 \<Rightarrow> u32 \<Rightarrow> CPUARMState \<Rightarrow> u32 \<times> CPUARMState" where
  "helper_shr_cc x i env =
     (let shift = shift_amount i
      in if 32 \<le> shift then (0, env\<lparr>CF := (if shift = 32 then drop_bit 31 x AND 1 else 0)\<rparr>)
         else if shift \<noteq> 0 then (drop_bit shift x, env\<lparr>CF := drop_bit (shift - 1) x AND 1\<rparr>)
         else (x, env))"

definition helper_sar_cc :: "u32 \<Rightarrow> u32 \<Rightarrow> CPUARMState \<Rightarrow> u32 \<times> CPUARMState" where
  "helper_sar_cc x i env =
     (let shift = shift_amount i
      in if 32 \<le> shift then (signed_drop_bit 31 x, env\<lparr>CF := drop_bit 31 x AND 1\<rparr>)
         else if shift \<noteq> 0 then (signed_drop_bit shift x, env\<lparr>CF := drop_bit (shift - 1) x AND 1\<rparr>)
         else (x, env))"

definition helper_ror_cc :: "u32 \<Rightarrow> u32 \<Rightarrow> CPUARMState \<Rightarrow> u32 \<times> CPUARMState" where
  "helper_ror_cc x i env =
     (let shift1 = shift_amount i; shift = shift1 mod 32
      in if shift = 0 then (x, if shift1 \<noteq> 0 then env\<lparr>CF := drop_bit 31 x AND 1\<rparr> else env)
         else (drop_bit shift x OR push_bit (32 - shift) x, env\<lparr>CF := drop_bit (shift - 1) x AND 1\<rparr>))"

section \<open>Extension, division, bit operations\<close>

definition helper_sxtb16 :: "u32 \<Rightarrow> u32" where
  "helper_sxtb16 x =
     ucast (scast (ucast x :: u8) :: u16) OR push_bit 16 (scast (ucast (drop_bit 16 x) :: u8))"

definition helper_uxtb16 :: "u32 \<Rightarrow> u32" where
  "helper_uxtb16 x =
     ucast (ucast (ucast x :: u8) :: u16) OR push_bit 16 (ucast (ucast (drop_bit 16 x) :: u8))"

text \<open>C's division truncates towards zero.\<close>

definition helper_sdiv :: "int \<Rightarrow> int \<Rightarrow> int" where
  "helper_sdiv num den =
     (if den = 0 then 0
      else if num = - (2 ^ 31) \<and> den = - 1 then - (2 ^ 31)
      else sgn num * sgn den * (\<bar>num\<bar> div \<bar>den\<bar>))"

definition helper_udiv :: "u32 \<Rightarrow> u32 \<Rightarrow> u32" where
  "helper_udiv num den = (if den = 0 then 0 else num div den)"

definition helper_rbit :: "u32 \<Rightarrow> u32" where
  "helper_rbit x =
     (let x = drop_bit 24 (x AND 0xff000000) OR drop_bit 8 (x AND 0x00ff0000) OR
              push_bit 8 (x AND 0x0000ff00) OR push_bit 24 (x AND 0x000000ff);
          x = drop_bit 4 (x AND 0xf0f0f0f0) OR push_bit 4 (x AND 0x0f0f0f0f)
      in drop_bit 3 (x AND 0x88888888) OR drop_bit 1 (x AND 0x44444444) OR
         push_bit 1 (x AND 0x22222222) OR push_bit 3 (x AND 0x11111111))"

definition helper_abs :: "u32 \<Rightarrow> u32" where
  "helper_abs x = (if sint x < 0 then - x else x)"

definition helper_logicq_cc :: "u64 \<Rightarrow> u32" where
  "helper_logicq_cc val = ucast (drop_bit 32 val) OR flag (val \<noteq> 0)"

section \<open>User-bank registers\<close>

abbreviation "CPSR_EXEC \<equiv> 0x700fc20 :: u32"

definition helper_cpsr_read :: "CPUARMState \<Rightarrow> u32" where
  "helper_cpsr_read env = cpsr_read env AND NOT CPSR_EXEC"

definition helper_get_user_reg :: "nat \<Rightarrow> CPUARMState \<Rightarrow> u32 res" where
  "helper_get_user_reg regno env =
     (if regno = 13 then Inr (banked_r13 env 0)
      else if regno = 14 then Inr (banked_r14 env 0)
      else if 8 \<le> regno \<and> uncached_cpsr env AND 0x1f = ARM_CPU_MODE_FIQ
      then (if regno - 8 < 5 then Inr (usr_regs env (regno - 8)) else Inl (out_of_bounds ''usr_regs''))
      else if regno < 16 then Inr (regs env regno) else Inl (out_of_bounds ''regs''))"

definition helper_set_user_reg :: "nat \<Rightarrow> u32 \<Rightarrow> CPUARMState \<Rightarrow> CPUARMState res" where
  "helper_set_user_reg regno val env =
     (if regno = 13 then Inr (env\<lparr>banked_r13 := (banked_r13 env)(0 := val)\<rparr>)
      else if regno = 14 then Inr (env\<lparr>banked_r14 := (banked_r14 env)(0 := val)\<rparr>)
      else if 8 \<le> regno \<and> uncached_cpsr env AND 0x1f = ARM_CPU_MODE_FIQ
      then (if regno - 8 < 5 then Inr (env\<lparr>usr_regs := (usr_regs env)(regno - 8 := val)\<rparr>)
            else Inl (out_of_bounds ''usr_regs''))
      else if regno < 16 then Inr (set_reg regno val env) else Inl (out_of_bounds ''regs''))"

section \<open>Parallel additions and subtractions\<close>

text \<open>
  \<open>op_addsub.h\<close> is a template: it is included once per prefix, with the macros \<open>ADD16\<close>,
  \<open>SUB16\<close>, \<open>ADD8\<close> and \<open>SUB8\<close> of that prefix. Each macro adds a lane to the pair of the
  result and the GE flags; only the prefixes \<open>s\<close> and \<open>u\<close> touch the flags. The lane operations
  of a prefix do not depend on the lane's width but through the width of the words they cut
  their operands to, so that each pair of macros is one definition on words of any width.
\<close>

datatype prefix = PFX_q | PFX_uq | PFX_s | PFX_u | PFX_sh | PFX_uh

text \<open>\<open>add16_sat\<close> and \<open>add8_sat\<close>, \<open>sub16_sat\<close> and \<open>sub8_sat\<close>: the sign bit of the width.\<close>

definition sign :: "'a::len word" where
  "sign = push_bit (LENGTH('a) - 1) 1"

definition add_sat :: "'a::len word \<Rightarrow> 'a word \<Rightarrow> 'a word" where
  "add_sat a b =
     (let res = a + b
      in if (res XOR a) AND sign \<noteq> 0 \<and> (a XOR b) AND sign = 0
         then (if a AND sign \<noteq> 0 then sign else sign - 1) else res)"

definition sub_sat :: "'a::len word \<Rightarrow> 'a word \<Rightarrow> 'a word" where
  "sub_sat a b =
     (let res = a - b
      in if (res XOR a) AND sign \<noteq> 0 \<and> (a XOR b) AND sign \<noteq> 0
         then (if a AND sign \<noteq> 0 then sign else sign - 1) else res)"

definition add_usat :: "'a::len word \<Rightarrow> 'a word \<Rightarrow> 'a word" where
  "add_usat a b = (let res = a + b in if res < a then - 1 else res)"

definition sub_usat :: "'a::len word \<Rightarrow> 'a word \<Rightarrow> 'a word" where
  "sub_usat a b = (if a > b then a - b else 0)"

text \<open>The value of a lane and whether its GE flags are set, for operands cut to the lane.\<close>

definition lane_add :: "prefix \<Rightarrow> 'a::len word \<Rightarrow> 'a word \<Rightarrow> 'a word \<times> bool" where
  "lane_add p a b =
     (case p of
        PFX_q \<Rightarrow> (add_sat a b, False)
      | PFX_uq \<Rightarrow> (add_usat a b, False)
      | PFX_s \<Rightarrow> (let sum = scast a + scast b :: u32 in (ucast sum, 0 \<le> sint sum))
      | PFX_u \<Rightarrow> (let sum = ucast a + ucast b :: u32 in (ucast sum, drop_bit LENGTH('a) sum = 1))
      | PFX_sh \<Rightarrow> (ucast (signed_drop_bit 1 (scast a + scast b :: u32)), False)
      | PFX_uh \<Rightarrow> (ucast (drop_bit 1 (ucast a + ucast b :: u32)), False))"

definition lane_sub :: "prefix \<Rightarrow> 'a::len word \<Rightarrow> 'a word \<Rightarrow> 'a word \<times> bool" where
  "lane_sub p a b =
     (case p of
        PFX_q \<Rightarrow> (sub_sat a b, False)
      | PFX_uq \<Rightarrow> (sub_usat a b, False)
      | PFX_s \<Rightarrow> (let sum = scast a - scast b :: u32 in (ucast sum, 0 \<le> sint sum))
      | PFX_u \<Rightarrow> (let sum = ucast a - ucast b :: u32 in (ucast sum, drop_bit LENGTH('a) sum = 0))
      | PFX_sh \<Rightarrow> (ucast (signed_drop_bit 1 (scast a - scast b :: u32)), False)
      | PFX_uh \<Rightarrow> (ucast (drop_bit 1 (ucast a - ucast b :: u32)), False))"

text \<open>\<open>RESULT\<close> with the update of \<open>ge\<close>, for lanes of 16 and of 8 bits.\<close>

definition RESULT16 :: "u16 \<times> bool \<Rightarrow> nat \<Rightarrow> u32 \<times> u32 \<Rightarrow> u32 \<times> u32" where
  "RESULT16 v n acc =
     (fst acc OR push_bit (n * 16) (ucast (fst v)), if snd v then snd acc OR push_bit (n * 2) 3 else snd acc)"

definition RESULT8 :: "u8 \<times> bool \<Rightarrow> nat \<Rightarrow> u32 \<times> u32 \<Rightarrow> u32 \<times> u32" where
  "RESULT8 v n acc =
     (fst acc OR push_bit (n * 8) (ucast (fst v)), if snd v then snd acc OR push_bit n 1 else snd acc)"

definition ADD16 :: "prefix \<Rightarrow> u32 \<Rightarrow> u32 \<Rightarrow> nat \<Rightarrow> u32 \<times> u32 \<Rightarrow> u32 \<times> u32" where
  "ADD16 p a b n = RESULT16 (lane_add p (ucast a) (ucast b)) n"

definition SUB16 :: "prefix \<Rightarrow> u32 \<Rightarrow> u32 \<Rightarrow> nat \<Rightarrow> u32 \<times> u32 \<Rightarrow> u32 \<times> u32" where
  "SUB16 p a b n = RESULT16 (lane_sub p (ucast a) (ucast b)) n"

definition ADD8 :: "prefix \<Rightarrow> u32 \<Rightarrow> u32 \<Rightarrow> nat \<Rightarrow> u32 \<times> u32 \<Rightarrow> u32 \<times> u32" where
  "ADD8 p a b n = RESULT8 (lane_add p (ucast a) (ucast b)) n"

definition SUB8 :: "prefix \<Rightarrow> u32 \<Rightarrow> u32 \<Rightarrow> nat \<Rightarrow> u32 \<times> u32 \<Rightarrow> u32 \<times> u32" where
  "SUB8 p a b n = RESULT8 (lane_sub p (ucast a) (ucast b)) n"

text \<open>The six helpers of the template: the result and the GE flags.\<close>

definition helper_add16 :: "prefix \<Rightarrow> u32 \<Rightarrow> u32 \<Rightarrow> u32 \<times> u32" where
  "helper_add16 p a b = ADD16 p (drop_bit 16 a) (drop_bit 16 b) 1 (ADD16 p a b 0 (0, 0))"

definition helper_add8 :: "prefix \<Rightarrow> u32 \<Rightarrow> u32 \<Rightarrow> u32 \<times> u32" where
  "helper_add8 p a b =
     ADD8 p (drop_bit 24 a) (drop_bit 24 b) 3 (ADD8 p (drop_bit 16 a) (drop_bit 16 b) 2
       (ADD8 p (drop_bit 8 a) (drop_bit 8 b) 1 (ADD8 p a b 0 (0, 0))))"

definition helper_sub16 :: "prefix \<Rightarrow> u32 \<Rightarrow> u32 \<Rightarrow> u32 \<times> u32" where
  "helper_sub16 p a b = SUB16 p (drop_bit 16 a) (drop_bit 16 b) 1 (SUB16 p a b 0 (0, 0))"

definition helper_sub8 :: "prefix \<Rightarrow> u32 \<Rightarrow> u32 \<Rightarrow> u32 \<times> u32" where
  "helper_sub8 p a b =
     SUB8 p (drop_bit 24 a) (drop_bit 24 b) 3 (SUB8 p (drop_bit 16 a) (drop_bit 16 b) 2
       (SUB8 p (drop_bit 8 a) (drop_bit 8 b) 1 (SUB8 p a b 0 (0, 0))))"

definition helper_subaddx :: "prefix \<Rightarrow> u32 \<Rightarrow> u32 \<Rightarrow> u32 \<times> u32" where
  "helper_subaddx p a b = SUB16 p (drop_bit 16 a) b 1 (ADD16 p a (drop_bit 16 b) 0 (0, 0))"

definition helper_addsubx :: "prefix \<Rightarrow> u32 \<Rightarrow> u32 \<Rightarrow> u32 \<times> u32" where
  "helper_addsubx p a b = ADD16 p (drop_bit 16 a) b 1 (SUB16 p a (drop_bit 16 b) 0 (0, 0))"

definition do_usad :: "u8 \<Rightarrow> u8 \<Rightarrow> u8" where
  "do_usad a b = (if a > b then a - b else b - a)"

definition helper_usad8 :: "u32 \<Rightarrow> u32 \<Rightarrow> u32" where
  "helper_usad8 a b =
     ucast (do_usad (ucast a) (ucast b)) + ucast (do_usad (ucast (drop_bit 8 a)) (ucast (drop_bit 8 b))) +
     ucast (do_usad (ucast (drop_bit 16 a)) (ucast (drop_bit 16 b))) +
     ucast (do_usad (ucast (drop_bit 24 a)) (ucast (drop_bit 24 b)))"

definition helper_sel_flags :: "u32 \<Rightarrow> u32 \<Rightarrow> u32 \<Rightarrow> u32" where
  "helper_sel_flags flags a b =
     (let m = (if flags AND 1 \<noteq> 0 then 0xff else 0);
          m = m OR (if flags AND 2 \<noteq> 0 then 0xff00 else 0);
          m = m OR (if flags AND 4 \<noteq> 0 then 0xff0000 else 0);
          m = m OR (if flags AND 8 \<noteq> 0 then 0xff000000 else 0)
      in (a AND m) OR (b AND NOT m))"

section \<open>Signed sums and differences\<close>

lemma signed_take_bit_wrap: "\<exists>k. signed_take_bit n x = x + 2 ^ Suc n * (k :: int)"
proof -
  have "signed_take_bit n x = take_bit (Suc n) (x + 2 ^ n) - 2 ^ n"
    by (simp add: signed_take_bit_eq_take_bit_shift)
  also have "\<dots> = x + 2 ^ Suc n * (- ((x + 2 ^ n) div 2 ^ Suc n))"
    by (simp add: take_bit_eq_mod minus_mult_div_eq_mod [symmetric] del: power_Suc)
  finally show ?thesis by blast
qed

lemma sint_wrap:
  fixes a b :: "'a::len word"
  shows "\<exists>k. sint (a + b) = sint a + sint b + 2 ^ LENGTH('a) * k"
    "\<exists>k. sint (a - b) = sint a - sint b + 2 ^ LENGTH('a) * k"
  using signed_take_bit_wrap [of "LENGTH('a) - 1" "sint a + sint b"]
    signed_take_bit_wrap [of "LENGTH('a) - 1" "sint a - sint b"]
  by (simp_all add: sint_word_ariths del: power_Suc)

definition sclamp :: "nat \<Rightarrow> int \<Rightarrow> int" where
  "sclamp n x = max (- (2 ^ n)) (min (2 ^ n - 1) x)"

definition top_bit :: "'a::len word \<Rightarrow> nat" where
  "top_bit x = LENGTH('a) - 1"

lemma sint_range:
  fixes x :: "'a::len word"
  shows "- (2 ^ top_bit x) \<le> sint x" "sint x < 2 ^ top_bit x"
  using sint_ge [of x] sint_lt [of x] by (simp_all add: top_bit_def)

lemma wrap_cases:
  fixes p s k :: int
  assumes "0 < p" "- (2 * p) \<le> s" "s \<le> 2 * p" "- p \<le> s + 2 * p * k" "s + 2 * p * k < p"
  shows "k = -1 \<or> k = 0 \<or> k = 1"
proof -
  have "k \<le> 1"
  proof (rule ccontr)
    assume "\<not> k \<le> 1"
    then have "2 * p * 2 \<le> 2 * p * k" using assms(1) by (intro mult_left_mono) simp_all
    then show False using assms by linarith
  qed
  moreover have "- 1 \<le> k"
  proof (rule ccontr)
    assume "\<not> - 1 \<le> k"
    then have "2 * p * k \<le> 2 * p * (- 2)" using assms(1) by (intro mult_left_mono) simp_all
    then show False using assms by linarith
  qed
  ultimately show ?thesis by linarith
qed

text \<open>Overflow of a signed sum or difference, seen at the signs, for words of any width.\<close>

lemma signed_overflow:
  fixes a b :: "'a::len word"
  defines "p \<equiv> 2 ^ top_bit a"
  shows "(sint (a + b) < 0) \<noteq> (sint a < 0) \<and> (sint a < 0) = (sint b < 0) \<longleftrightarrow> sint a + sint b \<notin> {- p..<p}"
    "sint a + sint b \<in> {- p..<p} \<Longrightarrow> sint (a + b) = sint a + sint b"
    "(sint (a - b) < 0) \<noteq> (sint a < 0) \<and> (sint a < 0) \<noteq> (sint b < 0) \<longleftrightarrow> sint a - sint b \<notin> {- p..<p}"
    "sint a - sint b \<in> {- p..<p} \<Longrightarrow> sint (a - b) = sint a - sint b"
proof -
  have p2: "2 ^ LENGTH('a) = 2 * p" "0 < p"
    by (simp_all add: p_def top_bit_def power_Suc [symmetric] del: power_Suc)
  have bd: "- p \<le> sint a" "sint a < p" "- p \<le> sint b" "sint b < p" "- p \<le> sint (a + b)" "sint (a + b) < p"
    "- p \<le> sint (a - b)" "sint (a - b) < p"
    using sint_range [of a] sint_range [of b] sint_range [of "a + b"] sint_range [of "a - b"]
    by (simp_all add: p_def top_bit_def)
  obtain k where k: "sint (a + b) = sint a + sint b + 2 * p * k" using sint_wrap(1) [of a b] p2 by auto
  obtain l where l: "sint (a - b) = sint a - sint b + 2 * p * l" using sint_wrap(2) [of a b] p2 by auto
  have kc: "k = -1 \<or> k = 0 \<or> k = 1" by (rule wrap_cases [of p "sint a + sint b"]) (use p2 bd k in linarith)+
  have lc: "l = -1 \<or> l = 0 \<or> l = 1" by (rule wrap_cases [of p "sint a - sint b"]) (use p2 bd l in linarith)+
  show "(sint (a + b) < 0) \<noteq> (sint a < 0) \<and> (sint a < 0) = (sint b < 0) \<longleftrightarrow> sint a + sint b \<notin> {- p..<p}"
    "sint a + sint b \<in> {- p..<p} \<Longrightarrow> sint (a + b) = sint a + sint b"
    using k kc bd p2(2) by auto
  show "(sint (a - b) < 0) \<noteq> (sint a < 0) \<and> (sint a < 0) \<noteq> (sint b < 0) \<longleftrightarrow> sint a - sint b \<notin> {- p..<p}"
    "sint a - sint b \<in> {- p..<p} \<Longrightarrow> sint (a - b) = sint a - sint b"
    using l lc bd p2(2) by auto
qed

lemma xor_sign_iff:
  fixes x y :: u32
  shows "(x XOR y) AND SIGNBIT = 0 \<longleftrightarrow> (sint x < 0) = (sint y < 0)"
  using and_2_power_eq_0_iff [of "x XOR y" 31] bit_last_iff [of x] bit_last_iff [of y] by (auto simp: bit_xor_iff)

lemma sat_value:
  "sint (NOT (signed_drop_bit 31 a XOR SIGNBIT) :: u32) = (if sint a < 0 then - (2 ^ 31) else 2 ^ 31 - 1)"
proof -
  have "NOT (signed_drop_bit 31 a XOR SIGNBIT) = (if bit a 31 then SIGNBIT else 0x7fffffff)"
    by (rule u32_eqI) (simp add: bit_simps)
  then show ?thesis using bit_last_iff [of a] by simp
qed

text \<open>
  QADD and QSUB compute the mathematical sum and difference clamped to 32 signed bits,
  and set the Q flag exactly when the clamp changed the value.
\<close>

theorem saturating_add_sub:
  "sint (fst (helper_add_saturate a b env)) = sclamp 31 (sint a + sint b) \<and>
   snd (helper_add_saturate a b env) =
     (if sclamp 31 (sint a + sint b) = sint a + sint b then env else env\<lparr>QF := 1\<rparr>) \<and>
   sint (fst (helper_sub_saturate a b env)) = sclamp 31 (sint a - sint b) \<and>
   snd (helper_sub_saturate a b env) =
     (if sclamp 31 (sint a - sint b) = sint a - sint b then env else env\<lparr>QF := 1\<rparr>)"
proof -
  let ?I = "{- (2 ^ 31)..<2 ^ 31} :: int set" and ?sat = "(NOT (signed_drop_bit 31 a XOR SIGNBIT), set_q env)"
  have p: "(2 :: int) ^ top_bit a = 2 ^ 31" by (simp add: top_bit_def)
  note o = signed_overflow [of a b, unfolded p]
  have r: "- (2 ^ 31) \<le> sint a" "sint a < 2 ^ 31" "- (2 ^ 31) \<le> sint b" "sint b < 2 ^ 31"
    using sint_range [of a] sint_range [of b] by (simp_all add: top_bit_def)
  have e: "helper_add_saturate a b env = (if sint a + sint b \<in> ?I then (a + b, env) else ?sat)"
    "helper_sub_saturate a b env = (if sint a - sint b \<in> ?I then (a - b, env) else ?sat)"
    unfolding helper_add_saturate_def helper_sub_saturate_def Let_def xor_sign_iff o(1) o(3) by simp_all
  have c: "sclamp 31 x = x \<longleftrightarrow> x \<in> ?I" for x by (auto simp: sclamp_def)
  have "sclamp 31 (sint a + sint b) = (if sint a < 0 then - (2 ^ 31) else 2 ^ 31 - 1)" if "sint a + sint b \<notin> ?I"
    using that r by (auto simp: sclamp_def)
  moreover have "sclamp 31 (sint a - sint b) = (if sint a < 0 then - (2 ^ 31) else 2 ^ 31 - 1)" if "sint a - sint b \<notin> ?I"
    using that r by (auto simp: sclamp_def)
  ultimately show ?thesis
    unfolding e c using o(2,4) c [of "sint a + sint b"] c [of "sint a - sint b"] sat_value [of a] by (auto simp: set_q_def)
qed

lemma sint_push_1:
  assumes "- (2 ^ 30) < sint (x :: u32)" "sint x < 2 ^ 30"
  shows "sint (push_bit 1 x) = 2 * sint x"
proof -
  have "push_bit 1 x = x + x" by (simp add: push_bit_eq_mult mult_2_right)
  moreover have "sint x + sint x \<in> {- (2 ^ 31)..<2 ^ 31}" using assms by simp
  ultimately show ?thesis using signed_overflow(2) [of x x] by (simp only: top_bit_def) simp
qed

lemma sint_signed_drop: "sint (signed_drop_bit n (x :: u32)) = sint x div 2 ^ n"
  by (simp add: sint_signed_drop_bit_eq drop_bit_eq_div)

lemma pow_minus_1:
  assumes "n < 32"
  shows "uint (2 ^ n - 1 :: u32) = 2 ^ n - 1" "sint (2 ^ n - 1 :: u32) = 2 ^ n - 1"
    "sint (NOT (2 ^ n - 1) :: u32) = - (2 ^ n)"
proof -
  have "\<forall>n\<in>set [0..<32]. uint (2 ^ n - 1 :: u32) = 2 ^ n - 1 \<and>
      sint (2 ^ n - 1 :: u32) = 2 ^ n - 1 \<and> sint (NOT (2 ^ n - 1) :: u32) = - (2 ^ n)"
    by code_simp
  then show "uint (2 ^ n - 1 :: u32) = 2 ^ n - 1" "sint (2 ^ n - 1 :: u32) = 2 ^ n - 1"
    "sint (NOT (2 ^ n - 1) :: u32) = - (2 ^ n)" using assms by auto
qed

lemma uclamp_sint:
  assumes "0 \<le> sint (x :: u32)"
  shows "uint x = sint x"
proof -
  obtain k where k: "sint x = uint x + 4294967296 * k"
    using signed_take_bit_wrap [of 31 "uint x"] by (auto simp: sint_uint)
  have b: "uint x < 4294967296" "0 \<le> uint x" "sint x < 2147483648"
    using uint_lt2p [of x] sint_range(2) [of x] by (simp_all add: top_bit_def)
  have "- 1 < k" "k < 1" using assms k b by linarith+
  then show ?thesis using k by simp
qed

text \<open>
  C33: SSAT and USAT clamp a signed value to \<open>n + 1\<close> signed bits and to \<open>n\<close> unsigned bits, set
  the Q flag exactly when they change it, and QDADD's doubling clamps to 32 signed bits.
\<close>

theorem saturate_to_width:
  assumes "n < 32"
  shows "sint (fst (do_ssat x n env)) = sclamp n (sint x) \<and>
    snd (do_ssat x n env) = (if sclamp n (sint x) = sint x then env else env\<lparr>QF := 1\<rparr>) \<and>
    uint (fst (do_usat x n env)) = max 0 (min (2 ^ n - 1) (sint x)) \<and>
    snd (do_usat x n env) = (if max 0 (min (2 ^ n - 1) (sint x)) = sint x then env else env\<lparr>QF := 1\<rparr>) \<and>
    sint (fst (helper_double_saturate x env)) = sclamp 31 (2 * sint x)"
proof -
  have p: "(0 :: int) < 2 ^ n" by simp
  have "sint x div 2 ^ n < - 1 \<longleftrightarrow> (sint x + 2 ^ n) div 2 ^ n < 0"
    using div_add_self2 [of "2 ^ n" "sint x"] by simp linarith
  then have t: "0 < sint x div 2 ^ n \<longleftrightarrow> 2 ^ n \<le> sint x" "sint x div 2 ^ n < - 1 \<longleftrightarrow> sint x < - (2 ^ n)"
    using pos_imp_zdiv_neg_iff [OF p, of "sint x + 2 ^ n"] p by (simp_all add: pos_imp_zdiv_pos_iff) linarith
  have "sint (fst (do_ssat x n env)) = sclamp n (sint x) \<and>
    snd (do_ssat x n env) = (if sclamp n (sint x) = sint x then env else env\<lparr>QF := 1\<rparr>)"
    using p by (auto simp: do_ssat_def Let_def sint_signed_drop t pow_minus_1 [OF assms] sclamp_def set_q_def)
  moreover have "uint (fst (do_usat x n env)) = max 0 (min (2 ^ n - 1) (sint x)) \<and>
    snd (do_usat x n env) = (if max 0 (min (2 ^ n - 1) (sint x)) = sint x then env else env\<lparr>QF := 1\<rparr>)"
    using p uclamp_sint [of x] by (auto simp: do_usat_def Let_def word_less_def pow_minus_1 [OF assms] set_q_def)
  moreover have "sint (fst (helper_double_saturate x env)) = sclamp 31 (2 * sint x)"
    using sint_push_1 [of x] by (auto simp: helper_double_saturate_def sclamp_def set_q_def)
  ultimately show ?thesis by blast
qed

theorem saturate_to_width_witness: "sint (fst (do_ssat 300 7 blank_cpu)) = 127 \<and> uint (fst (do_usat 300 7 blank_cpu)) = 127"
  using saturate_to_width [of 7 300 blank_cpu] by (simp add: sclamp_def)

lemma carry_iff:
  fixes a b :: u32
  shows "a + b < a \<longleftrightarrow> 2 ^ 32 \<le> uint a + uint b" "a + b + 1 \<le> a \<longleftrightarrow> 2 ^ 32 \<le> uint a + uint b + 1"
proof -
  have bd: "uint a < 4294967296" "0 \<le> uint a" "uint b < 4294967296" "0 \<le> uint b"
    using uint_lt2p [of a] uint_lt2p [of b] by simp_all
  have s: "uint (a + b) = (uint a + uint b) mod 4294967296" "uint (a + b + 1) = (uint a + uint b + 1) mod 4294967296"
    by (simp_all add: uint_word_ariths mod_simps)
  have m: "x mod 4294967296 = (if x < 4294967296 then x else x - 4294967296)" if "0 \<le> x" "x < 2 * 4294967296" for x :: int
    using that mod_pos_pos_trivial [of "x - 4294967296" 4294967296] by (auto simp: mod_pos_pos_trivial)
  show "a + b < a \<longleftrightarrow> 2 ^ 32 \<le> uint a + uint b"
    unfolding word_less_def s using bd m [of "uint a + uint b"] by auto
  have pw: "(2 :: int) ^ 32 = 4294967296" by simp
  have "(uint a + uint b + 1) mod 4294967296 \<le> uint a \<longleftrightarrow> 4294967296 \<le> uint a + uint b + 1"
  proof (cases "uint a + uint b + 1 < 4294967296")
    case True
    then have "(uint a + uint b + 1) mod 4294967296 = uint a + uint b + 1"
      using bd by (intro mod_pos_pos_trivial) simp_all
    then show ?thesis using True bd by linarith
  next
    case False
    then have "(uint a + uint b + 1) mod 4294967296 = uint a + uint b + 1 - 4294967296"
      using m [of "uint a + uint b + 1"] bd by simp
    then show ?thesis using False bd by linarith
  qed
  then show "a + b + 1 \<le> a \<longleftrightarrow> 2 ^ 32 \<le> uint a + uint b + 1" unfolding word_le_def s pw .
qed

lemma borrow_iff:
  fixes a b :: u32
  shows "b \<le> a \<longleftrightarrow> uint b \<le> uint a" "b < a \<longleftrightarrow> uint b + 1 \<le> uint a"
  by (simp_all add: word_le_def word_less_def add1_zle_eq)

text \<open>
  An exact sum or difference that may leave the range by one bit leaves it just when its sign is not
  that of its low 32 bits; with a carry, this is what the formulas for V compute.
\<close>

lemma overflow_sign:
  fixes x :: int
  assumes "- (2 ^ 32) \<le> x" "x < 2 ^ 32"
  shows "x \<notin> {- (2 ^ 31)..<2 ^ 31} \<longleftrightarrow> (sint (word_of_int x :: u32) < 0) \<noteq> (x < 0)"
proof -
  have s: "sint (word_of_int x :: u32) = (x + 2 ^ 31) mod 2 ^ 32 - 2 ^ 31"
    by (simp add: signed_of_int signed_take_bit_eq_take_bit_shift take_bit_eq_mod)
  consider "x < - (2 ^ 31)" | "- (2 ^ 31) \<le> x" "x < 2 ^ 31" | "2 ^ 31 \<le> x" by linarith
  then show ?thesis
  proof cases
    case 1
    have "(x + 2 ^ 31) mod 2 ^ 32 = (x + 2 ^ 31 + 2 ^ 32) mod 2 ^ 32" by (simp only: mod_add_self2)
    also have "\<dots> = x + 2 ^ 31 + 2 ^ 32" using 1 assms by (intro mod_pos_pos_trivial) simp_all
    finally show ?thesis using 1 assms s by simp
  next
    case 2
    then have "(x + 2 ^ 31) mod 2 ^ 32 = x + 2 ^ 31" by (intro mod_pos_pos_trivial) simp_all
    then show ?thesis using 2 s by simp
  next
    case 3
    have "(x + 2 ^ 31) mod 2 ^ 32 = (x + 2 ^ 31 - 2 ^ 32) mod 2 ^ 32" by (simp only: minus_mod_self2)
    also have "\<dots> = x + 2 ^ 31 - 2 ^ 32" using 3 assms by (intro mod_pos_pos_trivial) simp_all
    finally show ?thesis using 3 assms s by simp
  qed
qed

lemma carry_overflow:
  fixes a b :: u32 and c :: int
  assumes "c = 0 \<or> c = 1"
  shows "bit ((a XOR b XOR - 1) AND (a XOR (a + b + word_of_int c))) 31 = (sint a + sint b + c \<notin> {- (2 ^ 31)..<2 ^ 31})"
    and "bit ((a XOR b) AND (a XOR (a - b - word_of_int c))) 31 = (sint a - sint b - c \<notin> {- (2 ^ 31)..<2 ^ 31})"
proof -
  have s: "bit x 31 \<longleftrightarrow> sint x < 0" for x :: u32 using bit_last_iff [of x] by simp
  have r: "- (2 ^ 31) \<le> sint a" "sint a < 2 ^ 31" "- (2 ^ 31) \<le> sint b" "sint b < 2 ^ 31"
    using sint_ge [of a] sint_lt [of a] sint_ge [of b] sint_lt [of b] by simp_all
  have "a + b + word_of_int c = word_of_int (sint a + sint b + c)" "a - b - word_of_int c = word_of_int (sint a - sint b - c)"
    by simp_all
  note w = this
  have "sint a + sint b + c \<notin> {- (2 ^ 31)..<2 ^ 31} \<longleftrightarrow>
      (sint a < 0 \<longleftrightarrow> sint b < 0) \<and> (sint a < 0 \<longleftrightarrow> \<not> sint (a + b + word_of_int c) < 0)"
  proof (cases "sint a < 0 \<longleftrightarrow> sint b < 0")
    case True
    then have "sint a + sint b + c < 0 \<longleftrightarrow> sint a < 0" using assms by auto
    then show ?thesis unfolding w using True overflow_sign [of "sint a + sint b + c"] r assms by auto
  next
    case False
    then show ?thesis using r assms by auto
  qed
  then show "bit ((a XOR b XOR - 1) AND (a XOR (a + b + word_of_int c))) 31 = (sint a + sint b + c \<notin> {- (2 ^ 31)..<2 ^ 31})"
    unfolding s [symmetric] by (auto simp: bit_simps)
  have "sint a - sint b - c \<notin> {- (2 ^ 31)..<2 ^ 31} \<longleftrightarrow>
      (sint a < 0 \<longleftrightarrow> \<not> sint b < 0) \<and> (sint a < 0 \<longleftrightarrow> \<not> sint (a - b - word_of_int c) < 0)"
  proof (cases "sint a < 0 \<longleftrightarrow> \<not> sint b < 0")
    case True
    then have "sint a - sint b - c < 0 \<longleftrightarrow> sint a < 0" using assms by auto
    then show ?thesis unfolding w using True overflow_sign [of "sint a - sint b - c"] r assms by auto
  next
    case False
    then show ?thesis using r assms by auto
  qed
  then show "bit ((a XOR b) AND (a XOR (a - b - word_of_int c))) 31 = (sint a - sint b - c \<notin> {- (2 ^ 31)..<2 ^ 31})"
    unfolding s [symmetric] by (auto simp: bit_simps)
qed

text \<open>
  C32: the flag-setting additions and subtractions: the result is exact modulo \<open>2\<^sup>3\<^sup>2\<close>, C is
  the carry out of an addition and the absence of a borrow in a subtraction, with the
  carry in counted, V (bit 31) is signed overflow, and N and Z hold the result.
\<close>

theorem flag_arithmetic:
  "(let (r, e) = helper_add_cc a b env
    in r = a + b \<and> NF e = r \<and> ZF e = r \<and> CF e = flag (2 ^ 32 \<le> uint a + uint b) \<and>
       bit (VF e) 31 = (sint a + sint b \<notin> {- (2 ^ 31)..<2 ^ 31})) \<and>
   (let (r, e) = helper_sub_cc a b env
    in r = a - b \<and> NF e = r \<and> ZF e = r \<and> CF e = flag (uint b \<le> uint a) \<and>
       bit (VF e) 31 = (sint a - sint b \<notin> {- (2 ^ 31)..<2 ^ 31})) \<and>
   (let (r, e) = helper_adc_cc a b env; c = (if CF env = 0 then 0 else 1)
    in r = a + b + word_of_int c \<and> NF e = r \<and> ZF e = r \<and> CF e = flag (2 ^ 32 \<le> uint a + uint b + c) \<and>
       bit (VF e) 31 = (sint a + sint b + c \<notin> {- (2 ^ 31)..<2 ^ 31})) \<and>
   (let (r, e) = helper_sbc_cc a b env; c = (if CF env = 0 then 1 else 0)
    in r = a - b - word_of_int c \<and> NF e = r \<and> ZF e = r \<and> CF e = flag (uint b + c \<le> uint a) \<and>
       bit (VF e) 31 = (sint a - sint b - c \<notin> {- (2 ^ 31)..<2 ^ 31}))"
proof -
  note V = carry_overflow [of 0 a b, simplified] carry_overflow [of 1 a b, simplified]
  show ?thesis
    unfolding helper_add_cc_def helper_sub_cc_def helper_adc_cc_def helper_sbc_cc_def Let_def
    using carry_iff [of a b] borrow_iff [of a b] borrow_iff [of b a] V
    by (cases "CF env = 0") simp_all
qed

section \<open>Lanes\<close>

definition halves :: "u32 \<Rightarrow> u16 list" where
  "halves x = [ucast x, ucast (drop_bit 16 x)]"

definition bytes :: "u32 \<Rightarrow> u8 list" where
  "bytes x = [ucast x, ucast (drop_bit 8 x), ucast (drop_bit 16 x), ucast (drop_bit 24 x)]"

definition lane_spec :: "prefix \<Rightarrow> (int \<Rightarrow> int \<Rightarrow> int) \<Rightarrow> 'a::len word \<Rightarrow> 'a word \<Rightarrow> 'a word" where
  "lane_spec p f a b =
     word_of_int
       (case p of
          PFX_q \<Rightarrow> sclamp (LENGTH('a) - 1) (f (sint a) (sint b))
        | PFX_uq \<Rightarrow> max 0 (min (2 ^ LENGTH('a) - 1) (f (uint a) (uint b)))
        | PFX_s \<Rightarrow> f (sint a) (sint b)
        | PFX_u \<Rightarrow> f (uint a) (uint b)
        | PFX_sh \<Rightarrow> f (sint a) (sint b) div 2
        | PFX_uh \<Rightarrow> f (uint a) (uint b) div 2)"

lemma bit_beyond: "\<not> bit (x :: 'a::len word) n" if "LENGTH('a) \<le> n"
  using that by (auto dest: bit_imp_le_length)

lemma halves_RESULT16:
  "halves (fst (RESULT16 v 1 (RESULT16 w 0 (0, 0)))) = [fst w, fst v]"
  unfolding halves_def RESULT16_def
  by (auto intro!: bit_word_eqI simp: bit_simps bit_beyond)

lemma bytes_RESULT8:
  "bytes (fst (RESULT8 v 3 (RESULT8 w 2 (RESULT8 x 1 (RESULT8 y 0 (0, 0)))))) = [fst y, fst x, fst w, fst v]"
  unfolding bytes_def RESULT8_def
  by (auto intro!: bit_word_eqI simp: bit_simps bit_beyond)

lemma sign_eq: "x AND sign = 0 \<longleftrightarrow> 0 \<le> sint (x :: 'a::len word)"
  using and_2_power_eq_0_iff [of x "LENGTH('a) - 1"] bit_last_iff [of x] by (simp add: sign_def linorder_not_less)

lemma xor_sign_eq: "(x XOR y) AND sign = 0 \<longleftrightarrow> (sint x < 0) = (sint (y :: 'a::len word) < 0)"
  using and_2_power_eq_0_iff [of "x XOR y" "LENGTH('a) - 1"] bit_last_iff [of x] bit_last_iff [of y]
  by (auto simp: sign_def bit_xor_iff)

lemma word_of_int_eqI: "sint x = k \<Longrightarrow> x = word_of_int k"
  by auto

lemma clamp_cases:
  fixes p x :: int
  assumes "0 < p"
  shows "max (- p) (min (p - 1) x) = (if x \<in> {- p..<p} then x else if x < 0 then - p else p - 1)"
  using assms by auto

lemma uclamp_cases:
  fixes p x y :: int
  assumes "0 \<le> x" "x < p" "0 \<le> y" "y < p"
  shows "max 0 (min (p - 1) (x + y)) = (if p \<le> x + y then p - 1 else x + y)"
    "max 0 (min (p - 1) (x - y)) = (if y < x then x - y else 0)"
  using assms by auto

lemma sat_lane:
  fixes a b :: "'a::len word"
  shows "add_sat a b = lane_spec PFX_q (+) a b" "sub_sat a b = lane_spec PFX_q (-) a b"
proof -
  let ?p = "2 ^ top_bit a :: int"
  have l: "LENGTH('a) - 1 = top_bit a" by (simp add: top_bit_def)
  have "2 ^ LENGTH('a) = (2 :: int) * 2 ^ (LENGTH('a) - 1)" by (simp add: power_Suc [symmetric] del: power_Suc)
  then have "- ?p = ?p - 2 ^ LENGTH('a)" by (simp add: top_bit_def)
  then have "word_of_int (- ?p) = (word_of_int (?p - 2 ^ LENGTH('a)) :: 'a word)" by (rule arg_cong)
  also have "\<dots> = 2 ^ (LENGTH('a) - 1)" by (simp add: top_bit_def)
  finally have lim: "sign = (word_of_int (- ?p) :: 'a word)" "sign - 1 = (word_of_int (?p - 1) :: 'a word)"
    unfolding sign_def top_bit_def by simp_all
  note o = signed_overflow [of a b]
  have r: "- ?p \<le> sint a" "sint a < ?p" "- ?p \<le> sint b" "sint b < ?p"
    using sint_range [of a] sint_range [of b] by (simp_all add: top_bit_def)
  have c: "sclamp (top_bit a) x = (if x \<in> {- ?p..<?p} then x else if x < 0 then - ?p else ?p - 1)" for x
    unfolding sclamp_def by (rule clamp_cases) simp
  have w: "a + b = word_of_int (sint a + sint b)" "a - b = word_of_int (sint a - sint b)" by simp_all
  have e: "add_sat a b = (if sint a + sint b \<in> {- ?p..<?p} then a + b else if 0 \<le> sint a then sign - 1 else sign)"
    "sub_sat a b = (if sint a - sint b \<in> {- ?p..<?p} then a - b else if 0 \<le> sint a then sign - 1 else sign)"
    unfolding add_sat_def sub_sat_def Let_def xor_sign_eq o(1,3) unfolding sign_eq by simp_all
  show "add_sat a b = lane_spec PFX_q (+) a b" "sub_sat a b = lane_spec PFX_q (-) a b"
    unfolding e lane_spec_def prefix.case l c w lim(2) unfolding lim(1) using r by auto
qed

lemma usat_lane:
  fixes a b :: "'a::len word"
  shows "add_usat a b = lane_spec PFX_uq (+) a b" "sub_usat a b = lane_spec PFX_uq (-) a b"
proof -
  define p :: int where "p = 2 ^ LENGTH('a)"
  have b: "0 \<le> uint a" "uint a < p" "0 \<le> uint b" "uint b < p" by (simp_all add: p_def)
  have m: "uint (a + b) = (if uint a + uint b < p then uint a + uint b else uint a + uint b - p)"
    using uint_plus_if' [of a b] by (simp add: p_def)
  have "(- 1 :: 'a word) = word_of_int (p - 1)" by (simp add: p_def)
  moreover have "a + b = word_of_int (uint a + uint b)" "a - b = word_of_int (uint a - uint b)" by simp_all
  moreover have "a + b < a \<longleftrightarrow> p \<le> uint a + uint b" unfolding word_less_def m using b by auto
  moreover have "max 0 (min (p - 1) (uint a + uint b)) = (if p \<le> uint a + uint b then p - 1 else uint a + uint b)"
    "max 0 (min (p - 1) (uint a - uint b)) = (if uint b < uint a then uint a - uint b else 0)"
    by (rule uclamp_cases [OF b])+
  ultimately show "add_usat a b = lane_spec PFX_uq (+) a b" "sub_usat a b = lane_spec PFX_uq (-) a b"
    unfolding add_usat_def sub_usat_def lane_spec_def Let_def prefix.case p_def [symmetric]
    by (simp_all add: word_less_def)
qed

text \<open>Sums and differences of lanes of at most 16 bits do not overflow the 32-bit intermediate.\<close>

lemma wide:
  fixes a b :: "'a::len word"
  assumes "LENGTH('a) \<le> 16"
  shows "sint (scast a + scast b :: u32) = sint a + sint b" "sint (scast a - scast b :: u32) = sint a - sint b"
    "uint (ucast a + ucast b :: u32) = uint a + uint b" "uint (ucast a - ucast b :: u32) = (uint a - uint b) mod 2 ^ 32"
proof -
  have "(2 :: int) ^ LENGTH('a) \<le> 65536" "(2 :: int) ^ (LENGTH('a) - 1) \<le> 32768"
    using assms power_increasing [of "LENGTH('a)" 16 "2 :: int"] power_increasing [of "LENGTH('a) - 1" 15 "2 :: int"]
    by simp_all
  moreover have "uint a < 2 ^ LENGTH('a)" "uint b < 2 ^ LENGTH('a)" by simp_all
  moreover have "- (2 ^ (LENGTH('a) - 1)) \<le> sint a" "sint a < 2 ^ (LENGTH('a) - 1)"
    "- (2 ^ (LENGTH('a) - 1)) \<le> sint b" "sint b < 2 ^ (LENGTH('a) - 1)"
    using sint_ge [of a] sint_lt [of a] sint_ge [of b] sint_lt [of b] by simp_all
  ultimately have r: "uint a < 65536" "uint b < 65536" "- 32768 \<le> sint a" "sint a < 32768" "- 32768 \<le> sint b" "sint b < 32768"
    by linarith+
  have c: "sint (scast a :: u32) = sint a" "sint (scast b :: u32) = sint b"
    "uint (ucast a :: u32) = uint a" "uint (ucast b :: u32) = uint b"
    using assms by (simp_all add: sint_up_scast is_up uint_up_ucast)
  show "sint (scast a + scast b :: u32) = sint a + sint b" "sint (scast a - scast b :: u32) = sint a - sint b"
    using signed_overflow(2,4) [of "scast a :: u32" "scast b :: u32"] r by (simp_all add: top_bit_def c)
  show "uint (ucast a + ucast b :: u32) = uint a + uint b" "uint (ucast a - ucast b :: u32) = (uint a - uint b) mod 2 ^ 32"
    using r by (simp_all add: uint_word_ariths c)
qed

lemma of_int_multiple:
  assumes "LENGTH('a::len) \<le> n"
  shows "word_of_int (x + 2 ^ n * k) = (word_of_int x :: 'a word)"
proof -
  have "(2 :: 'a word) ^ n = 0" using assms by (simp only: exp_eq_zero_iff)
  moreover have "word_of_int (x + 2 ^ n * k) = word_of_int x + (2 :: 'a word) ^ n * word_of_int k"
    by (simp only: of_int_add of_int_mult of_int_power of_int_numeral)
  ultimately show ?thesis by (simp only: mult_zero_left add_0_right)
qed

lemma narrow:
  fixes w :: u32
  assumes "LENGTH('a::len) \<le> 32"
  shows "(ucast w :: 'a word) = word_of_int (sint w)" "(ucast w :: 'a word) = word_of_int (uint w)"
proof -
  show u: "(ucast w :: 'a word) = word_of_int (uint w)" by (rule ucast_eq)
  obtain k where "sint w = uint w + 2 ^ 32 * k" using signed_take_bit_wrap [of 31 "uint w"] by (auto simp: sint_uint)
  then show "(ucast w :: 'a word) = word_of_int (sint w)" unfolding u by (simp only: of_int_multiple [OF assms])
qed

lemma half_mod:
  assumes "LENGTH('a::len) \<le> 31"
  shows "word_of_int (x mod 2 ^ 32 div 2) = (word_of_int (x div 2) :: 'a word)"
proof -
  have "x mod 2 ^ 32 = x + (2 ^ 31 * - (x div 2 ^ 32)) * 2" by (simp add: minus_mult_div_eq_mod [symmetric])
  then have "x mod 2 ^ 32 div 2 = x div 2 + 2 ^ 31 * - (x div 2 ^ 32)" by (simp only: div_mult_self1)
  then show ?thesis by (simp only: of_int_multiple [OF assms])
qed

lemma uint_drop: "uint (drop_bit n (x :: u32)) = uint x div 2 ^ n"
  using uint_lt2p [of x] by (simp only: unsigned_drop_bit_eq take_bit_eq_mod drop_bit_eq_div [of n "_ :: int"]) simp

lemma lane_value:
  fixes a b :: "'a::len word"
  assumes "LENGTH('a) \<le> 16"
  shows "fst (lane_add p a b) = lane_spec p (+) a b" "fst (lane_sub p a b) = lane_spec p (-) a b"
proof -
  have l: "LENGTH('a) \<le> 32" "LENGTH('a) \<le> 31" using assms by simp_all
  note n = narrow [OF l(1)] and w = wide [OF assms]
  have d: "uint (drop_bit 1 x) = uint x div 2" for x :: u32 using uint_drop [of 1 x] by simp
  have "(ucast (scast a + scast b :: u32) :: 'a word) = word_of_int (sint a + sint b)"
    "(ucast (scast a - scast b :: u32) :: 'a word) = word_of_int (sint a - sint b)"
    "(ucast (signed_drop_bit 1 (scast a + scast b :: u32)) :: 'a word) = word_of_int ((sint a + sint b) div 2)"
    "(ucast (signed_drop_bit 1 (scast a - scast b :: u32)) :: 'a word) = word_of_int ((sint a - sint b) div 2)"
    unfolding n(1) sint_signed_drop w power_one_right by (rule refl)+
  moreover have "(ucast (ucast a + ucast b :: u32) :: 'a word) = word_of_int (uint a + uint b)"
    "(ucast (ucast a - ucast b :: u32) :: 'a word) = word_of_int (uint a - uint b)"
    "(ucast (drop_bit 1 (ucast a + ucast b :: u32)) :: 'a word) = word_of_int ((uint a + uint b) div 2)"
    "(ucast (drop_bit 1 (ucast a - ucast b :: u32)) :: 'a word) = word_of_int ((uint a - uint b) div 2)"
    unfolding n(2) d w
    using half_mod [OF l(2), of "uint a - uint b"]
      of_int_multiple [OF l(1), of "uint a - uint b" "- ((uint a - uint b) div 2 ^ 32)"]
    by (simp_all add: minus_mult_div_eq_mod [symmetric] take_bit_eq_mod)
  ultimately show "fst (lane_add p a b) = lane_spec p (+) a b" "fst (lane_sub p a b) = lane_spec p (-) a b"
    by (cases p; simp only: lane_add_def lane_sub_def sat_lane usat_lane lane_spec_def prefix.case fst_conv Let_def)+
qed

definition carry_spec :: "prefix \<Rightarrow> 'a::len word \<Rightarrow> 'a word \<Rightarrow> bool" where
  "carry_spec p a b =
     (case p of PFX_s \<Rightarrow> 0 \<le> sint a + sint b | PFX_u \<Rightarrow> 2 ^ LENGTH('a) \<le> uint a + uint b | _ \<Rightarrow> False)"

definition no_borrow_spec :: "prefix \<Rightarrow> 'a::len word \<Rightarrow> 'a word \<Rightarrow> bool" where
  "no_borrow_spec p a b =
     (case p of PFX_s \<Rightarrow> 0 \<le> sint a - sint b | PFX_u \<Rightarrow> uint b \<le> uint a | _ \<Rightarrow> False)"


lemma carry_bit:
  assumes "0 \<le> x" "x < 2 ^ n" "0 \<le> y" "y < (2 :: int) ^ n"
  shows "(x + y) div 2 ^ n = 1 \<longleftrightarrow> 2 ^ n \<le> x + y"
proof (cases "2 ^ n \<le> x + y")
  case True
  then have "(x + y - 2 ^ n) div 2 ^ n = 0" using assms by (intro div_pos_pos_trivial) linarith+
  then show ?thesis using True div_add_self2 [of "2 ^ n" "x + y - 2 ^ n"] by simp
next
  case False
  then have "(x + y) div 2 ^ n = 0" using assms by (intro div_pos_pos_trivial) linarith+
  then show ?thesis using False by simp
qed

lemma lane_flag:
  fixes a b :: "'a::len word"
  assumes "LENGTH('a) \<le> 16"
  shows "snd (lane_add p a b) = carry_spec p a b" "snd (lane_sub p a b) = no_borrow_spec p a b"
proof -
  note w = wide [OF assms]
  note d = uint_drop
  have r: "0 \<le> uint a" "uint a < 2 ^ LENGTH('a)" "0 \<le> uint b" "uint b < 2 ^ LENGTH('a)" by simp_all
  have pw: "(2 :: int) ^ 32 = 4294967296" by simp
  have le: "(2 :: int) ^ LENGTH('a) \<le> 65536" using assms power_increasing [of "LENGTH('a)" 16 "2 :: int"] by simp
  have "drop_bit LENGTH('a) (ucast a + ucast b :: u32) = 1 \<longleftrightarrow> 2 ^ LENGTH('a) \<le> uint a + uint b"
    unfolding word_uint_eq_iff d w uint_1 by (rule carry_bit [OF r])
  moreover have "drop_bit LENGTH('a) (ucast a - ucast b :: u32) = 0 \<longleftrightarrow> uint b \<le> uint a"
  proof (cases "uint b \<le> uint a")
    case True
    then have "(uint a - uint b) mod 2 ^ 32 = uint a - uint b"
      using r le pw by (intro mod_pos_pos_trivial) linarith+
    moreover have "(uint a - uint b) div 2 ^ LENGTH('a) = 0" using True r by (intro div_pos_pos_trivial) linarith+
    ultimately show ?thesis using True by (simp add: word_uint_eq_iff d w)
  next
    case False
    have "(uint a - uint b + 2 ^ 32) mod 2 ^ 32 = uint a - uint b + 2 ^ 32"
      using False r le pw by (intro mod_pos_pos_trivial) linarith+
    then have m: "(uint a - uint b) mod 2 ^ 32 = uint a - uint b + 2 ^ 32" by simp
    have "0 < (uint a - uint b + 2 ^ 32) div 2 ^ LENGTH('a)"
      using r le pw by (subst pos_imp_zdiv_pos_iff) (simp, linarith)
    then show ?thesis using False unfolding word_uint_eq_iff d w m by simp
  qed
  ultimately show "snd (lane_add p a b) = carry_spec p a b" "snd (lane_sub p a b) = no_borrow_spec p a b"
    by (cases p; simp add: lane_add_def lane_sub_def carry_spec_def no_borrow_spec_def Let_def w)+
qed


lemma u8_eqI:
  fixes x y :: u8
  assumes "\<forall>n\<in>set [0, 1, 2, 3, 4, 5, 6, 7]. bit x n = bit y n"
  shows "x = y"
proof (rule bit_word_eqI)
  fix n
  assume "n < LENGTH(8)"
  then have "n \<in> {0, 1, 2, 3, 4, 5, 6, 7}" by auto
  then show "bit x n = bit y n" using assms by auto
qed

text \<open>The byte that SEL takes for a flag: the mask has all bits of the byte or none.\<close>

lemma sel_bytes:
  "bytes (helper_sel_flags ge a b) = map (\<lambda>n. if bit ge n then bytes a ! n else bytes b ! n) [0, 1, 2, 3]"
proof -
  have f: "ge AND 1 = 0 \<longleftrightarrow> \<not> bit ge 0" "ge AND 2 = 0 \<longleftrightarrow> \<not> bit ge 1" "ge AND 4 = 0 \<longleftrightarrow> \<not> bit ge 2"
    "ge AND 8 = 0 \<longleftrightarrow> \<not> bit ge 3"
    using and_2_power_eq_0_iff [of ge 0] and_2_power_eq_0_iff [of ge 1] and_2_power_eq_0_iff [of ge 2]
      and_2_power_eq_0_iff [of ge 3] by simp_all
  show ?thesis
    unfolding bytes_def helper_sel_flags_def Let_def f list.map nth_Cons_numeral nth_Cons_0 list.inject
    by (intro conjI refl; rule u8_eqI; simp add: bit_simps)
qed

lemma ge_RESULT16: "map (bit (snd (RESULT16 v 1 (RESULT16 w 0 (0, 0))))) [0, 1, 2, 3] = [snd w, snd w, snd v, snd v]"
  by (simp add: RESULT16_def bit_simps)

lemma ge_RESULT8:
  "map (bit (snd (RESULT8 v 3 (RESULT8 w 2 (RESULT8 x 1 (RESULT8 y 0 (0, 0))))))) [0, 1, 2, 3] = [snd y, snd x, snd w, snd v]"
  by (simp add: RESULT8_def bit_simps)

text \<open>
  C31: every parallel addition and subtraction, of every prefix, works lane by lane: each
  half or byte of the result is the clamped, wrapped or halved sum or difference of the
  halves or bytes of the operands, no carry crosses a lane, and the exchanging forms pair
  the low half of one operand with the high half of the other.
\<close>

theorem parallel_lanes:
  "halves (fst (helper_add16 p a b)) = map2 (lane_spec p (+)) (halves a) (halves b) \<and>
   halves (fst (helper_sub16 p a b)) = map2 (lane_spec p (-)) (halves a) (halves b) \<and>
   bytes (fst (helper_add8 p a b)) = map2 (lane_spec p (+)) (bytes a) (bytes b) \<and>
   bytes (fst (helper_sub8 p a b)) = map2 (lane_spec p (-)) (bytes a) (bytes b) \<and>
   halves (fst (helper_subaddx p a b)) =
     [lane_spec p (+) (halves a ! 0) (halves b ! 1), lane_spec p (-) (halves a ! 1) (halves b ! 0)] \<and>
   halves (fst (helper_addsubx p a b)) =
     [lane_spec p (-) (halves a ! 0) (halves b ! 1), lane_spec p (+) (halves a ! 1) (halves b ! 0)]"
  by (simp only: helper_add16_def helper_sub16_def helper_add8_def helper_sub8_def helper_subaddx_def helper_addsubx_def
      ADD16_def SUB16_def ADD8_def SUB8_def halves_RESULT16 bytes_RESULT8)
    (simp add: lane_value halves_def bytes_def)

text \<open>
  The GE flags of the parallel operations: for a signed prefix a lane's flags say that the
  exact result is not negative, for an unsigned one that the addition carried or that the
  subtraction did not borrow; SEL then picks, byte by byte, the first operand where the
  flag is set and the second where it is not.
\<close>

theorem parallel_flags:
  "map (bit (snd (helper_add16 p a b))) [0, 1, 2, 3] =
     concat (map2 (\<lambda>x y. [carry_spec p x y, carry_spec p x y]) (halves a) (halves b)) \<and>
   map (bit (snd (helper_sub16 p a b))) [0, 1, 2, 3] =
     concat (map2 (\<lambda>x y. [no_borrow_spec p x y, no_borrow_spec p x y]) (halves a) (halves b)) \<and>
   map (bit (snd (helper_add8 p a b))) [0, 1, 2, 3] = map2 (carry_spec p) (bytes a) (bytes b) \<and>
   map (bit (snd (helper_sub8 p a b))) [0, 1, 2, 3] = map2 (no_borrow_spec p) (bytes a) (bytes b) \<and>
   bytes (helper_sel_flags ge a b) =
     map (\<lambda>n. if bit ge n then bytes a ! n else bytes b ! n) [0, 1, 2, 3]"
  by (simp only: sel_bytes helper_add16_def helper_sub16_def helper_add8_def helper_sub8_def
      ADD16_def SUB16_def ADD8_def SUB8_def ge_RESULT16 ge_RESULT8)
    (simp add: lane_flag halves_def bytes_def)

section \<open>Shifts, bit reversal and the user bank\<close>

lemma bit_twice: "bit (y * 2 :: u32) n \<longleftrightarrow> 0 < n \<and> n < 32 \<and> bit y (n - 1)"
  using bit_push_bit_iff [of 1 y n] by (auto simp: push_bit_eq_mult dest: bit_imp_le_length)

lemma bit_rbit_small:
  "\<forall>n\<in>set [0, 1, 2, 3, 4, 5, 6, 7, 8, 9, 10, 11, 12, 13, 14, 15, 16, 17, 18, 19, 20, 21, 22, 23, 24, 25,
     26, 27, 28, 29, 30, 31]. bit (helper_rbit x) n = bit x (31 - n)"
  unfolding helper_rbit_def Let_def by (simp add: bit_simps bit_twice)

lemma and_1_flag: "x AND 1 = flag (bit x 0)"
  by (rule u32_eqI) (simp add: bit_simps flag_def)

lemma shift_values:
  fixes x :: u32
  shows "uint (if 32 \<le> n then 0 else push_bit n x) = uint x * 2 ^ n mod 2 ^ 32"
    "uint (if 32 \<le> n then 0 else drop_bit n x) = uint x div 2 ^ n"
    "sint (signed_drop_bit (if 32 \<le> n then 31 else n) x) = sint x div 2 ^ n"
proof -
  have u: "uint x < 2 ^ 32" using uint_lt2p [of x] by simp
  have "(2 :: int) ^ 32 dvd 2 ^ n" if "32 \<le> n" using that by (rule le_imp_power_dvd)
  then show "uint (if 32 \<le> n then 0 else push_bit n x) = uint x * 2 ^ n mod 2 ^ 32"
    by (simp add: unsigned_push_bit_eq push_bit_eq_mult [of _ "uint x"] take_bit_eq_mod)
  have p: "(2 :: int) ^ m \<le> 2 ^ n" if "m \<le> n" for m using that by (rule power_increasing) simp
  have "uint x div 2 ^ n = 0" if "32 \<le> n" using u p [OF that] by (intro div_pos_pos_trivial) (simp, linarith)
  then show "uint (if 32 \<le> n then 0 else drop_bit n x) = uint x div 2 ^ n"
    by (simp add: uint_drop)
  have r: "- (2 ^ 31) \<le> sint x" "sint x < 2 ^ 31" using sint_range [of x] by (simp_all add: top_bit_def)
  have neg: "sint x div 2 ^ m = (if sint x < 0 then - 1 else 0)" if "31 \<le> m" for m
  proof -
    have "(2 :: int) ^ 31 \<le> 2 ^ m" using that by (rule power_increasing) simp
    then have "sint x div 2 ^ m = 0" if "0 \<le> sint x" using r that by (intro div_pos_pos_trivial) linarith+
    moreover have "(sint x + 2 ^ m) div 2 ^ m = 0" if "sint x < 0"
      using r that \<open>2 ^ 31 \<le> 2 ^ m\<close> by (intro div_pos_pos_trivial) linarith+
    ultimately show ?thesis using div_add_self2 [of "2 ^ m" "sint x"] by auto
  qed
  show "sint (signed_drop_bit (if 32 \<le> n then 31 else n) x) = sint x div 2 ^ n"
    using neg [of 31] neg [of n] by (simp add: sint_signed_drop)
qed

lemma shift_carries:
  fixes x :: u32
  shows "bit (uint x * 2 ^ n) 32 \<longleftrightarrow> n \<le> 32 \<and> n \<noteq> 0 \<and> bit x (32 - n)"
    "bit (uint x) m \<longleftrightarrow> m < 32 \<and> bit x m" "bit (sint x) m \<longleftrightarrow> bit x (min m 31)"
  using bit_imp_le_length [of x m] bit_imp_le_length [of x 32]
  by (auto simp: bit_simps push_bit_eq_mult [symmetric] bit_sint_iff bit_uint_iff min_def intro!: gr0I)

text \<open>
  The register-controlled shifts take the low byte of the shift register: a left shift
  multiplies modulo \<open>2\<^sup>3\<^sup>2\<close>, a logical and an arithmetic right shift divide the unsigned and the
  signed value rounding down, for every amount up to 255, the flag-setting forms agree with
  them, and C receives the last bit shifted out and is kept by a shift of zero.
\<close>

theorem shifts_exact:
  "let n = unat (i AND 0xff)
   in uint (helper_shl x i) = uint x * 2 ^ n mod 2 ^ 32 \<and>
      uint (helper_shr x i) = uint x div 2 ^ n \<and>
      sint (helper_sar x i) = sint x div 2 ^ n \<and>
      helper_shl_cc x i env = (helper_shl x i, if n = 0 then env else env\<lparr>CF := flag (bit (uint x * 2 ^ n) 32)\<rparr>) \<and>
      helper_shr_cc x i env = (helper_shr x i, if n = 0 then env else env\<lparr>CF := flag (bit (uint x) (n - 1))\<rparr>) \<and>
      helper_sar_cc x i env = (helper_sar x i, if n = 0 then env else env\<lparr>CF := flag (bit (sint x) (n - 1))\<rparr>)"
proof -
  have b: "drop_bit k x AND 1 = flag (bit x k)" for k by (simp add: and_1_flag bit_drop_bit_eq)
  define n where "n = unat (i AND 0xff)"
  have "n = 0 \<or> 0 < n \<and> n < 32 \<or> n = 32 \<or> 32 < n" by linarith
  then show ?thesis
    unfolding Let_def helper_shl_def helper_shr_def helper_sar_def helper_shl_cc_def helper_shr_cc_def helper_sar_cc_def
      shift_amount_def shift_values shift_carries b and_1_flag [of x] n_def [symmetric]
    by (elim disjE) (auto simp: flag_def)
qed

text \<open>
  RBIT reverses the 32 bits of its operand.
\<close>

theorem rbit_reverses: "bit (helper_rbit x) n \<longleftrightarrow> n < 32 \<and> bit x (31 - n)"
proof (cases "n < 32")
  case True
  then have "n \<in> set [0..<32]" by simp
  also have "[0..<32] = [0, 1, 2, 3, 4, 5, 6, 7, 8, 9, 10, 11, 12, 13, 14, 15, 16, 17, 18, 19, 20, 21, 22, 23, 24, 25,
    26, 27, 28, 29, 30, 31]" by code_simp
  finally show ?thesis using bit_rbit_small [of x] True by blast
next
  case False
  then show ?thesis by (auto dest: bit_imp_le_length)
qed

text \<open>
  LDM and STM with the user-bank registers, from any mode: a register written reads back,
  and no other user register changes.
\<close>

theorem user_reg_write_read:
  "bindE (helper_set_user_reg n v env) (helper_get_user_reg m) =
     bindE (helper_set_user_reg n v env) (\<lambda>env'. if m = n then Inr v else helper_get_user_reg m env)"
  by (auto simp: helper_set_user_reg_def helper_get_user_reg_def set_reg_def)

end
