(* ===== verification/Systick.thy ===== *)
theory Systick
  imports Nvic
begin

text \<open>
  The SysTick timer of \<open>hw/armv7m_nvic.c\<close> on the timers of \<open>qemu-timer.c\<close>: what one tick
  does, that a late timer catches up in finitely many ticks, and the settings for which the
  loop that runs the timers never ends.
\<close>

section \<open>One tick\<close>

text \<open>
  SysTick is set up with its timer first in line: nothing else waits on the virtual clock,
  and the timer is armed for the time the controller keeps as its tick.
\<close>

definition period :: "machine \<Rightarrow> int" where
  "period m = uint (systick_reload_value (nvic m) + 1) * systick_scale m"

definition systick_armed :: "timer_state \<Rightarrow> machine \<Rightarrow> bool" where
  "systick_armed t m \<longleftrightarrow> machine_ok m \<and> alarm_has_dynticks t \<and>
     active t QEMU_CLOCK_VIRTUAL = [systick_timer (nvic m)] \<and>
     timer_clock (timers t (systick_timer (nvic m))) = QEMU_CLOCK_VIRTUAL \<and>
     timer_scale (timers t (systick_timer (nvic m))) = 1 \<and>
     expire_time (timers t (systick_timer (nvic m))) = systick_tick (nvic m) \<and>
     systick_reload_value (nvic m) \<noteq> 0"

text \<open>The callback of the timer; the record of the timers is the one the run loop works on.\<close>

definition systick_cb :: "nat \<Rightarrow> timer_state \<times> machine \<Rightarrow> (timer_state \<times> machine) res" where
  "systick_cb i = (\<lambda>(t, m). bindE (systick_timer_tick (m\<lparr>tmr := t\<rparr>)) (\<lambda>m. Inr (tmr m, m)))"

lemma set_pending_succeeds:
  assumes "machine_ok m" "e < 80"
  obtains g c where "armv7m_nvic_set_pending (int e) m = Inr (upd_gic (\<lambda>_. g) (m\<lparr>cpu := c\<rparr>))"
    "irq_pending (irq_state g ! gic_number e)"
proof -
  define i where "i = gic_number e"
  define g where "g = the_gic (nvic m)"
  have i: "i < GIC_NIRQ" "(if int e \<ge> 16 then int e + 16 else int e) = int i"
    using assms(2) by (auto simp: i_def gic_number_def GIC_NIRQ_def)
  have len: "length (irq_state g) = GIC_NIRQ" and w: "wired (upd_irq i (irq_pending_update (\<lambda>_. True)) g)"
    using assms(1) by (auto simp: machine_ok_def gic_ok_def stack_ok_def gic_sizes_def g_def)
  have "\<exists>g' c. gic_set_pending_private (int i) (g, Inr (cpu m)) = Inr (g', Inr c) \<and> irq_pending (irq_state g' ! i)"
  proof (cases "irq_pending (irq_state g ! i)")
    case True
    then show ?thesis using i(1) by (simp add: gic_set_pending_private_def)
  next
    case False
    then show ?thesis using i(1) len gic_update_wired [OF w, of "cpu m"] by (simp add: gic_set_pending_private_def nth_upd_irq)
  qed
  then obtain g' c where "gic_set_pending_private (int i) (g, Inr (cpu m)) = Inr (g', Inr c)" "irq_pending (irq_state g' ! i)"
    by blast
  then show ?thesis using that [of g' c] unfolding armv7m_nvic_set_pending_def Let_def i(2)
    by (simp add: on_gic_def g_def [symmetric] put_gic_def i_def)
qed

lemma s64_id: "- (2 ^ 63) \<le> x \<Longrightarrow> x < 2 ^ 63 \<Longrightarrow> s64 x = x"
  by (simp add: s64_def signed_take_bit_int_eq_self)

lemma upd_nvic_fields [simp]:
  "nvic (upd_nvic f m) = f (nvic m)" "cpu (upd_nvic f m) = cpu m" "tmr (upd_nvic f m) = tmr m"
  "system_clock_scale (upd_nvic f m) = system_clock_scale m"
  by (simp_all add: upd_nvic_def)

lemma countflag_keeps:
  fixes x :: u32
  shows "(x OR SYSTICK_COUNTFLAG) AND SYSTICK_CLKSOURCE = x AND SYSTICK_CLKSOURCE"
    "(x OR SYSTICK_COUNTFLAG) AND SYSTICK_TICKINT = x AND SYSTICK_TICKINT"
  by (intro u32_eqI; simp add: SYSTICK_COUNTFLAG_def SYSTICK_CLKSOURCE_def SYSTICK_TICKINT_def bit_simps)+

lemma systick_tick_once:
  assumes "systick_armed t m" "0 \<le> systick_tick (nvic m)" "0 \<le> period m" "systick_tick (nvic m) + period m < 2 ^ 63"
  defines "u \<equiv> upd_clock QEMU_CLOCK_VIRTUAL (\<lambda>k. k\<lparr>active_timers := tl (active_timers k)\<rparr>) t"
  obtains t' m' where "systick_cb (systick_timer (nvic m)) (u, m) = Inr (t', m')" "systick_armed t' m'"
    "systick_tick (nvic m') = systick_tick (nvic m) + period m" "period m' = period m"
    "clock_reads t' = clock_reads t" "systick_control (nvic m') = systick_control (nvic m) OR SYSTICK_COUNTFLAG"
    "systick_control (nvic m) AND SYSTICK_TICKINT \<noteq> 0 \<Longrightarrow>
       irq_pending (irq_state (the_gic (nvic m')) ! ARMV7M_EXCP_SYSTICK)"
proof -
  let ?i = "systick_timer (nvic m)"
  define n where "n = upd_nvic (\<lambda>v. v\<lparr>systick_control := systick_control v OR SYSTICK_COUNTFLAG\<rparr>) (m\<lparr>tmr := u\<rparr>)"
  have n_ok: "machine_ok n" using assms(1) same_gic_ok [of m n] by (simp add: n_def systick_armed_def)
  obtain g c where sp: "armv7m_nvic_set_pending (int ARMV7M_EXCP_SYSTICK) n = Inr (upd_gic (\<lambda>_. g) (n\<lparr>cpu := c\<rparr>))"
      "irq_pending (irq_state g ! ARMV7M_EXCP_SYSTICK)"
    using set_pending_succeeds [OF n_ok, of ARMV7M_EXCP_SYSTICK] by (auto simp: ARMV7M_EXCP_SYSTICK_def gic_number_def)
  define k where "k = (if systick_control (nvic n) AND SYSTICK_TICKINT \<noteq> 0 then upd_gic (\<lambda>_. g) (n\<lparr>cpu := c\<rparr>) else n)"
  have step: "(if systick_control (nvic n) AND SYSTICK_TICKINT \<noteq> 0
      then armv7m_nvic_set_pending (int ARMV7M_EXCP_SYSTICK) n else Inr n) = Inr k" using sp(1) by (simp add: k_def)
  have k_ok: "machine_ok k" using n_ok sp(1) set_pending_ok by (auto simp: k_def)
  have k: "systick_control (nvic k) = systick_control (nvic m) OR SYSTICK_COUNTFLAG" "systick_tick (nvic k) = systick_tick (nvic m)"
    "systick_reload_value (nvic k) = systick_reload_value (nvic m)" "systick_timer (nvic k) = ?i" "tmr k = u"
    "systick_scale k = systick_scale m" "system_clock_scale k = system_clock_scale m"
    by (simp_all add: k_def n_def systick_scale_def countflag_keeps)
  define e where "e = systick_tick (nvic m) + period m"
  have s64: "s64 (uint (systick_reload_value (nvic m) + 1) * systick_scale m) = period m" "s64 e = e" "s64 (e * 1) = e"
    using assms(2-4) by (auto simp: period_def [symmetric] e_def intro!: s64_id)
  have u: "active u QEMU_CLOCK_VIRTUAL = []" "timers u = timers t" "alarm_has_dynticks u" "clock_reads u = clock_reads t"
    using assms(1) by (simp_all add: u_def upd_clock_def systick_armed_def)
  obtain t' where t': "qemu_mod_timer_ns ?i e u = Inr t'" "same_timers (insert_timer ?i e (qemu_del_timer ?i u)) t'"
    "alarm_has_dynticks t'" by (rule mod_timer_succeeds [OF u(3)])
  define m' where "m' = (upd_nvic (\<lambda>v. v\<lparr>systick_tick := e\<rparr>) k)\<lparr>tmr := t'\<rparr>"
  have sc: "timer_scale (timers u ?i) = 1" using assms(1) u by (simp add: systick_armed_def)
  have "systick_reload False k = Inr m'"
    using t'(1) s64 sc
    by (simp add: systick_reload_def systick_mod_timer_def Let_def k qemu_mod_timer_def e_def [symmetric] m'_def)
  then have "systick_timer_tick (m\<lparr>tmr := u\<rparr>) = Inr m'"
    using step assms(1) k(3) unfolding systick_timer_tick_def Let_def n_def [symmetric]
    by (simp add: systick_armed_def)
  then have cb: "systick_cb ?i (u, m) = Inr (t', m')" by (simp add: systick_cb_def m'_def)
  have m': "systick_tick (nvic m') = e" "systick_reload_value (nvic m') = systick_reload_value (nvic m)"
    "systick_timer (nvic m') = ?i" "systick_scale m' = systick_scale m"
    "systick_control (nvic m') = systick_control (nvic m) OR SYSTICK_COUNTFLAG"
    using k by (simp_all add: m'_def systick_scale_def countflag_keeps)
  have ok': "machine_ok m'" using k_ok same_gic_ok [of k m'] by (simp add: m'_def)
  have armed: "systick_armed t' m'"
    using assms(1) t'(2,3) u ok' m'
    by (auto simp: systick_armed_def same_timers_def insert_timer_def del_timer_simps upd_timer_def upd_clock_def)
  have "clock_reads t' = clock_reads t" using t'(2) u(4)
    by (simp add: same_timers_def insert_timer_def qemu_del_timer_def upd_timer_def upd_clock_def)
  moreover have "systick_control (nvic m) AND SYSTICK_TICKINT \<noteq> 0 \<Longrightarrow>
      irq_pending (irq_state (the_gic (nvic m')) ! ARMV7M_EXCP_SYSTICK)"
    using sp(2) by (simp add: m'_def k_def n_def countflag_keeps)
  ultimately show ?thesis using that [OF cb armed] m' by (simp add: e_def period_def)
qed

section \<open>Running the timers\<close>

lemma run_expired_step:
  assumes "systick_armed t m"
  shows "run_expired (Suc n) systick_cb QEMU_CLOCK_VIRTUAL now (t, m) =
    (if now < systick_tick (nvic m) then Inr (t, m)
     else bindE (systick_cb (systick_timer (nvic m))
            (upd_clock QEMU_CLOCK_VIRTUAL (\<lambda>k. k\<lparr>active_timers := tl (active_timers k)\<rparr>) t, m))
          (run_expired n systick_cb QEMU_CLOCK_VIRTUAL now))"
  using assms by (auto simp: systick_armed_def qemu_timer_expired_ns_def)

lemma run_timers_virtual:
  assumes "clock_enabled (clocks t QEMU_CLOCK_VIRTUAL)"
  shows "qemu_run_timers n cb QEMU_CLOCK_VIRTUAL (t, m) =
    run_expired n cb QEMU_CLOCK_VIRTUAL (clock_reads t QEMU_CLOCK_VIRTUAL) (t, m)"
  using assms by (simp add: qemu_run_timers_def qemu_get_clock_ns_def Let_def)

definition ticks_due :: "int \<Rightarrow> machine \<Rightarrow> nat" where
  "ticks_due now m = (if now < systick_tick (nvic m) then 0 else nat ((now - systick_tick (nvic m)) div period m) + 1)"

lemma catch_up:
  assumes "systick_armed t m" "0 < period m" "0 \<le> systick_tick (nvic m)" "now + period m < 2 ^ 63" "ticks_due now m < n"
  shows "\<exists>t' m'. run_expired n systick_cb QEMU_CLOCK_VIRTUAL now (t, m) = Inr (t', m') \<and> systick_armed t' m' \<and>
    now < systick_tick (nvic m') \<and> systick_tick (nvic m') = systick_tick (nvic m) + int (ticks_due now m) * period m"
  using assms
proof (induction n arbitrary: t m)
  case (Suc n)
  let ?e = "systick_tick (nvic m)"
  show ?case
  proof (cases "now < ?e")
    case True
    then show ?thesis using run_expired_step [OF Suc.prems(1), of n now] Suc.prems(1) by (simp add: ticks_due_def)
  next
    case False
    obtain t' m' where c: "systick_cb (systick_timer (nvic m))
        (upd_clock QEMU_CLOCK_VIRTUAL (\<lambda>k. k\<lparr>active_timers := tl (active_timers k)\<rparr>) t, m) = Inr (t', m')"
      and m': "systick_armed t' m'" "systick_tick (nvic m') = ?e + period m" "period m' = period m"
      by (rule systick_tick_once [OF Suc.prems(1,3)]) (use Suc.prems(2,4) False in auto)
    have "(now - (?e + period m)) div period m = (now - ?e) div period m - 1"
      using Suc.prems(2) div_add_self2 [of "period m" "now - (?e + period m)"] by (simp add: algebra_simps)
    moreover have "(now - ?e) div period m = 0" if "now - ?e < period m" using that False by simp
    moreover have "1 \<le> (now - ?e) div period m" if "period m \<le> now - ?e"
      using that Suc.prems(2) by (simp add: pos_imp_zdiv_pos_iff int_one_le_iff_zero_less)
    ultimately have d: "ticks_due now m = Suc (ticks_due now m')" using False m' by (auto simp: ticks_due_def)
    have "\<exists>t'' m''. run_expired n systick_cb QEMU_CLOCK_VIRTUAL now (t', m') = Inr (t'', m'') \<and> systick_armed t'' m'' \<and>
        now < systick_tick (nvic m'') \<and> systick_tick (nvic m'') = systick_tick (nvic m') + int (ticks_due now m') * period m'"
      using Suc.prems d m' by (intro Suc.IH) auto
    then show ?thesis using run_expired_step [OF Suc.prems(1), of n now] False c d m' by (auto simp: algebra_simps)
  qed
qed simp

text \<open>
  C18: SysTick catches up. SysTick is armed and its timer the only one on the virtual clock, with a reload value and a period
  that are not zero, on a host alarm that can be re-armed (dynticks), and the times fit 64 bits: however late the timers run, the loop ends after as many ticks as
  periods have passed (that fuel, plus one, is enough), the timer is armed again for a time
  that has not passed, and that time is a whole number of periods after the old one, so no
  drift accumulates.
\<close>

theorem systick_catches_up:
  assumes "systick_armed t m" "0 < period m" "0 \<le> systick_tick (nvic m)" "clock_enabled (clocks t QEMU_CLOCK_VIRTUAL)"
    and "clock_reads t QEMU_CLOCK_VIRTUAL + period m < 2 ^ 63" "ticks_due (clock_reads t QEMU_CLOCK_VIRTUAL) m < n"
  shows "\<exists>t' m'. qemu_run_timers n systick_cb QEMU_CLOCK_VIRTUAL (t, m) = Inr (t', m') \<and> systick_armed t' m' \<and>
    clock_reads t QEMU_CLOCK_VIRTUAL < systick_tick (nvic m') \<and>
    systick_tick (nvic m') = systick_tick (nvic m) + int (ticks_due (clock_reads t QEMU_CLOCK_VIRTUAL) m) * period m"
  unfolding run_timers_virtual [OF assms(4)] by (rule catch_up [OF assms(1-3,5,6)])

lemma never_ends:
  assumes "systick_armed t m" "period m = 0" "0 \<le> systick_tick (nvic m)" "systick_tick (nvic m) \<le> now" "now < 2 ^ 63"
  shows "run_expired n systick_cb QEMU_CLOCK_VIRTUAL now (t, m) = Inl (no_termination ''qemu_run_timers'')"
  using assms
proof (induction n arbitrary: t m)
  case (Suc n)
  obtain t' m' where "systick_cb (systick_timer (nvic m))
      (upd_clock QEMU_CLOCK_VIRTUAL (\<lambda>k. k\<lparr>active_timers := tl (active_timers k)\<rparr>) t, m) = Inr (t', m')"
    and "systick_armed t' m'" "systick_tick (nvic m') = systick_tick (nvic m)" "period m' = 0"
    by (rule systick_tick_once [OF Suc.prems(1,3)]) (use Suc.prems(2,4,5) in auto)
  then show ?case using Suc.IH [of t' m'] Suc.prems run_expired_step [OF Suc.prems(1), of n now] by simp
qed simp

text \<open>
  C39: with a period of zero the run loop never ends, when SysTick is armed with a reload value that is not zero, its timer the only
  one on the virtual clock, on a host alarm that can be re-armed (dynticks), and is due: the tick re-arms the timer for the same
  time, which stays due. The period is zero when the processor clock is selected and
  \<open>system_clock_scale\<close> was never set, and when the reload value is 0xffffffff.
\<close>

theorem systick_never_ends:
  assumes "systick_armed t m" "systick_scale m = 0 \<or> systick_reload_value (nvic m) = 0xffffffff"
    and "clock_enabled (clocks t QEMU_CLOCK_VIRTUAL)" "0 \<le> systick_tick (nvic m)"
    and "systick_tick (nvic m) \<le> clock_reads t QEMU_CLOCK_VIRTUAL" "clock_reads t QEMU_CLOCK_VIRTUAL < 2 ^ 63"
  shows "qemu_run_timers n systick_cb QEMU_CLOCK_VIRTUAL (t, m) = Inl (no_termination ''qemu_run_timers'')"
proof -
  have "period m = 0" using assms(2) by (auto simp: period_def)
  then show ?thesis unfolding run_timers_virtual [OF assms(3)] using assms(1,4-6) by (intro never_ends)
qed

section \<open>A guest that starts SysTick\<close>

text \<open>The board after reset, with the reload value and then the control register written.\<close>

definition start_systick :: "u32 \<Rightarrow> u32 \<Rightarrow> machine res" where
  "start_systick reload ctl =
     bindE (gic_dist_writel 0x14 reload (armv7m_nvic_init 7 blank_cpu blank_timers)) (gic_dist_writel 0x10 ctl)"

lemma start_systick_armed:
  assumes "start_systick reload ctl = Inr m"
  shows "machine_ok m"
proof -
  have "machine_ok (armv7m_nvic_init 7 blank_cpu blank_timers)" by (rule machine_ok_init) (simp add: blank_cpu_def)
  then show ?thesis using assms writel_ok [of 20] writel_ok [of 16] by (auto simp: start_systick_def write_allowed_low)
qed

theorem systick_catches_up_witness:
  "\<exists>m t' m'. start_systick 9 3 = Inr m \<and>
     qemu_run_timers 5 systick_cb QEMU_CLOCK_VIRTUAL ((tmr m)\<lparr>clock_reads := (\<lambda>_. 35000)\<rparr>, m) = Inr (t', m') \<and>
     systick_tick (nvic m') = 40000"
proof -
  have "case start_systick 9 3 of Inl e \<Rightarrow> False | Inr m \<Rightarrow> systick_tick (nvic m) = 10000 \<and> period m = 10000 \<and>
      systick_timer (nvic m) = 7 \<and> systick_reload_value (nvic m) = 9 \<and> alarm_has_dynticks (tmr m) \<and>
      active (tmr m) QEMU_CLOCK_VIRTUAL = [7] \<and> timers (tmr m) 7 = \<lparr>timer_clock = QEMU_CLOCK_VIRTUAL, expire_time = 10000, timer_scale = 1\<rparr> \<and>
      clock_enabled (clocks (tmr m) QEMU_CLOCK_VIRTUAL)"
    by code_simp
  then obtain m where m: "start_systick 9 3 = Inr m" "systick_tick (nvic m) = 10000" "period m = 10000"
      "systick_timer (nvic m) = 7" "systick_reload_value (nvic m) = 9" "alarm_has_dynticks (tmr m)"
      "active (tmr m) QEMU_CLOCK_VIRTUAL = [7]" "timers (tmr m) 7 = \<lparr>timer_clock = QEMU_CLOCK_VIRTUAL, expire_time = 10000, timer_scale = 1\<rparr>"
      "clock_enabled (clocks (tmr m) QEMU_CLOCK_VIRTUAL)"
    by (auto split: sum.splits)
  have "systick_armed ((tmr m)\<lparr>clock_reads := (\<lambda>_. 35000)\<rparr>) m"
    using m start_systick_armed [OF m(1)] by (simp add: systick_armed_def)
  then have "\<exists>t' m'. qemu_run_timers 5 systick_cb QEMU_CLOCK_VIRTUAL ((tmr m)\<lparr>clock_reads := (\<lambda>_. 35000)\<rparr>, m) = Inr (t', m') \<and>
      systick_tick (nvic m') = 40000"
    using systick_catches_up [of "(tmr m)\<lparr>clock_reads := (\<lambda>_. 35000)\<rparr>" m 5] m by (auto simp: ticks_due_def)
  then show ?thesis using m(1) by blast
qed

theorem systick_never_ends_witness:
  "\<exists>m. start_systick 9 7 = Inr m \<and>
     (\<forall>n. qemu_run_timers n systick_cb QEMU_CLOCK_VIRTUAL (tmr m, m) = Inl (no_termination ''qemu_run_timers''))"
proof -
  have "case start_systick 9 7 of Inl e \<Rightarrow> False | Inr m \<Rightarrow> systick_tick (nvic m) = 0 \<and> systick_scale m = 0 \<and>
      systick_timer (nvic m) = 7 \<and> systick_reload_value (nvic m) = 9 \<and> alarm_has_dynticks (tmr m) \<and>
      active (tmr m) QEMU_CLOCK_VIRTUAL = [7] \<and> timers (tmr m) 7 = \<lparr>timer_clock = QEMU_CLOCK_VIRTUAL, expire_time = 0, timer_scale = 1\<rparr> \<and>
      clock_enabled (clocks (tmr m) QEMU_CLOCK_VIRTUAL) \<and> clock_reads (tmr m) QEMU_CLOCK_VIRTUAL = 0"
    by code_simp
  then obtain m where m: "start_systick 9 7 = Inr m" "systick_tick (nvic m) = 0" "systick_scale m = 0"
      "systick_timer (nvic m) = 7" "systick_reload_value (nvic m) = 9" "alarm_has_dynticks (tmr m)"
      "active (tmr m) QEMU_CLOCK_VIRTUAL = [7]" "timers (tmr m) 7 = \<lparr>timer_clock = QEMU_CLOCK_VIRTUAL, expire_time = 0, timer_scale = 1\<rparr>"
      "clock_enabled (clocks (tmr m) QEMU_CLOCK_VIRTUAL)" "clock_reads (tmr m) QEMU_CLOCK_VIRTUAL = 0"
    by (auto split: sum.splits)
  have "systick_armed (tmr m) m" using m start_systick_armed [OF m(1)] by (simp add: systick_armed_def)
  then show ?thesis using systick_never_ends [of "tmr m" m] m by auto
qed

end
