(* ===== verification/Qemu_File.thy ===== *)
theory Qemu_File
  imports Prelude
begin

text \<open>
  The byte streams of savevm (\<open>savevm.c\<close>): \<open>QEMUFile\<close> buffers the bytes between the savers
  and loaders of devices and a back end, a pair of functions that move blocks. The back end's
  own state is the type variable \<open>'b\<close>; \<open>FILE\<close> is a sequence of bytes with a position, and the
  functions of the C library on it succeed. \<open>EINVAL\<close> is 22, \<open>EIO\<close> 5 and \<open>EAGAIN\<close> 11.
\<close>

section \<open>Files\<close>

definition IO_BUF_SIZE :: nat where "IO_BUF_SIZE = 32768"

text \<open>A back end's \<open>put_buffer\<close> gets the bytes and the position, its \<open>get_buffer\<close> the position
  and the most bytes it may store, and returns the bytes it stored with its result.\<close>

record 'b QEMUFile =
  put_buffer :: "('b \<Rightarrow> u8 list \<Rightarrow> int \<Rightarrow> int \<times> 'b) option"
  get_buffer :: "('b \<Rightarrow> int \<Rightarrow> nat \<Rightarrow> int \<times> u8 list \<times> 'b) option"
  back_end :: 'b
  is_write :: bool
  buf_offset :: int
  buf_index :: nat
  buf_size :: nat
  buf :: "nat \<Rightarrow> u8"
  last_error :: int

definition qemu_fopen_ops ::
  "'b \<Rightarrow> ('b \<Rightarrow> u8 list \<Rightarrow> int \<Rightarrow> int \<times> 'b) option \<Rightarrow> ('b \<Rightarrow> int \<Rightarrow> nat \<Rightarrow> int \<times> u8 list \<times> 'b) option \<Rightarrow>
   'b QEMUFile" where
  "qemu_fopen_ops opq pb gb =
     \<lparr>put_buffer = pb, get_buffer = gb, back_end = opq, is_write = False, buf_offset = 0, buf_index = 0,
      buf_size = 0, buf = (\<lambda>_. 0), last_error = 0\<rparr>"

text \<open>\<open>memcpy\<close> of bytes to a place in the buffer.\<close>

definition store_bytes :: "nat \<Rightarrow> u8 list \<Rightarrow> (nat \<Rightarrow> u8) \<Rightarrow> nat \<Rightarrow> u8" where
  "store_bytes at bs m i = (if at \<le> i \<and> i < at + length bs then bs ! (i - at) else m i)"

definition qemu_fflush :: "'b QEMUFile \<Rightarrow> 'b QEMUFile" where
  "qemu_fflush f =
     (case put_buffer f of
        None \<Rightarrow> f
      | Some put \<Rightarrow>
          if is_write f \<and> 0 < buf_index f then
            (case put (back_end f) (map (buf f) [0..<buf_index f]) (buf_offset f) of (len, b) \<Rightarrow>
               let f = f\<lparr>back_end := b\<rparr>;
                   f = (if 0 < len then f\<lparr>buf_offset := buf_offset f + int (buf_index f)\<rparr> else f\<lparr>last_error := - 22\<rparr>)
               in f\<lparr>buf_index := 0\<rparr>)
          else f)"

definition qemu_fill_buffer :: "'b QEMUFile \<Rightarrow> 'b QEMUFile res" where
  "qemu_fill_buffer f =
     (case get_buffer f of
        None \<Rightarrow> Inr f
      | Some get \<Rightarrow>
          if is_write f then Inl (aborted ''qemu_fill_buffer'')
          else let pend = buf_size f - buf_index f;
                   f = f\<lparr>buf := (if 0 < pend then store_bytes 0 (map (\<lambda>i. buf f (buf_index f + i)) [0..<pend]) (buf f) else buf f),
                         buf_index := 0, buf_size := pend\<rparr>
          in (case get (back_end f) (buf_offset f) (IO_BUF_SIZE - pend) of (len, bs, b) \<Rightarrow>
               let f = f\<lparr>back_end := b, buf := store_bytes pend bs (buf f)\<rparr>
               in Inr (if 0 < len then f\<lparr>buf_size := buf_size f + nat len, buf_offset := buf_offset f + len\<rparr>
                       else if len = 0 then f\<lparr>last_error := - 5\<rparr>
                       else if len \<noteq> - 11 then f\<lparr>last_error := len\<rparr> else f)))"

section \<open>Writing\<close>

definition write_guard :: "'b QEMUFile \<Rightarrow> bool" where
  "write_guard f \<longleftrightarrow> last_error f = 0 \<and> \<not> is_write f \<and> 0 < buf_index f"

text \<open>The loop of \<open>qemu_put_buffer\<close>; it makes no progress when the buffer is full and cannot
  be flushed.\<close>

fun put_loop :: "nat \<Rightarrow> u8 list \<Rightarrow> 'b QEMUFile \<Rightarrow> 'b QEMUFile res" where
  "put_loop 0 bs f = Inl (no_termination ''qemu_put_buffer'')"
| "put_loop (Suc n) bs f =
     (if last_error f = 0 \<and> bs \<noteq> [] then
        let l = min (IO_BUF_SIZE - buf_index f) (length bs);
            f = f\<lparr>buf := store_bytes (buf_index f) (take l bs) (buf f), is_write := True, buf_index := buf_index f + l\<rparr>
        in put_loop n (drop l bs) (if IO_BUF_SIZE \<le> buf_index f then qemu_fflush f else f)
      else Inr f)"

definition qemu_put_buffer :: "nat \<Rightarrow> u8 list \<Rightarrow> 'b QEMUFile \<Rightarrow> 'b QEMUFile res" where
  "qemu_put_buffer fuel bs f =
     (if write_guard f then Inl (aborted ''qemu_put_buffer'') else put_loop fuel bs f)"

definition qemu_put_byte :: "u8 \<Rightarrow> 'b QEMUFile \<Rightarrow> 'b QEMUFile res" where
  "qemu_put_byte v f =
     (if write_guard f then Inl (aborted ''qemu_put_byte'')
      else if IO_BUF_SIZE \<le> buf_index f then Inl (out_of_bounds ''buf'')
      else let f = f\<lparr>buf := (buf f)(buf_index f := v), buf_index := buf_index f + 1, is_write := True\<rparr>
           in Inr (if IO_BUF_SIZE \<le> buf_index f then qemu_fflush f else f))"

definition qemu_put_be16 :: "u32 \<Rightarrow> 'b QEMUFile \<Rightarrow> 'b QEMUFile res" where
  "qemu_put_be16 v f = bindE (qemu_put_byte (ucast (drop_bit 8 v)) f) (qemu_put_byte (ucast v))"

definition qemu_put_be32 :: "u32 \<Rightarrow> 'b QEMUFile \<Rightarrow> 'b QEMUFile res" where
  "qemu_put_be32 v f =
     bindE (qemu_put_byte (ucast (drop_bit 24 v)) f) (\<lambda>f.
     bindE (qemu_put_byte (ucast (drop_bit 16 v)) f) (\<lambda>f.
     bindE (qemu_put_byte (ucast (drop_bit 8 v)) f) (qemu_put_byte (ucast v))))"

definition qemu_put_be64 :: "u64 \<Rightarrow> 'b QEMUFile \<Rightarrow> 'b QEMUFile res" where
  "qemu_put_be64 v f = bindE (qemu_put_be32 (ucast (drop_bit 32 v)) f) (qemu_put_be32 (ucast v))"

section \<open>Reading\<close>

definition qemu_file_skip :: "nat \<Rightarrow> 'b QEMUFile \<Rightarrow> 'b QEMUFile" where
  "qemu_file_skip sz f = (if buf_index f + sz \<le> buf_size f then f\<lparr>buf_index := buf_index f + sz\<rparr> else f)"

definition qemu_peek_buffer :: "nat \<Rightarrow> nat \<Rightarrow> 'b QEMUFile \<Rightarrow> (u8 list \<times> 'b QEMUFile) res" where
  "qemu_peek_buffer sz off f =
     (if is_write f then Inl (aborted ''qemu_peek_buffer'')
      else bindE (if int (buf_size f) - int (buf_index f + off) < int sz then qemu_fill_buffer f else Inr f) (\<lambda>f.
        let idx = buf_index f + off; pend = buf_size f - idx
        in Inr (map (\<lambda>i. buf f (idx + i)) [0..<min sz pend], f)))"

text \<open>Every round but the last returns bytes, so that \<open>size\<close> rounds and one more are enough.\<close>

fun get_loop :: "nat \<Rightarrow> nat \<Rightarrow> u8 list \<Rightarrow> 'b QEMUFile \<Rightarrow> (u8 list \<times> 'b QEMUFile) res" where
  "get_loop 0 pend acc f = Inl (no_termination ''qemu_get_buffer'')"
| "get_loop (Suc n) pend acc f =
     (if pend = 0 then Inr (acc, f)
      else bindE (qemu_peek_buffer pend 0 f) (\<lambda>(bs, f).
        if bs = [] then Inr (acc, f)
        else get_loop n (pend - length bs) (acc @ bs) (qemu_file_skip (length bs) f)))"

definition qemu_get_buffer :: "nat \<Rightarrow> 'b QEMUFile \<Rightarrow> (u8 list \<times> 'b QEMUFile) res" where
  "qemu_get_buffer sz f = get_loop (sz + 1) sz [] f"

definition qemu_peek_byte :: "nat \<Rightarrow> 'b QEMUFile \<Rightarrow> (u8 \<times> 'b QEMUFile) res" where
  "qemu_peek_byte off f =
     (if is_write f then Inl (aborted ''qemu_peek_byte'')
      else if buf_size f \<le> buf_index f + off
      then bindE (qemu_fill_buffer f) (\<lambda>f.
        Inr (if buf_size f \<le> buf_index f + off then 0 else buf f (buf_index f + off), f))
      else Inr (buf f (buf_index f + off), f))"

definition qemu_get_byte :: "'b QEMUFile \<Rightarrow> (u8 \<times> 'b QEMUFile) res" where
  "qemu_get_byte f = bindE (qemu_peek_byte 0 f) (\<lambda>(v, f). Inr (v, qemu_file_skip 1 f))"

definition qemu_get_be16 :: "'b QEMUFile \<Rightarrow> (u32 \<times> 'b QEMUFile) res" where
  "qemu_get_be16 f =
     bindE (qemu_get_byte f) (\<lambda>(a, f). bindE (qemu_get_byte f) (\<lambda>(b, f).
       Inr (push_bit 8 (ucast a) OR ucast b, f)))"

definition qemu_get_be32 :: "'b QEMUFile \<Rightarrow> (u32 \<times> 'b QEMUFile) res" where
  "qemu_get_be32 f =
     bindE (qemu_get_byte f) (\<lambda>(a, f). bindE (qemu_get_byte f) (\<lambda>(b, f).
     bindE (qemu_get_byte f) (\<lambda>(c, f). bindE (qemu_get_byte f) (\<lambda>(d, f).
       Inr (push_bit 24 (ucast a) OR push_bit 16 (ucast b) OR push_bit 8 (ucast c) OR ucast d, f)))))"

definition qemu_get_be64 :: "'b QEMUFile \<Rightarrow> (u64 \<times> 'b QEMUFile) res" where
  "qemu_get_be64 f =
     bindE (qemu_get_be32 f) (\<lambda>(a, f). bindE (qemu_get_be32 f) (\<lambda>(b, f).
       Inr (push_bit 32 (ucast a) OR ucast b, f)))"

definition qemu_ftell :: "'b QEMUFile \<Rightarrow> int" where
  "qemu_ftell f = buf_offset f - int (buf_size f) + int (buf_index f)"

datatype whence = SEEK_SET | SEEK_CUR | SEEK_END

definition qemu_fseek :: "int \<Rightarrow> whence \<Rightarrow> 'b QEMUFile \<Rightarrow> int \<times> 'b QEMUFile" where
  "qemu_fseek pos wh f =
     (if wh = SEEK_END then (- 1, f)
      else let pos = (if wh = SEEK_CUR then pos + qemu_ftell f else pos)
           in (pos, if put_buffer f \<noteq> None then (qemu_fflush f)\<lparr>buf_offset := pos\<rparr>
                    else f\<lparr>buf_offset := pos, buf_index := 0, buf_size := 0\<rparr>))"

section \<open>Back ends on C streams\<close>

record FILE =
  contents :: "u8 list"
  fpos :: nat

text \<open>Bytes written past the end leave a gap of zeros.\<close>

definition fwrite :: "u8 list \<Rightarrow> FILE \<Rightarrow> int \<times> FILE" where
  "fwrite bs fp =
     (int (length bs),
      fp\<lparr>contents := take (fpos fp) (contents fp) @ replicate (fpos fp - length (contents fp)) 0 @ bs @
                       drop (fpos fp + length bs) (contents fp),
         fpos := fpos fp + length bs\<rparr>)"

definition fread :: "nat \<Rightarrow> FILE \<Rightarrow> int \<times> u8 list \<times> FILE" where
  "fread sz fp =
     (let bs = take sz (drop (fpos fp) (contents fp)) in (int (length bs), bs, fp\<lparr>fpos := fpos fp + length bs\<rparr>))"

definition fseek_set :: "int \<Rightarrow> FILE \<Rightarrow> FILE" where
  "fseek_set pos fp = (if pos < 0 then fp else fp\<lparr>fpos := nat pos\<rparr>)"

definition stdio_put_buffer :: "FILE \<Rightarrow> u8 list \<Rightarrow> int \<Rightarrow> int \<times> FILE" where
  "stdio_put_buffer fp bs pos = fwrite bs fp"

definition stdio_get_buffer :: "FILE \<Rightarrow> int \<Rightarrow> nat \<Rightarrow> int \<times> u8 list \<times> FILE" where
  "stdio_get_buffer fp pos sz = fread sz fp"

definition file_put_buffer :: "FILE \<Rightarrow> u8 list \<Rightarrow> int \<Rightarrow> int \<times> FILE" where
  "file_put_buffer fp bs pos = fwrite bs (fseek_set pos fp)"

definition file_get_buffer :: "FILE \<Rightarrow> int \<Rightarrow> nat \<Rightarrow> int \<times> u8 list \<times> FILE" where
  "file_get_buffer fp pos sz = fread sz (fseek_set pos fp)"

text \<open>\<open>qemu_fopen\<close> of a file that the library has opened, for writing (truncated) or reading.\<close>

definition qemu_fopen :: "FILE \<Rightarrow> string \<Rightarrow> FILE QEMUFile option" where
  "qemu_fopen fp md =
     (if md = ''wb'' then Some (qemu_fopen_ops fp (Some file_put_buffer) None)
      else if md = ''rb'' then Some (qemu_fopen_ops fp None (Some file_get_buffer))
      else None)"

definition qemu_fdopen :: "FILE \<Rightarrow> string \<Rightarrow> FILE QEMUFile option" where
  "qemu_fdopen fp md =
     (if md = ''wb'' then Some (qemu_fopen_ops fp (Some stdio_put_buffer) None)
      else if md = ''rb'' then Some (qemu_fopen_ops fp None (Some stdio_get_buffer))
      else None)"

section \<open>A file that is written is the sequence of its bytes\<close>

text \<open>
  The bytes a program has written so far, in the back end and in the buffer, and the states
  in which a file is being written without an error.
\<close>

definition written :: "('b \<Rightarrow> u8 list) \<Rightarrow> 'b QEMUFile \<Rightarrow> u8 list" where
  "written stored f = stored (back_end f) @ map (buf f) [0..<buf_index f]"

definition writing ::
  "('b \<Rightarrow> u8 list \<Rightarrow> int \<Rightarrow> int \<times> 'b) \<Rightarrow> ('b \<Rightarrow> u8 list) \<Rightarrow> ('b \<Rightarrow> bool) \<Rightarrow> 'b QEMUFile \<Rightarrow> bool" where
  "writing put stored ready f \<longleftrightarrow>
     put_buffer f = Some put \<and> ready (back_end f) \<and> buf_offset f = int (length (stored (back_end f))) \<and>
     buf_index f < IO_BUF_SIZE \<and> (is_write f \<or> buf_index f = 0) \<and> last_error f = 0"

text \<open>
  What a back end promises to a writer: a block put at the end of what has been written
  extends it by the block.
\<close>

locale stream_sink =
  fixes put :: "'b \<Rightarrow> u8 list \<Rightarrow> int \<Rightarrow> int \<times> 'b"
    and stored :: "'b \<Rightarrow> u8 list"
    and ready :: "'b \<Rightarrow> bool"
  assumes put_appends: "ready b \<Longrightarrow> bs \<noteq> [] \<Longrightarrow>
    \<exists>b'. put b bs (int (length (stored b))) = (int (length bs), b') \<and> stored b' = stored b @ bs \<and> ready b'"
begin

lemma flush_written:
  assumes "writing put stored ready (f\<lparr>buf_index := 0\<rparr>)" "is_write f"
  shows "writing put stored ready (qemu_fflush f)" "written stored (qemu_fflush f) = written stored f" "buf_index (qemu_fflush f) = 0"
    "is_write (qemu_fflush f)"
proof -
  have f: "put_buffer f = Some put" "ready (back_end f)" "buf_offset f = int (length (stored (back_end f)))" "last_error f = 0"
    using assms by (auto simp: writing_def)
  have "writing put stored ready (qemu_fflush f) \<and> written stored (qemu_fflush f) = written stored f \<and> buf_index (qemu_fflush f) = 0 \<and> is_write (qemu_fflush f)"
  proof (cases "buf_index f = 0")
    case True
    then show ?thesis using f assms by (simp add: qemu_fflush_def writing_def written_def)
  next
    case False
    then obtain b where "put (back_end f) (map (buf f) [0..<buf_index f]) (buf_offset f) = (int (buf_index f), b)"
        "stored b = stored (back_end f) @ map (buf f) [0..<buf_index f]" "ready b"
      using put_appends [OF f(2), of "map (buf f) [0..<buf_index f]"] f(3) by auto
    then show ?thesis using f False assms(2) by (simp add: qemu_fflush_def writing_def written_def IO_BUF_SIZE_def)
  qed
  then show "writing put stored ready (qemu_fflush f)" "written stored (qemu_fflush f) = written stored f" "buf_index (qemu_fflush f) = 0"
    "is_write (qemu_fflush f)" by auto
qed

lemma flushed: "writing put stored ready f \<Longrightarrow> stored (back_end (qemu_fflush f)) = written stored f"
  using flush_written [of f] by (cases "is_write f") (auto simp: written_def writing_def IO_BUF_SIZE_def qemu_fflush_def)

lemma put_byte_appends:
  assumes "writing put stored ready f"
  shows "\<exists>g. qemu_put_byte v f = Inr g \<and> writing put stored ready g \<and> written stored g = written stored f @ [v]"
proof -
  let ?g = "f\<lparr>buf := (buf f)(buf_index f := v), buf_index := buf_index f + 1, is_write := True\<rparr>"
  have f: "\<not> write_guard f" "buf_index f < IO_BUF_SIZE" using assms by (auto simp: writing_def write_guard_def)
  have w: "written stored ?g = written stored f @ [v]" by (simp add: written_def)
  show ?thesis
  proof (cases "IO_BUF_SIZE \<le> buf_index f + 1")
    case True
    have "writing put stored ready (?g\<lparr>buf_index := 0\<rparr>)" using assms by (simp add: writing_def)
    then show ?thesis using f True w flush_written [of ?g] by (simp add: qemu_put_byte_def Let_def)
  next
    case False
    then show ?thesis using f assms w by (simp add: qemu_put_byte_def writing_def Let_def)
  qed
qed

lemma put_be32_appends:
  assumes "writing put stored ready f"
  shows "\<exists>g. qemu_put_be32 v f = Inr g \<and> writing put stored ready g \<and>
    written stored g = written stored f @ [ucast (drop_bit 24 v), ucast (drop_bit 16 v), ucast (drop_bit 8 v), ucast v]"
proof -
  obtain g where g: "qemu_put_byte (ucast (drop_bit 24 v)) f = Inr g" "writing put stored ready g" "written stored g = written stored f @ [ucast (drop_bit 24 v)]"
    using put_byte_appends [OF assms] by blast
  obtain h where h: "qemu_put_byte (ucast (drop_bit 16 v)) g = Inr h" "writing put stored ready h" "written stored h = written stored g @ [ucast (drop_bit 16 v)]"
    using put_byte_appends [OF g(2)] by blast
  obtain i where i: "qemu_put_byte (ucast (drop_bit 8 v)) h = Inr i" "writing put stored ready i" "written stored i = written stored h @ [ucast (drop_bit 8 v)]"
    using put_byte_appends [OF h(2)] by blast
  obtain j where j: "qemu_put_byte (ucast v) i = Inr j" "writing put stored ready j" "written stored j = written stored i @ [ucast v]"
    using put_byte_appends [OF i(2)] by blast
  show ?thesis using g h i j by (simp add: qemu_put_be32_def)
qed

lemma put_loop_appends:
  assumes "writing put stored ready f" "length bs < n"
  shows "\<exists>g. put_loop n bs f = Inr g \<and> writing put stored ready g \<and> written stored g = written stored f @ bs"
  using assms
proof (induction n arbitrary: bs f)
  case (Suc n)
  show ?case
  proof (cases "bs = []")
    case True
    then show ?thesis using Suc.prems by simp
  next
    case False
    define l where "l = min (IO_BUF_SIZE - buf_index f) (length bs)"
    let ?g = "f\<lparr>buf := store_bytes (buf_index f) (take l bs) (buf f), is_write := True, buf_index := buf_index f + l\<rparr>"
    let ?h = "if IO_BUF_SIZE \<le> buf_index ?g then qemu_fflush ?g else ?g"
    have l: "0 < l" "l \<le> length bs" "buf_index f + l \<le> IO_BUF_SIZE"
      using False Suc.prems(1) by (auto simp: l_def writing_def)
    have "map (store_bytes (buf_index f) (take l bs) (buf f)) [0..<buf_index f + l] = map (buf f) [0..<buf_index f] @ take l bs"
      using l by (auto simp: list_eq_iff_nth_eq nth_append store_bytes_def)
    then have w: "written stored ?g = written stored f @ take l bs" by (simp add: written_def)
    have "writing put stored ready (?g\<lparr>buf_index := 0\<rparr>)" using Suc.prems(1) by (simp add: writing_def IO_BUF_SIZE_def)
    then have h: "writing put stored ready ?h" "written stored ?h = written stored f @ take l bs"
      using flush_written [of ?g] w Suc.prems(1) by (auto simp: writing_def)
    moreover have "length (drop l bs) < n" using Suc.prems(2) l by simp
    ultimately obtain k where "put_loop n (drop l bs) ?h = Inr k" "writing put stored ready k" "written stored k = written stored ?h @ drop l bs"
      using Suc.IH by blast
    moreover have "put_loop (Suc n) bs f = put_loop n (drop l bs) ?h"
      using False Suc.prems(1) by (simp add: Let_def l_def writing_def)
    ultimately show ?thesis using h(2) by simp
  qed
qed simp

end

section \<open>A file that is read delivers the sequence\<close>

definition remaining :: "('b \<Rightarrow> u8 list) \<Rightarrow> 'b QEMUFile \<Rightarrow> u8 list" where
  "remaining stored f = drop (nat (qemu_ftell f)) (stored (back_end f))"

definition reading ::
  "('b \<Rightarrow> int \<Rightarrow> nat \<Rightarrow> int \<times> u8 list \<times> 'b) \<Rightarrow> ('b \<Rightarrow> u8 list) \<Rightarrow> ('b \<Rightarrow> int \<Rightarrow> bool) \<Rightarrow> 'b QEMUFile \<Rightarrow> bool" where
  "reading get stored ready f \<longleftrightarrow>
     get_buffer f = Some get \<and> ready (back_end f) (buf_offset f) \<and> \<not> is_write f \<and> buf_index f \<le> buf_size f \<and>
     int (buf_size f) \<le> buf_offset f \<and> nat (buf_offset f) \<le> length (stored (back_end f)) \<and>
     map (buf f) [0..<buf_size f] = take (buf_size f) (drop (nat (buf_offset f) - buf_size f) (stored (back_end f)))"

text \<open>
  What a back end promises to a reader: from a position inside the data it delivers at least
  one byte and at most as many as fit, and the data themselves do not change.
\<close>

locale stream_source =
  fixes get :: "'b \<Rightarrow> int \<Rightarrow> nat \<Rightarrow> int \<times> u8 list \<times> 'b"
    and stored :: "'b \<Rightarrow> u8 list"
    and ready :: "'b \<Rightarrow> int \<Rightarrow> bool"
  assumes get_delivers: "ready b (int pos) \<Longrightarrow> pos \<le> length (stored b) \<Longrightarrow>
    \<exists>d b'. get b (int pos) n = (int (length d), d, b') \<and> (d = [] \<longrightarrow> n = 0 \<or> pos = length (stored b)) \<and> length d \<le> n \<and>
      d = take (length d) (drop pos (stored b)) \<and> stored b' = stored b \<and> ready b' (int (pos + length d))"
begin

text \<open>The position of a reader in the data, and what its buffer holds of them.\<close>

lemma readingE:
  assumes "reading get stored ready f"
  obtains p where "qemu_ftell f = int (p + buf_index f)" "buf_offset f = int (p + buf_size f)"
    "p + buf_size f \<le> length (stored (back_end f))" "buf_index f \<le> buf_size f"
    "\<And>i. i < buf_size f \<Longrightarrow> buf f i = stored (back_end f) ! (p + i)"
    "get_buffer f = Some get" "ready (back_end f) (int (p + buf_size f))" "\<not> is_write f"
proof -
  define p where "p = nat (buf_offset f) - buf_size f"
  have f: "get_buffer f = Some get" "ready (back_end f) (buf_offset f)" "\<not> is_write f" "buf_index f \<le> buf_size f"
    "int (buf_size f) \<le> buf_offset f" "nat (buf_offset f) \<le> length (stored (back_end f))"
    "map (buf f) [0..<buf_size f] = take (buf_size f) (drop p (stored (back_end f)))"
    using assms by (auto simp: reading_def p_def)
  have p: "buf_offset f = int (p + buf_size f)" using f(5) by (simp add: p_def)
  moreover have "buf f i = stored (back_end f) ! (p + i)" if "i < buf_size f" for i
    using f(6) p that arg_cong [OF f(7), of "\<lambda>xs. xs ! i"] by simp
  ultimately show ?thesis using that [of p] f by (simp add: qemu_ftell_def)
qed

lemma readingI:
  assumes "buf_offset f = int (p + buf_size f)" "p + buf_size f \<le> length (stored (back_end f))" "buf_index f \<le> buf_size f"
    "\<And>i. i < buf_size f \<Longrightarrow> buf f i = stored (back_end f) ! (p + i)"
    "get_buffer f = Some get" "ready (back_end f) (int (p + buf_size f))" "\<not> is_write f"
  shows "reading get stored ready f" "remaining stored f = drop (p + buf_index f) (stored (back_end f))"
proof -
  have "map (buf f) [0..<buf_size f] = take (buf_size f) (drop p (stored (back_end f)))"
    using assms by (intro nth_equalityI) simp_all
  then show "reading get stored ready f" using assms by (simp add: reading_def nat_int_add)
  show "remaining stored f = drop (p + buf_index f) (stored (back_end f))"
    using assms(1) by (simp add: remaining_def qemu_ftell_def nat_int_add)
qed

lemma fill_delivers:
  assumes "reading get stored ready f"
  shows "\<exists>g. qemu_fill_buffer f = Inr g \<and> reading get stored ready g \<and> remaining stored g = remaining stored f \<and>
    stored (back_end g) = stored (back_end f) \<and> buf_index g = 0 \<and>
    (buf_size g = 0 \<longrightarrow> remaining stored f = [])"
proof -
  obtain p where f: "qemu_ftell f = int (p + buf_index f)" "buf_offset f = int (p + buf_size f)"
    "p + buf_size f \<le> length (stored (back_end f))" "buf_index f \<le> buf_size f"
    "\<And>i. i < buf_size f \<Longrightarrow> buf f i = stored (back_end f) ! (p + i)"
    "get_buffer f = Some get" "ready (back_end f) (int (p + buf_size f))" "\<not> is_write f"
    using assms by (rule readingE) blast
  let ?c = "stored (back_end f)"
  define pend where "pend = buf_size f - buf_index f"
  define m where "m = (if 0 < pend then store_bytes 0 (map (\<lambda>i. buf f (buf_index f + i)) [0..<pend]) (buf f) else buf f)"
  obtain d b where d: "get (back_end f) (int (p + buf_size f)) (IO_BUF_SIZE - pend) = (int (length d), d, b)"
      "d = [] \<longrightarrow> IO_BUF_SIZE - pend = 0 \<or> p + buf_size f = length ?c"
      "d = take (length d) (drop (p + buf_size f) ?c)" "stored b = ?c" "ready b (int (p + buf_size f + length d))"
    using get_delivers [OF f(7,3)] by blast
  have len: "p + buf_size f + length d \<le> length ?c" using arg_cong [OF d(3), of length] f(3) by simp
  define g0 where "g0 = f\<lparr>back_end := b, buf := store_bytes pend d m, buf_index := 0, buf_size := pend + length d,
      buf_offset := int (p + buf_size f + length d)\<rparr>"
  have "store_bytes pend d m i = ?c ! (p + buf_index f + i)" if "i < pend + length d" for i
  proof (cases "i < pend")
    case True
    then show ?thesis using f(4,5) by (auto simp: store_bytes_def m_def pend_def ac_simps)
  next
    case False
    then have "d ! (i - pend) = drop (p + buf_size f) ?c ! (i - pend)" using that d(3) by (metis add_diff_inverse_nat add_less_cancel_left nth_take)
    moreover have "p + buf_size f + (i - pend) = p + buf_index f + i" using False f(4) by (simp add: pend_def)
    ultimately show ?thesis using False that f(3) len by (simp add: store_bytes_def)
  qed
  moreover have "buf_size f = buf_index f + pend" using f(4) by (simp add: pend_def)
  ultimately have g0: "reading get stored ready g0" "remaining stored g0 = drop (p + buf_index f) ?c"
    using readingI [of g0 "p + buf_index f"] f(3,4,6,8) d(4,5) len by (simp_all add: g0_def ac_simps)
  define e where "e = (if d = [] then - 5 else last_error f)"
  have "qemu_fill_buffer f = Inr (g0\<lparr>last_error := e\<rparr>)"
    using f(2,6,8) d(1)
    by (auto simp: qemu_fill_buffer_def Let_def pend_def [symmetric] m_def [symmetric] g0_def e_def intro!: QEMUFile.equality)
  moreover have "reading get stored ready (g0\<lparr>last_error := e\<rparr>) = reading get stored ready g0"
    "remaining stored (g0\<lparr>last_error := e\<rparr>) = remaining stored g0"
    by (simp_all add: reading_def remaining_def qemu_ftell_def)
  moreover have "remaining stored f = drop (p + buf_index f) ?c" by (simp add: remaining_def f(1) nat_int_add)
  moreover have "remaining stored f = []" if "pend + length d = 0"
  proof -
    have "d = []" "pend = 0" using that by auto
    then have "p + buf_size f = length ?c" "buf_index f = buf_size f" using d(2) f(4) by (simp_all add: pend_def IO_BUF_SIZE_def)
    then show ?thesis using \<open>remaining stored f = drop (p + buf_index f) ?c\<close> by simp
  qed
  ultimately show ?thesis using g0 d(4) by (intro exI [of _ "g0\<lparr>last_error := e\<rparr>"]) (auto simp: g0_def)
qed

lemma skip_delivers:
  assumes "reading get stored ready f" "buf_index f + n \<le> buf_size f"
  shows "reading get stored ready (qemu_file_skip n f)" "remaining stored f =
      map (\<lambda>i. buf f (buf_index f + i)) [0..<n] @ remaining stored (qemu_file_skip n f)"
    "stored (back_end (qemu_file_skip n f)) = stored (back_end f)"
proof -
  obtain p where f: "qemu_ftell f = int (p + buf_index f)" "buf_offset f = int (p + buf_size f)"
    "p + buf_size f \<le> length (stored (back_end f))" "buf_index f \<le> buf_size f"
    "\<And>i. i < buf_size f \<Longrightarrow> buf f i = stored (back_end f) ! (p + i)"
    "get_buffer f = Some get" "ready (back_end f) (int (p + buf_size f))" "\<not> is_write f"
    using assms(1) by (rule readingE) blast
  let ?g = "f\<lparr>buf_index := buf_index f + n\<rparr>" and ?c = "stored (back_end f)"
  have g: "qemu_file_skip n f = ?g" using assms(2) by (simp add: qemu_file_skip_def)
  have r: "reading get stored ready ?g" "remaining stored ?g = drop (p + (buf_index f + n)) ?c"
    using readingI [of ?g p] f assms(2) by simp_all
  then show "reading get stored ready (qemu_file_skip n f)" "stored (back_end (qemu_file_skip n f)) = stored (back_end f)"
    by (simp_all add: g)
  have "map (\<lambda>i. buf f (buf_index f + i)) [0..<n] = take n (drop (p + buf_index f) ?c)"
    using f(3,5) assms(2) by (intro nth_equalityI) (simp_all add: ac_simps)
  moreover have "remaining stored f = drop (p + buf_index f) ?c" by (simp add: remaining_def f(1) nat_int_add)
  ultimately show "remaining stored f =
      map (\<lambda>i. buf f (buf_index f + i)) [0..<n] @ remaining stored (qemu_file_skip n f)"
    unfolding g r(2) by (simp add: add.assoc flip: drop_drop) (metis add.commute append_take_drop_id drop_drop)
qed

lemma get_byte_delivers:
  assumes "reading get stored ready f" "remaining stored f = v # vs"
  shows "\<exists>g. qemu_get_byte f = Inr (v, g) \<and> reading get stored ready g \<and> remaining stored g = vs \<and>
    stored (back_end g) = stored (back_end f)"
proof -
  obtain h where h: "qemu_peek_byte 0 f = Inr (buf h (buf_index h), h)" "reading get stored ready h"
      "remaining stored h = v # vs" "stored (back_end h) = stored (back_end f)" "buf_index h < buf_size h"
  proof (cases "buf_index f < buf_size f")
    case True
    then show ?thesis using that [of f] assms by (auto simp: qemu_peek_byte_def reading_def)
  next
    case False
    obtain g where "qemu_fill_buffer f = Inr g" "reading get stored ready g" "remaining stored g = v # vs"
        "stored (back_end g) = stored (back_end f)" "buf_index g = 0" "buf_size g \<noteq> 0"
      using fill_delivers [OF assms(1)] assms(2) by auto
    then show ?thesis using that [of g] False assms(1) by (auto simp: qemu_peek_byte_def reading_def)
  qed
  then show ?thesis using skip_delivers [OF h(2), of 1] by (auto simp: qemu_get_byte_def)
qed

lemma get_be32_delivers:
  assumes "reading get stored ready f" "remaining stored f = a # b # c # d # vs"
  shows "\<exists>g. qemu_get_be32 f = Inr (push_bit 24 (ucast a) OR push_bit 16 (ucast b) OR push_bit 8 (ucast c) OR ucast d, g) \<and>
    reading get stored ready g \<and> remaining stored g = vs \<and> stored (back_end g) = stored (back_end f)"
proof -
  obtain g where g: "qemu_get_byte f = Inr (a, g)" "reading get stored ready g" "remaining stored g = b # c # d # vs"
      "stored (back_end g) = stored (back_end f)"
    using get_byte_delivers [OF assms] by blast
  obtain h where h: "qemu_get_byte g = Inr (b, h)" "reading get stored ready h" "remaining stored h = c # d # vs"
      "stored (back_end h) = stored (back_end f)"
    using get_byte_delivers [OF g(2,3)] g(4) by auto
  obtain i where i: "qemu_get_byte h = Inr (c, i)" "reading get stored ready i" "remaining stored i = d # vs"
      "stored (back_end i) = stored (back_end f)"
    using get_byte_delivers [OF h(2,3)] h(4) by auto
  obtain j where "qemu_get_byte i = Inr (d, j)" "reading get stored ready j" "remaining stored j = vs"
      "stored (back_end j) = stored (back_end f)"
    using get_byte_delivers [OF i(2,3)] i(4) by auto
  then show ?thesis using g h i by (simp add: qemu_get_be32_def)
qed

lemma get_loop_delivers:
  assumes "reading get stored ready f" "pend \<le> length (remaining stored f)" "pend < n"
  shows "\<exists>g. get_loop n pend acc f = Inr (acc @ take pend (remaining stored f), g) \<and> reading get stored ready g \<and>
    remaining stored g = drop pend (remaining stored f)"
  using assms
proof (induction n arbitrary: pend acc f)
  case (Suc n)
  show ?case
  proof (cases "pend = 0")
    case True
    then show ?thesis using Suc.prems by simp
  next
    case False
    obtain h where h: "reading get stored ready h" "remaining stored h = remaining stored f" "buf_index h < buf_size h"
        "(if int (buf_size f) - int (buf_index f) < int pend then qemu_fill_buffer f else Inr f) = Inr h"
    proof (cases "int (buf_size f) - int (buf_index f) < int pend")
      case True
      obtain g where "qemu_fill_buffer f = Inr g" "reading get stored ready g" "remaining stored g = remaining stored f"
          "buf_index g = 0" "buf_size g \<noteq> 0"
        using fill_delivers [OF Suc.prems(1)] Suc.prems(2) False by auto
      then show ?thesis using that [of g] True by simp
    next
      case False
      then show ?thesis using that [of f] Suc.prems(1) \<open>pend \<noteq> 0\<close> by auto
    qed
    define l where "l = min pend (buf_size h - buf_index h)"
    define bs where "bs = map (\<lambda>i. buf h (buf_index h + i)) [0..<l]"
    have l: "0 < l" "l \<le> pend" "buf_index h + l \<le> buf_size h" using False h(3) by (auto simp: l_def)
    have "qemu_peek_buffer pend 0 f = Inr (bs, h)"
      using Suc.prems(1) h(4) by (auto simp: qemu_peek_buffer_def bs_def l_def reading_def Let_def)
    moreover have "bs \<noteq> []" "length bs = l" using l by (simp_all add: bs_def)
    moreover note k = skip_delivers [OF h(1) l(3), folded bs_def]
    moreover obtain g where "get_loop n (pend - l) (acc @ bs) (qemu_file_skip l h) =
          Inr ((acc @ bs) @ take (pend - l) (remaining stored (qemu_file_skip l h)), g)" "reading get stored ready g"
        "remaining stored g = drop (pend - l) (remaining stored (qemu_file_skip l h))"
    proof -
      have "pend - l \<le> length (remaining stored (qemu_file_skip l h))"
        using Suc.prems(2) h(2) arg_cong [OF k(2), of length] by (simp add: bs_def)
      moreover have "pend - l < n" using Suc.prems(3) l by linarith
      ultimately show ?thesis using Suc.IH [OF k(1), of "pend - l" "acc @ bs"] that by blast
    qed
    ultimately show ?thesis using False h(2) l by (auto simp: bs_def)
  qed
qed simp

end

section \<open>The C streams keep both promises\<close>

lemma take_min_drop: "take (min (length xs - p) n) (drop p xs) = take n (drop p xs)"
  by (simp add: min_def)

interpretation file_sink: stream_sink file_put_buffer contents "\<lambda>_. True"
  by unfold_locales (simp add: file_put_buffer_def fwrite_def fseek_set_def)

interpretation stdio_sink: stream_sink stdio_put_buffer contents "\<lambda>fp. fpos fp = length (contents fp)"
  by unfold_locales (simp add: stdio_put_buffer_def fwrite_def)

interpretation file_source: stream_source file_get_buffer contents "\<lambda>_ _. True"
  by unfold_locales (auto simp: file_get_buffer_def fread_def fseek_set_def Let_def take_min_drop)

interpretation stdio_source: stream_source stdio_get_buffer contents "\<lambda>fp pos. int (fpos fp) = pos"
  by unfold_locales (auto simp: stdio_get_buffer_def fread_def Let_def take_min_drop)

definition new_file :: FILE where
  "new_file = \<lparr>contents = [], fpos = 0\<rparr>"

lemma opened:
  "writing file_put_buffer contents (\<lambda>_. True) (qemu_fopen_ops new_file (Some file_put_buffer) None)"
  "written contents (qemu_fopen_ops new_file (Some file_put_buffer) None) = []"
  "reading file_get_buffer contents (\<lambda>_ _. True) (qemu_fopen_ops fp None (Some file_get_buffer))"
  "remaining contents (qemu_fopen_ops fp None (Some file_get_buffer)) = contents fp"
  by (simp_all add: writing_def written_def reading_def remaining_def qemu_fopen_ops_def qemu_ftell_def new_file_def IO_BUF_SIZE_def)

text \<open>
  What is written to a file comes back: any sequence of bytes put into a new file, whatever
  its length and however the buffer is flushed in between, is the contents of the file once
  flushed, and reading the file from its start returns it.
\<close>

theorem file_write_read:
  "\<exists>g. qemu_put_buffer (length bs + 1) bs (qemu_fopen_ops new_file (Some file_put_buffer) None) = Inr g \<and>
     contents (back_end (qemu_fflush g)) = bs \<and>
     (\<exists>h. qemu_get_buffer (length bs) (qemu_fopen_ops (back_end (qemu_fflush g)) None (Some file_get_buffer)) = Inr (bs, h))"
proof -
  let ?f = "qemu_fopen_ops new_file (Some file_put_buffer) None"
  obtain g where g: "put_loop (length bs + 1) bs ?f = Inr g" "writing file_put_buffer contents (\<lambda>_. True) g"
      "written contents g = bs"
    using file_sink.put_loop_appends [OF opened(1), of bs "length bs + 1"] opened(2) by auto
  have "contents (back_end (qemu_fflush g)) = bs"
    using file_sink.flushed [OF g(2)] g(3) by simp
  moreover from this obtain h where
    "get_loop (length bs + 1) (length bs) [] (qemu_fopen_ops (back_end (qemu_fflush g)) None (Some file_get_buffer)) = Inr (bs, h)"
    using file_source.get_loop_delivers [OF opened(3), of "length bs" "back_end (qemu_fflush g)" "length bs + 1" "[]"] opened(4)
    by auto
  ultimately show ?thesis using g(1)
    by (simp add: qemu_put_buffer_def qemu_get_buffer_def write_guard_def qemu_fopen_ops_def)
qed

text \<open>
  A back end that takes only part of a block is not noticed: with one that stores a single
  byte at a time, two bytes written and flushed leave one byte stored, no error is set and the
  file goes on at the position behind the second.
\<close>

definition one_byte_put :: "u8 list \<Rightarrow> u8 list \<Rightarrow> int \<Rightarrow> int \<times> u8 list" where
  "one_byte_put b bs pos = (1, b @ take 1 bs)"

theorem short_write_unnoticed:
  "(case bindE (qemu_put_byte 1 (qemu_fopen_ops [] (Some one_byte_put) None)) (qemu_put_byte 2) of
      Inl e \<Rightarrow> False
    | Inr f \<Rightarrow> let g = qemu_fflush f in back_end g = [1] \<and> last_error g = 0 \<and> qemu_ftell g = 2)"
  by (simp add: qemu_put_byte_def qemu_fopen_ops_def write_guard_def one_byte_put_def qemu_fflush_def qemu_ftell_def
      IO_BUF_SIZE_def Let_def)

end
