(* ===== verification/Stream_Steps.thy ===== *)
theory Stream_Steps
  imports Qemu_File
begin

text \<open>
  Savers and loaders as steps on a byte stream: a saver appends bytes to the file it writes, a
  loader takes the bytes at the front of the file it reads and returns a value. Steps compose, so
  that the round trips of structures follow from those of their parts.
\<close>

section \<open>Steps\<close>

text \<open>A step of a saver that appends given bytes, and a step of a loader that takes them.\<close>

definition appends :: "(FILE QEMUFile \<Rightarrow> FILE QEMUFile res) \<Rightarrow> u8 list \<Rightarrow> bool" where
  "appends p bs \<longleftrightarrow> (\<forall>f. writing file_put_buffer contents (\<lambda>_. True) f \<longrightarrow>
     (\<exists>g. p f = Inr g \<and> writing file_put_buffer contents (\<lambda>_. True) g \<and> written contents g = written contents f @ bs))"

definition takes :: "(FILE QEMUFile \<Rightarrow> ('a \<times> FILE QEMUFile) res) \<Rightarrow> u8 list \<Rightarrow> 'a \<Rightarrow> bool" where
  "takes p bs v \<longleftrightarrow> (\<forall>f vs. reading file_get_buffer contents (\<lambda>_ _. True) f \<longrightarrow> remaining contents f = bs @ vs \<longrightarrow>
     (\<exists>g. p f = Inr (v, g) \<and> reading file_get_buffer contents (\<lambda>_ _. True) g \<and> remaining contents g = vs))"

lemma appends_bind: "appends p bs \<Longrightarrow> appends q cs \<Longrightarrow> appends (\<lambda>f. bindE (p f) q) (bs @ cs)"
  unfolding appends_def by (metis append.assoc bindE_simps(2))

lemma appends_foldE: "(\<And>x. x \<in> set xs \<Longrightarrow> appends (p x) (h x)) \<Longrightarrow> appends (foldE p xs) (concat (map h xs))"
proof (induction xs)
  case Nil
  then show ?case by (simp add: appends_def)
next
  case (Cons x xs)
  have "foldE p (x # xs) = (\<lambda>f. bindE (p x f) (foldE p xs))" by (rule ext) simp
  then show ?case using Cons appends_bind [of "p x" "h x" "foldE p xs"] by simp
qed

lemma takes_bind:
  assumes "takes p bs x" "takes (q x) cs y"
  shows "takes (\<lambda>f. bindE (p f) (\<lambda>(x, f). q x f)) (bs @ cs) y"
  unfolding takes_def
proof (intro allI impI)
  fix f vs
  assume "reading file_get_buffer contents (\<lambda>_ _. True) f" "remaining contents f = (bs @ cs) @ vs"
  then obtain g where "p f = Inr (x, g)" "reading file_get_buffer contents (\<lambda>_ _. True) g" "remaining contents g = cs @ vs"
    using assms(1) unfolding takes_def append_assoc by blast
  moreover from this obtain h where "q x g = Inr (y, h)" "reading file_get_buffer contents (\<lambda>_ _. True) h" "remaining contents h = vs"
    using assms(2) unfolding takes_def by blast
  ultimately show "\<exists>g. bindE (p f) (\<lambda>(x, f). q x f) = Inr (y, g) \<and> reading file_get_buffer contents (\<lambda>_ _. True) g \<and> remaining contents g = vs"
    by auto
qed

lemma takes_Inr: "takes (\<lambda>f. Inr (v, f)) [] v"
  by (simp add: takes_def)

lemma be32_word: "push_bit 24 (ucast (ucast (drop_bit 24 w) :: u8)) OR push_bit 16 (ucast (ucast (drop_bit 16 w) :: u8)) OR
    push_bit 8 (ucast (ucast (drop_bit 8 w) :: u8)) OR ucast (ucast w :: u8) = (w :: u32)"
  by (rule u32_eqI) (simp add: bit_simps)

section \<open>Bytes, numbers and buffers\<close>

definition bytes_be16 :: "u32 \<Rightarrow> u8 list" where
  "bytes_be16 w = [ucast (drop_bit 8 w), ucast w]"

definition bytes_be32 :: "u32 \<Rightarrow> u8 list" where
  "bytes_be32 w = [ucast (drop_bit 24 w), ucast (drop_bit 16 w), ucast (drop_bit 8 w), ucast w]"

definition bytes_be64 :: "u64 \<Rightarrow> u8 list" where
  "bytes_be64 w = bytes_be32 (ucast (drop_bit 32 w)) @ bytes_be32 (ucast w)"

lemma appends_byte: "appends (qemu_put_byte v) [v]"
  unfolding appends_def using file_sink.put_byte_appends by blast

lemma appends_be16: "appends (qemu_put_be16 w) (bytes_be16 w)"
  using appends_bind [OF appends_byte appends_byte, of "ucast (drop_bit 8 w)" "ucast w"]
  by (simp add: qemu_put_be16_def [abs_def] bytes_be16_def)

lemma appends_be32: "appends (qemu_put_be32 w) (bytes_be32 w)"
  unfolding appends_def bytes_be32_def using file_sink.put_be32_appends by blast

lemma appends_be64: "appends (qemu_put_be64 w) (bytes_be64 w)"
  using appends_bind [OF appends_be32 appends_be32, of "ucast (drop_bit 32 w)" "ucast w"]
  by (simp add: qemu_put_be64_def [abs_def] bytes_be64_def)

lemma appends_buffer: "length bs < n \<Longrightarrow> appends (qemu_put_buffer n bs) bs"
  unfolding appends_def qemu_put_buffer_def using file_sink.put_loop_appends [of _ bs n]
  by (auto simp: writing_def write_guard_def)

lemma takes_byte: "takes qemu_get_byte [v] v"
  unfolding takes_def using file_source.get_byte_delivers by fastforce

lemma takes_be32: "takes qemu_get_be32 (bytes_be32 w) w"
  unfolding takes_def
proof (intro allI impI)
  fix f vs
  assume "reading file_get_buffer contents (\<lambda>_ _. True) f" "remaining contents f = bytes_be32 w @ vs"
  then show "\<exists>g. qemu_get_be32 f = Inr (w, g) \<and> reading file_get_buffer contents (\<lambda>_ _. True) g \<and> remaining contents g = vs"
    using file_source.get_be32_delivers [of f "ucast (drop_bit 24 w)" "ucast (drop_bit 16 w)" "ucast (drop_bit 8 w)" "ucast w" vs]
    by (auto simp: bytes_be32_def be32_word)
qed

lemma takes_pair:
  assumes "takes p bs x" "takes q cs y"
  shows "takes (\<lambda>f. bindE (p f) (\<lambda>(a, f). bindE (q f) (\<lambda>(b, f). Inr (h a b, f)))) (bs @ cs) (h x y)"
proof -
  have "takes (\<lambda>f. bindE (q f) (\<lambda>(b, f). Inr (h x b, f))) (cs @ []) (h x y)"
    by (rule takes_bind [OF assms(2), where q = "\<lambda>b f. Inr (h x b, f)"]) (rule takes_Inr)
  then show ?thesis
    by (intro takes_bind [OF assms(1), where q = "\<lambda>a f. bindE (q f) (\<lambda>(b, f). Inr (h a b, f))"]) simp
qed

lemma takes_be16: "takes qemu_get_be16 (bytes_be16 w) (take_bit 16 w)"
proof -
  have "push_bit 8 (ucast (ucast (drop_bit 8 w) :: u8)) OR ucast (ucast w :: u8) = take_bit 16 w"
    by (rule u32_eqI) (auto simp: bit_simps)
  then show ?thesis
    using takes_pair [OF takes_byte takes_byte, of "\<lambda>a b. push_bit 8 (ucast a) OR ucast b :: u32" "ucast (drop_bit 8 w)" "ucast w"]
    by (simp add: qemu_get_be16_def [abs_def] bytes_be16_def)
qed

lemma takes_be64: "takes qemu_get_be64 (bytes_be64 w) w"
proof -
  have "push_bit 32 (ucast (ucast (drop_bit 32 w) :: u32)) OR ucast (ucast w :: u32) = w"
    by (rule bit_word_eqI) (auto simp: bit_simps)
  then show ?thesis
    using takes_pair [OF takes_be32 takes_be32, of "\<lambda>a b. push_bit 32 (ucast a) OR ucast b :: u64" "ucast (drop_bit 32 w)" "ucast w"]
    by (simp add: qemu_get_be64_def [abs_def] bytes_be64_def)
qed

lemma takes_buffer: "takes (qemu_get_buffer (length bs)) bs bs"
  unfolding takes_def qemu_get_buffer_def using file_source.get_loop_delivers [of _ "length bs" "length bs + 1" "[]"] by force

text \<open>A loader that looks ahead is a step only in front of certain bytes.\<close>

definition takes_at :: "(FILE QEMUFile \<Rightarrow> ('a \<times> FILE QEMUFile) res) \<Rightarrow> u8 list \<Rightarrow> u8 list \<Rightarrow> 'a \<Rightarrow> bool" where
  "takes_at p bs vs v \<longleftrightarrow> (\<forall>f. reading file_get_buffer contents (\<lambda>_ _. True) f \<longrightarrow> remaining contents f = bs @ vs \<longrightarrow>
     (\<exists>g. p f = Inr (v, g) \<and> reading file_get_buffer contents (\<lambda>_ _. True) g \<and> remaining contents g = vs))"

lemma takes_at: "takes p bs v \<Longrightarrow> takes_at p bs vs v"
  by (simp add: takes_def takes_at_def)

lemma takes_at_bind:
  assumes "takes_at p bs (cs @ vs) x" "takes_at (q x) cs vs y"
  shows "takes_at (\<lambda>f. bindE (p f) (\<lambda>(x, f). q x f)) (bs @ cs) vs y"
  unfolding takes_at_def
proof (intro allI impI)
  fix f
  assume "reading file_get_buffer contents (\<lambda>_ _. True) f" "remaining contents f = (bs @ cs) @ vs"
  then obtain g where "p f = Inr (x, g)" "reading file_get_buffer contents (\<lambda>_ _. True) g" "remaining contents g = cs @ vs"
    using assms(1) unfolding takes_at_def append_assoc by blast
  moreover from this obtain h where "q x g = Inr (y, h)" "reading file_get_buffer contents (\<lambda>_ _. True) h" "remaining contents h = vs"
    using assms(2) unfolding takes_at_def by blast
  ultimately show "\<exists>g. bindE (p f) (\<lambda>(x, f). q x f) = Inr (y, g) \<and> reading file_get_buffer contents (\<lambda>_ _. True) g \<and> remaining contents g = vs"
    by auto
qed

lemma takes_at_Inr: "takes_at (\<lambda>f. Inr (v, f)) [] vs v"
  by (simp add: takes_at_def)

section \<open>Looking ahead\<close>

text \<open>
  A back end that delivers as many bytes as fit, or all that are left, lets a reader look ahead as
  far as its buffer reaches.
\<close>

locale eager_source = stream_source +
  assumes get_full: "ready b (int pos) \<Longrightarrow> pos \<le> length (stored b) \<Longrightarrow>
    fst (get b (int pos) n) = int (min n (length (stored b) - pos))"
begin

lemma fill_full:
  assumes "reading get stored ready f" "qemu_fill_buffer f = Inr g"
  shows "min IO_BUF_SIZE (length (remaining stored f)) \<le> buf_size g"
proof -
  obtain p where f: "qemu_ftell f = int (p + buf_index f)" "buf_offset f = int (p + buf_size f)"
    "p + buf_size f \<le> length (stored (back_end f))" "buf_index f \<le> buf_size f" "get_buffer f = Some get"
    "ready (back_end f) (int (p + buf_size f))" "\<not> is_write f"
    using assms(1) by (rule readingE) blast
  let ?pend = "buf_size f - buf_index f" and ?c = "length (stored (back_end f))"
  let ?len = "min (IO_BUF_SIZE - ?pend) (?c - (p + buf_size f))"
  obtain bs b where "get (back_end f) (int (p + buf_size f)) (IO_BUF_SIZE - ?pend) = (int ?len, bs, b)"
    using get_full [OF f(6,3), of "IO_BUF_SIZE - ?pend"] by (metis prod.collapse)
  then have "buf_size g = ?pend + ?len"
    using assms(2) f(2,5,7) unfolding qemu_fill_buffer_def Let_def by (auto split: if_splits)
  moreover have "length (remaining stored f) = ?c - (p + buf_index f)" unfolding remaining_def f(1) by simp
  ultimately show ?thesis using f(3,4) by linarith
qed

lemma buffered:
  assumes "reading get stored ready f"
  shows "buf_size f - buf_index f \<le> length (remaining stored f)"
    and "i < buf_size f - buf_index f \<Longrightarrow> buf f (buf_index f + i) = remaining stored f ! i"
proof -
  obtain p where f: "qemu_ftell f = int (p + buf_index f)" "p + buf_size f \<le> length (stored (back_end f))" "buf_index f \<le> buf_size f"
    "\<And>i. i < buf_size f \<Longrightarrow> buf f i = stored (back_end f) ! (p + i)"
    using assms by (rule readingE) blast
  have r: "remaining stored f = drop (p + buf_index f) (stored (back_end f))" unfolding remaining_def f(1) by (simp add: nat_int_add)
  show "buf_size f - buf_index f \<le> length (remaining stored f)" using f(2,3) r by simp
  show "buf f (buf_index f + i) = remaining stored f ! i" if "i < buf_size f - buf_index f"
    using that f(2,4) r by (simp add: add.assoc)
qed

lemma look_ahead:
  assumes "reading get stored ready f" "need \<le> IO_BUF_SIZE"
  shows "\<exists>g. (if buf_size f < buf_index f + need then qemu_fill_buffer f else Inr f) = Inr g \<and> reading get stored ready g \<and>
    remaining stored g = remaining stored f \<and> min need (length (remaining stored f)) \<le> buf_size g - buf_index g"
proof (cases "buf_size f < buf_index f + need")
  case True
  obtain g where "qemu_fill_buffer f = Inr g" "reading get stored ready g" "remaining stored g = remaining stored f" "buf_index g = 0"
    using fill_delivers [OF assms(1)] by blast
  then show ?thesis using True fill_full [OF assms(1), of g] assms(2) by auto
qed (use assms in auto)

lemma peek_byte_sees:
  assumes "reading get stored ready f" "off < IO_BUF_SIZE"
  shows "\<exists>g. qemu_peek_byte off f = Inr (if off < length (remaining stored f) then remaining stored f ! off else 0, g) \<and>
    reading get stored ready g \<and> remaining stored g = remaining stored f"
proof -
  obtain g where g: "(if buf_size f < buf_index f + (off + 1) then qemu_fill_buffer f else Inr f) = Inr g" "reading get stored ready g"
      "remaining stored g = remaining stored f" "min (off + 1) (length (remaining stored f)) \<le> buf_size g - buf_index g"
    using look_ahead [OF assms(1), of "off + 1"] assms(2) by auto
  note b = buffered [OF g(2)]
  have v: "(if buf_size g \<le> buf_index g + off then 0 else buf g (buf_index g + off)) =
      (if off < length (remaining stored f) then remaining stored f ! off else 0)"
    using b(1) b(2) [of off] g(3,4) by auto
  have "\<not> is_write f" using assms(1) by (simp add: reading_def)
  then have "qemu_peek_byte off f = Inr (if buf_size g \<le> buf_index g + off then 0 else buf g (buf_index g + off), g)"
    using g(1) by (auto simp: qemu_peek_byte_def split: if_splits)
  then show ?thesis using g(2,3) v by auto
qed

lemma peek_buffer_sees:
  assumes "reading get stored ready f" "off + sz \<le> IO_BUF_SIZE"
  shows "\<exists>g. qemu_peek_buffer sz off f = Inr (take sz (drop off (remaining stored f)), g) \<and> reading get stored ready g \<and>
    remaining stored g = remaining stored f \<and> min (off + sz) (length (remaining stored f)) \<le> buf_size g - buf_index g"
proof -
  obtain g where g: "(if buf_size f < buf_index f + (off + sz) then qemu_fill_buffer f else Inr f) = Inr g" "reading get stored ready g"
      "remaining stored g = remaining stored f" "min (off + sz) (length (remaining stored f)) \<le> buf_size g - buf_index g"
    using look_ahead [OF assms] by auto
  note b = buffered [OF g(2)]
  let ?idx = "buf_index g + off"
  have "\<not> is_write f" using assms(1) by (simp add: reading_def)
  moreover have "int (buf_size f) - int (buf_index f + off) < int sz \<longleftrightarrow> buf_size f < buf_index f + (off + sz)" by linarith
  ultimately have p: "qemu_peek_buffer sz off f = Inr (map (\<lambda>i. buf g (?idx + i)) [0..<min sz (buf_size g - ?idx)], g)"
    using g(1) by (auto simp: qemu_peek_buffer_def Let_def split: if_splits)
  have "map (\<lambda>i. buf g (?idx + i)) [0..<min sz (buf_size g - ?idx)] = take sz (drop off (remaining stored f))"
  proof (rule nth_equalityI)
    show "length (map (\<lambda>i. buf g (?idx + i)) [0..<min sz (buf_size g - ?idx)]) = length (take sz (drop off (remaining stored f)))"
      using b(1) g(3,4) by auto
    show "map (\<lambda>i. buf g (?idx + i)) [0..<min sz (buf_size g - ?idx)] ! i = take sz (drop off (remaining stored f)) ! i"
      if "i < length (map (\<lambda>i. buf g (?idx + i)) [0..<min sz (buf_size g - ?idx)])" for i
    proof -
      have "i < sz" "i < buf_size g - ?idx" "off + i < buf_size g - buf_index g" using that by auto
      then show ?thesis using b(1) b(2) [of "off + i"] g(3) by (simp add: add.assoc)
    qed
  qed
  then show ?thesis using p g(2-4) by auto
qed

lemma skip_drops:
  assumes "reading get stored ready f" "buf_index f + n \<le> buf_size f"
  shows "reading get stored ready (qemu_file_skip n f)" "remaining stored (qemu_file_skip n f) = drop n (remaining stored f)"
    "buf_index (qemu_file_skip n f) = buf_index f + n" "buf_size (qemu_file_skip n f) = buf_size f"
  using skip_delivers [OF assms] assms(2) by (simp_all add: qemu_file_skip_def)

end

interpretation file_eager: eager_source file_get_buffer contents "\<lambda>_ _. True"
  by unfold_locales (simp add: file_get_buffer_def fread_def fseek_set_def Let_def min_def)

interpretation stdio_eager: eager_source stdio_get_buffer contents "\<lambda>fp pos. int (fpos fp) = pos"
  by unfold_locales (simp add: stdio_get_buffer_def fread_def Let_def min_def)

end
