(* ===== verification/Gic_Save.thy ===== *)
theory Gic_Save
  imports Gic Stream_Steps
begin

text \<open>
  Saving and restoring the interrupt controller (\<open>gic_save\<close> and \<open>gic_load\<close> of \<open>hw/arm_gic.c\<close>)
  over the byte streams of \<open>savevm.c\<close>. \<open>int\<close> values travel as 32-bit words, the one-bit fields
  as bytes of which the low bit comes back.
\<close>

section \<open>Loops over a file\<close>

definition put_int :: "int \<Rightarrow> 'b QEMUFile \<Rightarrow> 'b QEMUFile res" where
  "put_int v = qemu_put_be32 (word_of_int v)"

definition put_flag :: "bool \<Rightarrow> 'b QEMUFile \<Rightarrow> 'b QEMUFile res" where
  "put_flag v = qemu_put_byte (if v then 1 else 0)"

definition get_int :: "'b QEMUFile \<Rightarrow> (int \<times> 'b QEMUFile) res" where
  "get_int f = bindE (qemu_get_be32 f) (\<lambda>(v, f). Inr (sint v, f))"

definition get_flag :: "'b QEMUFile \<Rightarrow> (bool \<times> 'b QEMUFile) res" where
  "get_flag f = bindE (qemu_get_byte f) (\<lambda>(v, f). Inr (bit v 0, f))"

primrec get_many :: "('b QEMUFile \<Rightarrow> ('a \<times> 'b QEMUFile) res) \<Rightarrow> nat \<Rightarrow> 'b QEMUFile \<Rightarrow> ('a list \<times> 'b QEMUFile) res" where
  "get_many get 0 f = Inr ([], f)"
| "get_many get (Suc n) f = bindE (get f) (\<lambda>(x, f). bindE (get_many get n f) (\<lambda>(xs, f). Inr (x # xs, f)))"

section \<open>The controller\<close>

definition put_irq_state :: "gic_irq_state \<Rightarrow> 'b QEMUFile \<Rightarrow> 'b QEMUFile res" where
  "put_irq_state q =
     foldE put_flag [irq_enabled q, irq_pending q, irq_active q, irq_level q, irq_model q, irq_trigger q]"

definition gic_save :: "'w gic_state \<Rightarrow> 'b QEMUFile \<Rightarrow> 'b QEMUFile res" where
  "gic_save s f =
     bindE (put_int (gic_enabled s) f) (\<lambda>f.
     bindE (put_int (cpu_enabled s) f) (\<lambda>f.
     bindE (foldE (\<lambda>j. put_int (priority1 s ! j)) [0..<32] f) (\<lambda>f.
     bindE (foldE (\<lambda>j. put_int (last_active s ! j)) [0..<GIC_NIRQ] f) (\<lambda>f.
     bindE (put_int (priority_mask s) f) (\<lambda>f.
     bindE (put_int (running_irq s) f) (\<lambda>f.
     bindE (put_int (running_priority s) f) (\<lambda>f.
     bindE (put_int (current_pending s) f) (\<lambda>f.
     bindE (foldE (\<lambda>i. put_int (priority2 s ! i)) [0..<GIC_NIRQ - 32] f)
           (foldE (\<lambda>i. put_irq_state (irq_state s ! i)) [0..<GIC_NIRQ])))))))))"

definition get_irq_state :: "'b QEMUFile \<Rightarrow> (gic_irq_state \<times> 'b QEMUFile) res" where
  "get_irq_state f =
     bindE (get_flag f) (\<lambda>(e, f). bindE (get_flag f) (\<lambda>(p, f). bindE (get_flag f) (\<lambda>(a, f).
     bindE (get_flag f) (\<lambda>(l, f). bindE (get_flag f) (\<lambda>(m, f). bindE (get_flag f) (\<lambda>(t, f).
       Inr (\<lparr>irq_enabled = e, irq_pending = p, irq_active = a, irq_level = l, irq_model = m, irq_trigger = t\<rparr>, f)))))))"

text \<open>The result is 0, or \<open>- EINVAL\<close> for a version other than 2.\<close>

definition gic_load :: "int \<Rightarrow> 'b QEMUFile \<Rightarrow> 'w gic_state \<Rightarrow> ((int \<times> 'w gic_state) \<times> 'b QEMUFile) res" where
  "gic_load version_id f s =
     (if version_id \<noteq> 2 then Inr ((- 22, s), f)
      else
        bindE (get_int f) (\<lambda>(en, f).
        bindE (get_int f) (\<lambda>(cen, f).
        bindE (get_many get_int 32 f) (\<lambda>(p1, f).
        bindE (get_many get_int GIC_NIRQ f) (\<lambda>(la, f).
        bindE (get_int f) (\<lambda>(pm, f).
        bindE (get_int f) (\<lambda>(ri, f).
        bindE (get_int f) (\<lambda>(rp, f).
        bindE (get_int f) (\<lambda>(cp, f).
        bindE (get_many get_int (GIC_NIRQ - 32) f) (\<lambda>(p2, f).
        bindE (get_many get_irq_state GIC_NIRQ f) (\<lambda>(qs, f).
          Inr ((0, s\<lparr>gic_enabled := en, cpu_enabled := cen, priority1 := p1, last_active := la, priority_mask := pm,
                     running_irq := ri, running_priority := rp, current_pending := cp, priority2 := p2,
                      irq_state := qs\<rparr>), f))))))))))))"

section \<open>What is saved is restored\<close>

definition be32 :: "int \<Rightarrow> u8 list" where
  "be32 v = (let w = word_of_int v :: u32 in [ucast (drop_bit 24 w), ucast (drop_bit 16 w), ucast (drop_bit 8 w), ucast w])"

definition flag_byte :: "bool \<Rightarrow> u8" where
  "flag_byte b = (if b then 1 else 0)"

definition irq_bytes :: "gic_irq_state \<Rightarrow> u8 list" where
  "irq_bytes q = map flag_byte [irq_enabled q, irq_pending q, irq_active q, irq_level q, irq_model q, irq_trigger q]"

definition gic_bytes :: "'w gic_state \<Rightarrow> u8 list" where
  "gic_bytes s =
     concat (map be32 ([gic_enabled s, cpu_enabled s] @ priority1 s @ last_active s @
       [priority_mask s, running_irq s, running_priority s, current_pending s] @ priority2 s)) @
     concat (map irq_bytes (irq_state s))"

definition c_int :: "int \<Rightarrow> bool" where
  "c_int v \<longleftrightarrow> - (2 ^ 31) \<le> v \<and> v < 2 ^ 31"

definition gic_ints :: "'w gic_state \<Rightarrow> bool" where
  "gic_ints s \<longleftrightarrow> list_all c_int ([gic_enabled s, cpu_enabled s] @ priority1 s @ last_active s @
     [priority_mask s, running_irq s, running_priority s, current_pending s] @ priority2 s)"

lemma sint_c_int: "c_int v \<Longrightarrow> sint (word_of_int v :: u32) = v"
  by (simp add: c_int_def sint_sbintrunc' signed_take_bit_int_eq_self)

lemma appends_put_int: "appends (put_int v) (be32 v)"
  unfolding appends_def put_int_def be32_def Let_def using file_sink.put_be32_appends by blast

lemma appends_put_flag: "appends (put_flag v) [flag_byte v]"
  unfolding appends_def put_flag_def flag_byte_def using file_sink.put_byte_appends by blast

lemma appends_put_irq_state: "appends (put_irq_state q) (irq_bytes q)"
  using appends_foldE [of "[irq_enabled q, irq_pending q, irq_active q, irq_level q, irq_model q, irq_trigger q]"
      put_flag "\<lambda>v. [flag_byte v]"] appends_put_flag
  by (simp add: put_irq_state_def irq_bytes_def)

lemma map_index:
  assumes "length xs = n"
  shows "concat (map (\<lambda>i. h (xs ! i)) [0..<n]) = concat (map h xs)"
  using assms by (metis (no_types, lifting) map_nth map_map o_apply map_eq_conv)

lemma appends_array:
  assumes "length xs = n" "\<And>x. appends (p x) (h x)"
  shows "appends (foldE (\<lambda>i. p (xs ! i)) [0..<n]) (concat (map h xs))"
  using appends_foldE [of "[0..<n]" "\<lambda>i. p (xs ! i)" "\<lambda>i. h (xs ! i)"] assms by (simp add: map_index)

lemma gic_save_appends:
  assumes "gic_sizes s"
  shows "appends (gic_save s) (gic_bytes s)"
proof -
  have sz: "length (priority1 s) = 32" "length (last_active s) = GIC_NIRQ" "length (priority2 s) = GIC_NIRQ - 32"
    "length (irq_state s) = GIC_NIRQ"
    using assms by (auto simp: gic_sizes_def)
  note array = appends_array [OF _ appends_put_int]
  have "appends (gic_save s) (be32 (gic_enabled s) @ be32 (cpu_enabled s) @ concat (map be32 (priority1 s)) @
      concat (map be32 (last_active s)) @ be32 (priority_mask s) @ be32 (running_irq s) @ be32 (running_priority s) @
      be32 (current_pending s) @ concat (map be32 (priority2 s)) @ concat (map irq_bytes (irq_state s)))"
    unfolding gic_save_def
    by (intro appends_bind appends_put_int array appends_array [OF _ appends_put_irq_state] sz)
  then show ?thesis by (simp add: gic_bytes_def)
qed

lemma takes_get_int: "c_int v \<Longrightarrow> takes get_int (be32 v) v"
proof -
  assume v: "c_int v"
  let ?w = "word_of_int v :: u32"
  have "takes qemu_get_be32 (be32 v) ?w"
    unfolding takes_def
  proof (intro allI impI)
    fix f vs
    assume "reading file_get_buffer contents (\<lambda>_ _. True) f" "remaining contents f = be32 v @ vs"
    then show "\<exists>g. qemu_get_be32 f = Inr (?w, g) \<and> reading file_get_buffer contents (\<lambda>_ _. True) g \<and> remaining contents g = vs"
      using file_source.get_be32_delivers [of f "ucast (drop_bit 24 ?w)" "ucast (drop_bit 16 ?w)" "ucast (drop_bit 8 ?w)" "ucast ?w" vs]
      by (auto simp: be32_def Let_def be32_word)
  qed
  then have "takes (\<lambda>f. bindE (qemu_get_be32 f) (\<lambda>(v, f). Inr (sint v, f))) (be32 v @ []) (sint ?w)"
    by (rule takes_bind [where q = "\<lambda>v f. Inr (sint v, f)"]) (rule takes_Inr)
  then show "takes get_int (be32 v) v" using sint_c_int [OF v] by (simp add: get_int_def [abs_def])
qed

lemma takes_get_flag: "takes get_flag [flag_byte v] v"
  unfolding takes_def get_flag_def flag_byte_def
  using file_source.get_byte_delivers by (cases v) fastforce+

lemma takes_get_many:
  assumes "\<And>x. x \<in> set xs \<Longrightarrow> takes get (h x) x" "length xs = n"
  shows "takes (get_many get n) (concat (map h xs)) xs"
  using assms
proof (induction xs arbitrary: n)
  case Nil
  then show ?case by (simp add: takes_def)
next
  case (Cons x xs)
  then obtain m where n: "n = Suc m" by auto
  have "takes (get_many get m) (concat (map h xs)) xs" using Cons n by simp
  then have "takes (\<lambda>f. bindE (get_many get m f) (\<lambda>(xs, f). Inr (x # xs, f))) (concat (map h xs) @ []) (x # xs)"
    by (rule takes_bind [where q = "\<lambda>xs f. Inr (x # xs, f)"]) (rule takes_Inr)
  then have "takes (\<lambda>f. bindE (get f) (\<lambda>(x, f). bindE (get_many get m f) (\<lambda>(xs, f). Inr (x # xs, f))))
      (h x @ concat (map h xs) @ []) (x # xs)"
    using Cons.prems(1) by (intro takes_bind [where q = "\<lambda>x f. bindE (get_many get m f) (\<lambda>(xs, f). Inr (x # xs, f))"]) simp_all
  then show ?case by (simp add: n)
qed

lemma takes_get_irq_state: "takes get_irq_state (irq_bytes q) q"
proof -
  have "takes get_irq_state ([flag_byte (irq_enabled q)] @ [flag_byte (irq_pending q)] @ [flag_byte (irq_active q)] @
      [flag_byte (irq_level q)] @ [flag_byte (irq_model q)] @ [flag_byte (irq_trigger q)] @ []) q"
    unfolding get_irq_state_def [abs_def]
    by (intro takes_bind [OF takes_get_flag]) (simp add: takes_def)
  then show ?thesis by (simp add: irq_bytes_def)
qed

lemma gic_load_takes:
  assumes "gic_sizes s" "gic_ints s"
  shows "takes (\<lambda>f. gic_load 2 f t) (gic_bytes s) (0, s\<lparr>parent_irq := parent_irq t\<rparr>)"
proof -
  have sz: "length (priority1 s) = 32" "length (last_active s) = GIC_NIRQ" "length (priority2 s) = GIC_NIRQ - 32"
    "length (irq_state s) = GIC_NIRQ"
    using assms(1) by (auto simp: gic_sizes_def)
  have c: "c_int (gic_enabled s)" "c_int (cpu_enabled s)" "c_int (priority_mask s)" "c_int (running_irq s)"
    "c_int (running_priority s)" "c_int (current_pending s)"
    "\<And>x. x \<in> set (priority1 s) \<Longrightarrow> c_int x" "\<And>x. x \<in> set (last_active s) \<Longrightarrow> c_int x" "\<And>x. x \<in> set (priority2 s) \<Longrightarrow> c_int x"
    using assms(2) by (auto simp: gic_ints_def list_all_iff)
  note many = takes_get_many [OF takes_get_int]
  let ?t = "t\<lparr>gic_enabled := gic_enabled s, cpu_enabled := cpu_enabled s, priority1 := priority1 s, last_active := last_active s,
    priority_mask := priority_mask s, running_irq := running_irq s, running_priority := running_priority s,
    current_pending := current_pending s, priority2 := priority2 s, irq_state := irq_state s\<rparr>"
  have "takes (\<lambda>f. gic_load 2 f t)
      (be32 (gic_enabled s) @ be32 (cpu_enabled s) @ concat (map be32 (priority1 s)) @
       concat (map be32 (last_active s)) @ be32 (priority_mask s) @ be32 (running_irq s) @ be32 (running_priority s) @
       be32 (current_pending s) @ concat (map be32 (priority2 s)) @ concat (map irq_bytes (irq_state s)) @ []) (0, ?t)"
    unfolding gic_load_def simp_thms if_False
    by (intro takes_bind [OF takes_get_int [OF c(1)]] takes_bind [OF takes_get_int [OF c(2)]]
        takes_bind [OF many [OF c(7) sz(1)]] takes_bind [OF many [OF c(8) sz(2)]]
        takes_bind [OF takes_get_int [OF c(3)]] takes_bind [OF takes_get_int [OF c(4)]] takes_bind [OF takes_get_int [OF c(5)]]
        takes_bind [OF takes_get_int [OF c(6)]] takes_bind [OF many [OF c(9) sz(3)]]
        takes_bind [OF takes_get_many [OF takes_get_irq_state sz(4)]] takes_Inr)
  moreover have "?t = s\<lparr>parent_irq := parent_irq t\<rparr>" by (auto intro!: gic_state.equality)
  ultimately show ?thesis by (simp add: gic_bytes_def)
qed

text \<open>
  C20: the interrupt controller survives migration: what \<open>gic_save\<close> writes to a file, \<open>gic_load\<close>
  restores exactly into any other controller, which keeps its own output line.
\<close>

theorem gic_save_load:
  assumes "gic_sizes s" "gic_ints s"
  shows "\<exists>g. gic_save s (qemu_fopen_ops new_file (Some file_put_buffer) None) = Inr g \<and>
    (\<exists>h. gic_load 2 (qemu_fopen_ops (back_end (qemu_fflush g)) None (Some file_get_buffer)) t =
           Inr ((0, s\<lparr>parent_irq := parent_irq t\<rparr>), h))"
proof -
  let ?f = "qemu_fopen_ops new_file (Some file_put_buffer) None"
  obtain g where g: "gic_save s ?f = Inr g" "writing file_put_buffer contents (\<lambda>_. True) g" "written contents g = gic_bytes s"
    using gic_save_appends [OF assms(1)] opened(1,2) unfolding appends_def by fastforce
  have "contents (back_end (qemu_fflush g)) = gic_bytes s"
    using file_sink.flushed [OF g(2)] g(3) by simp
  then obtain h where "gic_load 2 (qemu_fopen_ops (back_end (qemu_fflush g)) None (Some file_get_buffer)) t =
      Inr ((0, s\<lparr>parent_irq := parent_irq t\<rparr>), h)"
    using gic_load_takes [OF assms, of t] opened(3,4) [of "back_end (qemu_fflush g)"] unfolding takes_def by (metis append_Nil2)
  then show ?thesis using g(1) by blast
qed

lemma gic_init_ok: "gic_sizes (gic_init :: unit gic_state)" "gic_ints (gic_init :: unit gic_state)"
  by code_simp+

theorem gic_save_load_witness:
  "\<exists>g h. gic_save (gic_init :: unit gic_state) (qemu_fopen_ops new_file (Some file_put_buffer) None) = Inr g \<and>
     gic_load 2 (qemu_fopen_ops (back_end (qemu_fflush g)) None (Some file_get_buffer)) (gic_init :: unit gic_state) = Inr ((0, gic_init), h)"
  using gic_save_load [OF gic_init_ok, of gic_init] by auto

end
