(* ===== verification/Vmstate.thy ===== *)
theory Vmstate
  imports Bytes Stream_Steps
begin

text \<open>
  The descriptions of device state (\<open>hw/hw.h\<close>, \<open>savevm.c\<close>): a \<open>VMStateDescription\<close> lists the fields of
  a structure in host memory, and \<open>vmstate_save_state\<close> and \<open>vmstate_load_state\<close> walk it to write
  the fields to a file and to read them back. Host memory is a function from 64-bit addresses to
  bytes, in which a little-endian host keeps numbers and pointers. The functions of a description
  (\<open>pre_load\<close>, \<open>post_load\<close>, \<open>pre_save\<close>, \<open>field_exists\<close>, \<open>needed\<close>, \<open>load_state_old\<close>) are HOL functions
  on that memory. The kind of field for timers is not modelled, as it does not work on memory.
\<close>

section \<open>Host memory\<close>

type_synonym hostmem = "u64 \<Rightarrow> u8"

definition load_bytes :: "nat \<Rightarrow> u64 \<Rightarrow> hostmem \<Rightarrow> u8 list" where
  "load_bytes n a m = map (\<lambda>i. m (a + word_of_nat i)) [0..<n]"

definition store_at :: "u64 \<Rightarrow> u8 list \<Rightarrow> hostmem \<Rightarrow> hostmem" where
  "store_at a bs m = (\<lambda>x. if unat (x - a) < length bs then bs ! unat (x - a) else m x)"

definition load_le :: "nat \<Rightarrow> u64 \<Rightarrow> hostmem \<Rightarrow> u64" where
  "load_le n a m = from_le (load_bytes n a m)"

definition int32 :: "int \<Rightarrow> int" where
  "int32 x = sint (word_of_int x :: u32)"

section \<open>Kinds of fields\<close>

text \<open>The result of a loader is its return value and the memory; \<open>EINVAL\<close> is 22.\<close>

type_synonym 'b loader = "'b QEMUFile \<Rightarrow> ((int \<times> hostmem) \<times> 'b QEMUFile) res"

definition get_bool :: "u64 \<Rightarrow> int \<Rightarrow> hostmem \<Rightarrow> 'b loader" where
  "get_bool pv sz m f = bindE (qemu_get_byte f) (\<lambda>(v, f). Inr ((0, store_at pv [if v \<noteq> 0 then 1 else 0] m), f))"

definition put_bool :: "u64 \<Rightarrow> int \<Rightarrow> hostmem \<Rightarrow> 'b QEMUFile \<Rightarrow> 'b QEMUFile res" where
  "put_bool pv sz m = qemu_put_byte (m pv)"

definition get_int8 :: "u64 \<Rightarrow> int \<Rightarrow> hostmem \<Rightarrow> 'b loader" where
  "get_int8 pv sz m f = bindE (qemu_get_byte f) (\<lambda>(v, f). Inr ((0, store_at pv (to_le 1 (ucast v)) m), f))"

definition put_int8 :: "u64 \<Rightarrow> int \<Rightarrow> hostmem \<Rightarrow> 'b QEMUFile \<Rightarrow> 'b QEMUFile res" where
  "put_int8 pv sz m = qemu_put_byte (ucast (load_le 1 pv m))"

definition get_int16 :: "u64 \<Rightarrow> int \<Rightarrow> hostmem \<Rightarrow> 'b loader" where
  "get_int16 pv sz m f = bindE (qemu_get_be16 f) (\<lambda>(v, f). Inr ((0, store_at pv (to_le 2 (ucast v)) m), f))"

definition put_int16 :: "u64 \<Rightarrow> int \<Rightarrow> hostmem \<Rightarrow> 'b QEMUFile \<Rightarrow> 'b QEMUFile res" where
  "put_int16 pv sz m = qemu_put_be16 (ucast (load_le 2 pv m))"

definition get_int32 :: "u64 \<Rightarrow> int \<Rightarrow> hostmem \<Rightarrow> 'b loader" where
  "get_int32 pv sz m f = bindE (qemu_get_be32 f) (\<lambda>(v, f). Inr ((0, store_at pv (to_le 4 (ucast v)) m), f))"

definition put_int32 :: "u64 \<Rightarrow> int \<Rightarrow> hostmem \<Rightarrow> 'b QEMUFile \<Rightarrow> 'b QEMUFile res" where
  "put_int32 pv sz m = qemu_put_be32 (ucast (load_le 4 pv m))"

definition get_int32_equal :: "u64 \<Rightarrow> int \<Rightarrow> hostmem \<Rightarrow> 'b loader" where
  "get_int32_equal pv sz m f = bindE (qemu_get_be32 f) (\<lambda>(v2, f). Inr ((if load_le 4 pv m = ucast v2 then 0 else - 22, m), f))"

definition get_int32_le :: "u64 \<Rightarrow> int \<Rightarrow> hostmem \<Rightarrow> 'b loader" where
  "get_int32_le pv sz m f =
     bindE (qemu_get_be32 f) (\<lambda>(v, f). Inr ((if sint (ucast (load_le 4 pv m) :: u32) \<le> sint v then 0 else - 22, m), f))"

definition get_int64 :: "u64 \<Rightarrow> int \<Rightarrow> hostmem \<Rightarrow> 'b loader" where
  "get_int64 pv sz m f = bindE (qemu_get_be64 f) (\<lambda>(v, f). Inr ((0, store_at pv (to_le 8 (ucast v)) m), f))"

definition put_int64 :: "u64 \<Rightarrow> int \<Rightarrow> hostmem \<Rightarrow> 'b QEMUFile \<Rightarrow> 'b QEMUFile res" where
  "put_int64 pv sz m = qemu_put_be64 (ucast (load_le 8 pv m))"

definition get_uint8 :: "u64 \<Rightarrow> int \<Rightarrow> hostmem \<Rightarrow> 'b loader" where
  "get_uint8 pv sz m f = bindE (qemu_get_byte f) (\<lambda>(v, f). Inr ((0, store_at pv (to_le 1 (ucast v)) m), f))"

definition put_uint8 :: "u64 \<Rightarrow> int \<Rightarrow> hostmem \<Rightarrow> 'b QEMUFile \<Rightarrow> 'b QEMUFile res" where
  "put_uint8 pv sz m = qemu_put_byte (ucast (load_le 1 pv m))"

definition get_uint16 :: "u64 \<Rightarrow> int \<Rightarrow> hostmem \<Rightarrow> 'b loader" where
  "get_uint16 pv sz m f = bindE (qemu_get_be16 f) (\<lambda>(v, f). Inr ((0, store_at pv (to_le 2 (ucast v)) m), f))"

definition put_uint16 :: "u64 \<Rightarrow> int \<Rightarrow> hostmem \<Rightarrow> 'b QEMUFile \<Rightarrow> 'b QEMUFile res" where
  "put_uint16 pv sz m = qemu_put_be16 (ucast (load_le 2 pv m))"

definition get_uint32 :: "u64 \<Rightarrow> int \<Rightarrow> hostmem \<Rightarrow> 'b loader" where
  "get_uint32 pv sz m f = bindE (qemu_get_be32 f) (\<lambda>(v, f). Inr ((0, store_at pv (to_le 4 (ucast v)) m), f))"

definition put_uint32 :: "u64 \<Rightarrow> int \<Rightarrow> hostmem \<Rightarrow> 'b QEMUFile \<Rightarrow> 'b QEMUFile res" where
  "put_uint32 pv sz m = qemu_put_be32 (ucast (load_le 4 pv m))"

definition get_uint32_equal :: "u64 \<Rightarrow> int \<Rightarrow> hostmem \<Rightarrow> 'b loader" where
  "get_uint32_equal pv sz m f = bindE (qemu_get_be32 f) (\<lambda>(v2, f). Inr ((if load_le 4 pv m = ucast v2 then 0 else - 22, m), f))"

definition get_uint64 :: "u64 \<Rightarrow> int \<Rightarrow> hostmem \<Rightarrow> 'b loader" where
  "get_uint64 pv sz m f = bindE (qemu_get_be64 f) (\<lambda>(v, f). Inr ((0, store_at pv (to_le 8 (ucast v)) m), f))"

definition put_uint64 :: "u64 \<Rightarrow> int \<Rightarrow> hostmem \<Rightarrow> 'b QEMUFile \<Rightarrow> 'b QEMUFile res" where
  "put_uint64 pv sz m = qemu_put_be64 (ucast (load_le 8 pv m))"

definition get_uint8_equal :: "u64 \<Rightarrow> int \<Rightarrow> hostmem \<Rightarrow> 'b loader" where
  "get_uint8_equal pv sz m f = bindE (qemu_get_byte f) (\<lambda>(v2, f). Inr ((if load_le 1 pv m = ucast v2 then 0 else - 22, m), f))"

definition get_uint16_equal :: "u64 \<Rightarrow> int \<Rightarrow> hostmem \<Rightarrow> 'b loader" where
  "get_uint16_equal pv sz m f = bindE (qemu_get_be16 f) (\<lambda>(v2, f). Inr ((if load_le 2 pv m = ucast v2 then 0 else - 22, m), f))"

definition get_buffer :: "u64 \<Rightarrow> int \<Rightarrow> hostmem \<Rightarrow> 'b loader" where
  "get_buffer pv sz m f = bindE (qemu_get_buffer (nat sz) f) (\<lambda>(bs, f). Inr ((0, store_at pv bs m), f))"

definition put_buffer :: "u64 \<Rightarrow> int \<Rightarrow> hostmem \<Rightarrow> 'b QEMUFile \<Rightarrow> 'b QEMUFile res" where
  "put_buffer pv sz m = qemu_put_buffer (nat sz + 1) (load_bytes (nat sz) pv m)"

text \<open>Unused space is moved in blocks of at most 1024 bytes; its size is a \<open>size_t\<close>.\<close>

definition size_t :: "int \<Rightarrow> nat" where
  "size_t sz = unat (word_of_int sz :: u64)"

function get_unused :: "nat \<Rightarrow> 'b QEMUFile \<Rightarrow> 'b QEMUFile res" where
  "get_unused sz f =
     (if sz = 0 then Inr f
      else let block_len = min 1024 sz in bindE (qemu_get_buffer block_len f) (\<lambda>(bs, f). get_unused (sz - block_len) f))"
  by pat_completeness auto
termination
  by (relation "measure fst") auto

function put_unused :: "nat \<Rightarrow> 'b QEMUFile \<Rightarrow> 'b QEMUFile res" where
  "put_unused sz f =
     (if sz = 0 then Inr f
      else let block_len = min 1024 sz
           in bindE (qemu_put_buffer (block_len + 1) (replicate block_len 0) f) (put_unused (sz - block_len)))"
  by pat_completeness auto
termination
  by (relation "measure fst") auto

declare get_unused.simps [simp del] put_unused.simps [simp del]

definition get_unused_buffer :: "u64 \<Rightarrow> int \<Rightarrow> hostmem \<Rightarrow> 'b loader" where
  "get_unused_buffer pv sz m f = bindE (get_unused (size_t sz) f) (\<lambda>f. Inr ((0, m), f))"

definition put_unused_buffer :: "u64 \<Rightarrow> int \<Rightarrow> hostmem \<Rightarrow> 'b QEMUFile \<Rightarrow> 'b QEMUFile res" where
  "put_unused_buffer pv sz m = put_unused (size_t sz)"

datatype VMStateInfo =
    vmstate_info_bool
  | vmstate_info_int8
  | vmstate_info_int16
  | vmstate_info_int32
  | vmstate_info_int32_equal
  | vmstate_info_int32_le
  | vmstate_info_int64
  | vmstate_info_uint8
  | vmstate_info_uint16
  | vmstate_info_uint32
  | vmstate_info_uint32_equal
  | vmstate_info_uint64
  | vmstate_info_uint8_equal
  | vmstate_info_uint16_equal
  | vmstate_info_buffer
  | vmstate_info_unused_buffer

fun info_get :: "VMStateInfo \<Rightarrow> u64 \<Rightarrow> int \<Rightarrow> hostmem \<Rightarrow> 'b loader" where
  "info_get vmstate_info_bool = get_bool"
| "info_get vmstate_info_int8 = get_int8"
| "info_get vmstate_info_int16 = get_int16"
| "info_get vmstate_info_int32 = get_int32"
| "info_get vmstate_info_int32_equal = get_int32_equal"
| "info_get vmstate_info_int32_le = get_int32_le"
| "info_get vmstate_info_int64 = get_int64"
| "info_get vmstate_info_uint8 = get_uint8"
| "info_get vmstate_info_uint16 = get_uint16"
| "info_get vmstate_info_uint32 = get_uint32"
| "info_get vmstate_info_uint32_equal = get_uint32_equal"
| "info_get vmstate_info_uint64 = get_uint64"
| "info_get vmstate_info_uint8_equal = get_uint8_equal"
| "info_get vmstate_info_uint16_equal = get_uint16_equal"
| "info_get vmstate_info_buffer = get_buffer"
| "info_get vmstate_info_unused_buffer = get_unused_buffer"

fun info_put :: "VMStateInfo \<Rightarrow> u64 \<Rightarrow> int \<Rightarrow> hostmem \<Rightarrow> 'b QEMUFile \<Rightarrow> 'b QEMUFile res" where
  "info_put vmstate_info_bool = put_bool"
| "info_put vmstate_info_int8 = put_int8"
| "info_put vmstate_info_int16 = put_int16"
| "info_put vmstate_info_int32 = put_int32"
| "info_put vmstate_info_int32_equal = put_int32"
| "info_put vmstate_info_int32_le = put_int32"
| "info_put vmstate_info_int64 = put_int64"
| "info_put vmstate_info_uint8 = put_uint8"
| "info_put vmstate_info_uint16 = put_uint16"
| "info_put vmstate_info_uint32 = put_uint32"
| "info_put vmstate_info_uint32_equal = put_uint32"
| "info_put vmstate_info_uint64 = put_uint64"
| "info_put vmstate_info_uint8_equal = put_uint8"
| "info_put vmstate_info_uint16_equal = put_uint16"
| "info_put vmstate_info_buffer = put_buffer"
| "info_put vmstate_info_unused_buffer = put_unused_buffer"

section \<open>Descriptions\<close>

definition VMS_POINTER :: u32 where "VMS_POINTER = 0x002"
definition VMS_ARRAY :: u32 where "VMS_ARRAY = 0x004"
definition VMS_STRUCT :: u32 where "VMS_STRUCT = 0x008"
definition VMS_VARRAY_INT32 :: u32 where "VMS_VARRAY_INT32 = 0x010"
definition VMS_ARRAY_OF_POINTER :: u32 where "VMS_ARRAY_OF_POINTER = 0x040"
definition VMS_VARRAY_UINT16 :: u32 where "VMS_VARRAY_UINT16 = 0x080"
definition VMS_VBUFFER :: u32 where "VMS_VBUFFER = 0x100"
definition VMS_MULTIPLY :: u32 where "VMS_MULTIPLY = 0x200"
definition VMS_VARRAY_UINT8 :: u32 where "VMS_VARRAY_UINT8 = 0x400"
definition VMS_VARRAY_UINT32 :: u32 where "VMS_VARRAY_UINT32 = 0x800"

text \<open>
  Names are C strings, without a terminator; \<open>info\<close> and \<open>vmsd\<close> of a field are pointers that may be
  null.
\<close>

type_synonym cstring = "u8 list"

datatype 'b VMStateDescription =
    VMStateDescription
      (vm_name: cstring)
      (unmigratable: bool)
      (vm_version_id: int)
      (minimum_version_id: int)
      (minimum_version_id_old: int)
      (load_state_old: "(u64 \<Rightarrow> int \<Rightarrow> hostmem \<Rightarrow> 'b loader) option")
      (pre_load: "(u64 \<Rightarrow> hostmem \<Rightarrow> int \<times> hostmem) option")
      (post_load: "(u64 \<Rightarrow> int \<Rightarrow> hostmem \<Rightarrow> int \<times> hostmem) option")
      (pre_save: "(u64 \<Rightarrow> hostmem \<Rightarrow> hostmem) option")
      (fields: "'b VMStateField list")
      (subsections: "('b VMStateDescription \<times> (u64 \<Rightarrow> hostmem \<Rightarrow> bool)) list")
  and 'b VMStateField =
    VMStateField
      (fl_offset: u64)
      (fl_size: nat)
      (fl_start: u64)
      (fl_num: int)
      (fl_num_offset: u64)
      (fl_size_offset: u64)
      (fl_info: "VMStateInfo option")
      (fl_flags: u32)
      (fl_vmsd: "'b VMStateDescription option")
      (fl_version_id: int)
      (field_exists: "(u64 \<Rightarrow> hostmem \<Rightarrow> int \<Rightarrow> bool) option")

definition has :: "'b VMStateField \<Rightarrow> u32 \<Rightarrow> bool" where
  "has fl flag \<longleftrightarrow> fl_flags fl AND flag \<noteq> 0"

text \<open>
  Where the elements of a field are: their size, their number, which saving and loading
  determine differently, and their addresses.
\<close>

definition field_size :: "'b VMStateField \<Rightarrow> u64 \<Rightarrow> hostmem \<Rightarrow> int" where
  "field_size fl opaque m =
     (if has fl VMS_VBUFFER then
        let sz = sint (ucast (load_le 4 (opaque + fl_size_offset fl) m) :: u32)
        in if has fl VMS_MULTIPLY then int32 (sz * int (fl_size fl)) else sz
      else int32 (int (fl_size fl)))"

definition n_elems_load :: "'b VMStateField \<Rightarrow> u64 \<Rightarrow> hostmem \<Rightarrow> int" where
  "n_elems_load fl opaque m =
     (let at = opaque + fl_num_offset fl
      in if has fl VMS_ARRAY then fl_num fl
         else if has fl VMS_VARRAY_INT32 then sint (ucast (load_le 4 at m) :: u32)
         else if has fl VMS_VARRAY_UINT32 then sint (ucast (load_le 4 at m) :: u32)
         else if has fl VMS_VARRAY_UINT16 then uint (load_le 2 at m)
         else if has fl VMS_VARRAY_UINT8 then uint (load_le 1 at m)
         else 1)"

definition n_elems_save :: "'b VMStateField \<Rightarrow> u64 \<Rightarrow> hostmem \<Rightarrow> int" where
  "n_elems_save fl opaque m =
     (let at = opaque + fl_num_offset fl
      in if has fl VMS_ARRAY then fl_num fl
         else if has fl VMS_VARRAY_INT32 then sint (ucast (load_le 4 at m) :: u32)
         else if has fl VMS_VARRAY_UINT16 then uint (load_le 2 at m)
         else if has fl VMS_VARRAY_UINT8 then uint (load_le 1 at m)
         else 1)"

definition base_addr :: "'b VMStateField \<Rightarrow> u64 \<Rightarrow> hostmem \<Rightarrow> u64" where
  "base_addr fl opaque m =
     (if has fl VMS_POINTER then load_le 8 (opaque + fl_offset fl) m + fl_start fl else opaque + fl_offset fl)"

definition elem_addr :: "'b VMStateField \<Rightarrow> u64 \<Rightarrow> int \<Rightarrow> nat \<Rightarrow> hostmem \<Rightarrow> u64" where
  "elem_addr fl base sz i m =
     (let addr = base + word_of_int (int32 (sz * int i)) in if has fl VMS_ARRAY_OF_POINTER then load_le 8 addr m else addr)"

section \<open>Saving\<close>

lemma bindE_cong [fundef_cong]: "m = n \<Longrightarrow> (\<And>x. n = Inr x \<Longrightarrow> f x = g x) \<Longrightarrow> bindE m f = bindE n g"
  by (cases n) simp_all

lemma foldE_cong [fundef_cong]:
  "xs = ys \<Longrightarrow> s = t \<Longrightarrow> (\<And>x s. x \<in> set ys \<Longrightarrow> f x s = g x s) \<Longrightarrow> foldE f xs s = foldE g ys t"
proof (induction ys arbitrary: xs s t)
  case (Cons y ys)
  have "foldE f ys u = foldE g ys u" for u using Cons.prems(3) by (intro Cons.IH) simp_all
  then have "foldE f ys = foldE g ys" ..
  then show ?case using Cons.prems by simp
qed simp

text \<open>Descriptions are finite trees: what a description contains is smaller than it is.\<close>

lemma size_vmsd: "fl_vmsd fl = Some v \<Longrightarrow> size v < size fl"
  by (cases fl) simp

lemma size_subs: "size_list (\<lambda>x. size (fst x)) subs \<le> size_list (size_prod size (\<lambda>_. 0)) subs"
  by (induction subs) auto

lemma size_fields: "size_list size (fields v) < size v"
  by (cases v) simp

lemma size_subsections: "size_list (\<lambda>x. size (fst x)) (subsections v) < size v"
proof (cases v)
  case (VMStateDescription x1 x2 x3 x4 x5 x6 x7 x8 x9 x10 x11)
  then show ?thesis using size_subs [of x11] by simp
qed

definition QEMU_VM_SUBSECTION :: u8 where "QEMU_VM_SUBSECTION = 5"

text \<open>
  The memory is threaded because \<open>pre_save\<close> may change it. The length of a subsection's name is
  written as one byte, and that many bytes of the name follow.
\<close>

function (sequential)
  vmstate_save_state :: "'b VMStateDescription \<Rightarrow> u64 \<Rightarrow> 'b QEMUFile \<times> hostmem \<Rightarrow> ('b QEMUFile \<times> hostmem) res" and
  save_fields :: "int \<Rightarrow> 'b VMStateField list \<Rightarrow> u64 \<Rightarrow> 'b QEMUFile \<times> hostmem \<Rightarrow> ('b QEMUFile \<times> hostmem) res" and
  vmstate_subsection_save ::
    "('b VMStateDescription \<times> (u64 \<Rightarrow> hostmem \<Rightarrow> bool)) list \<Rightarrow> u64 \<Rightarrow> 'b QEMUFile \<times> hostmem \<Rightarrow> ('b QEMUFile \<times> hostmem) res"
where
  "vmstate_save_state v opaque (f, m) =
     bindE (save_fields (vm_version_id v) (fields v) opaque (f, case pre_save v of None \<Rightarrow> m | Some h \<Rightarrow> h opaque m))
       (vmstate_subsection_save (subsections v) opaque)"
| "save_fields version [] opaque s = Inr s"
| "save_fields version (fl # fls) opaque (f, m) =
     bindE
       (if (case field_exists fl of None \<Rightarrow> True | Some p \<Rightarrow> p opaque m version) then
          let base = base_addr fl opaque m; sz = field_size fl opaque m
          in foldE (\<lambda>i (f, m).
               let addr = elem_addr fl base sz i m
               in if has fl VMS_STRUCT then
                    (case fl_vmsd fl of None \<Rightarrow> Inl (out_of_bounds ''field->vmsd'') | Some v \<Rightarrow> vmstate_save_state v addr (f, m))
                  else
                    (case fl_info fl of None \<Rightarrow> Inl (out_of_bounds ''field->info'')
                     | Some i \<Rightarrow> bindE (info_put i addr sz m f) (\<lambda>f. Inr (f, m))))
             [0..<nat (n_elems_save fl opaque m)] (f, m)
        else Inr (f, m))
       (save_fields version fls opaque)"
| "vmstate_subsection_save [] opaque s = Inr s"
| "vmstate_subsection_save ((v, needed) # subs) opaque (f, m) =
     bindE
       (if needed opaque m then
          bindE (qemu_put_byte QEMU_VM_SUBSECTION f) (\<lambda>f.
          let len = length (vm_name v)
          in bindE (qemu_put_byte (word_of_nat len) f) (\<lambda>f.
             bindE (qemu_put_buffer (len + 1) (take (len mod 256) (vm_name v)) f) (\<lambda>f.
             bindE (qemu_put_be32 (word_of_int (vm_version_id v)) f) (\<lambda>f.
             vmstate_save_state v opaque (f, m)))))
        else Inr (f, m))
       (vmstate_subsection_save subs opaque)"
  by pat_completeness auto
termination
  by (relation "measure (case_sum (\<lambda>(v, _). size v) (case_sum (\<lambda>(_, fls, _). size_list size fls) (\<lambda>(subs, _). size_list (\<lambda>x. size (fst x)) subs)))")
    (auto simp: size_fields size_subsections dest: size_vmsd)

section \<open>Loading\<close>

text \<open>
  A loader goes on only after a result that is not negative. The loop over the subsections is
  bounded by a number of rounds; every round but the last takes the bytes of one subsection.
\<close>

definition on_success ::
  "((int \<times> hostmem) \<times> 'b QEMUFile) res \<Rightarrow> (hostmem \<Rightarrow> 'b loader) \<Rightarrow> ((int \<times> hostmem) \<times> 'b QEMUFile) res" where
  "on_success p q = bindE p (\<lambda>((r, m), f). if r < 0 then Inr ((r, m), f) else q m f)"

lemma on_success_cong [fundef_cong]:
  "p = p' \<Longrightarrow> (\<And>r m f. p' = Inr ((r, m), f) \<Longrightarrow> q m f = q' m f) \<Longrightarrow> on_success p q = on_success p' q'"
  unfolding on_success_def by (cases p') auto

primrec load_elems :: "(nat \<Rightarrow> hostmem \<Rightarrow> 'b loader) \<Rightarrow> nat list \<Rightarrow> hostmem \<Rightarrow> 'b loader" where
  "load_elems p [] m f = Inr ((0, m), f)"
| "load_elems p (i # is) m f = on_success (p i m f) (load_elems p is)"

lemma load_elems_cong [fundef_cong]:
  "is = js \<Longrightarrow> m = m' \<Longrightarrow> f = f' \<Longrightarrow> (\<And>i m f. i \<in> set js \<Longrightarrow> p i m f = q i m f) \<Longrightarrow>
   load_elems p is m f = load_elems q js m' f'"
proof (induction js arbitrary: "is" m f m' f')
  case (Cons j js)
  have "load_elems p js m f = load_elems q js m f" for m f using Cons.prems(4) by (intro Cons.IH) simp_all
  then have "load_elems p js = load_elems q js" by blast
  then show ?case using Cons.prems by simp
qed simp

definition exists_load :: "'b VMStateField \<Rightarrow> u64 \<Rightarrow> int \<Rightarrow> hostmem \<Rightarrow> bool" where
  "exists_load fl opaque version m \<longleftrightarrow>
     (case field_exists fl of Some p \<Rightarrow> p opaque m version | None \<Rightarrow> fl_version_id fl \<le> version)"

fun vmstate_get_subsection ::
  "('b VMStateDescription \<times> (u64 \<Rightarrow> hostmem \<Rightarrow> bool)) list \<Rightarrow> cstring \<Rightarrow> 'b VMStateDescription option" where
  "vmstate_get_subsection [] idstr = None"
| "vmstate_get_subsection ((v, needed) # subs) idstr =
     (if idstr = vm_name v then Some v else vmstate_get_subsection subs idstr)"

lemma size_get_subsection:
  "vmstate_get_subsection subs idstr = Some v \<Longrightarrow> size v < size_list (\<lambda>x. size (fst x)) subs"
  by (induction subs) (auto split: if_splits)

text \<open>A C string in an array ends at its first null byte.\<close>

definition c_string :: "u8 list \<Rightarrow> cstring" where
  "c_string = takeWhile (\<lambda>b. b \<noteq> 0)"

function (sequential)
  vmstate_load_state :: "nat \<Rightarrow> 'b VMStateDescription \<Rightarrow> u64 \<Rightarrow> int \<Rightarrow> hostmem \<Rightarrow> 'b loader" and
  load_fields :: "nat \<Rightarrow> int \<Rightarrow> 'b VMStateField list \<Rightarrow> u64 \<Rightarrow> hostmem \<Rightarrow> 'b loader" and
  vmstate_subsection_load ::
    "nat \<Rightarrow> nat \<Rightarrow> cstring \<Rightarrow> ('b VMStateDescription \<times> (u64 \<Rightarrow> hostmem \<Rightarrow> bool)) list \<Rightarrow> u64 \<Rightarrow> hostmem \<Rightarrow> 'b loader"
where
  "vmstate_load_state n v opaque version m f =
     (if vm_version_id v < version then Inr ((- 22, m), f)
      else if version < minimum_version_id_old v then Inr ((- 22, m), f)
      else if version < minimum_version_id v then
        (case load_state_old v of None \<Rightarrow> Inl (out_of_bounds ''load_state_old'') | Some h \<Rightarrow> h opaque version m f)
      else case (case pre_load v of None \<Rightarrow> (0, m) | Some h \<Rightarrow> h opaque m) of (ret, m) \<Rightarrow>
        if ret \<noteq> 0 then Inr ((ret, m), f)
        else on_success (load_fields n version (fields v) opaque m f) (\<lambda>m f.
          bindE (vmstate_subsection_load n n (vm_name v) (subsections v) opaque m f) (\<lambda>((ret, m), f).
            if ret \<noteq> 0 then Inr ((ret, m), f)
            else case post_load v of None \<Rightarrow> Inr ((0, m), f) | Some h \<Rightarrow> Inr (h opaque version m, f))))"
| "load_fields n version [] opaque m f = Inr ((0, m), f)"
| "load_fields n version (fl # fls) opaque m f =
     on_success
       (if exists_load fl opaque version m then
          let base = base_addr fl opaque m; sz = field_size fl opaque m
          in load_elems (\<lambda>i m f.
               let addr = elem_addr fl base sz i m
               in if has fl VMS_STRUCT then
                    (case fl_vmsd fl of None \<Rightarrow> Inl (out_of_bounds ''field->vmsd'')
                     | Some v \<Rightarrow> vmstate_load_state n v addr (vm_version_id v) m f)
                  else
                    (case fl_info fl of None \<Rightarrow> Inl (out_of_bounds ''field->info'') | Some i \<Rightarrow> info_get i addr sz m f))
             [0..<nat (n_elems_load fl opaque m)] m f
        else Inr ((0, m), f))
       (load_fields n version fls opaque)"
| "vmstate_subsection_load n 0 nm subs opaque m f = Inl (no_termination ''vmstate_subsection_load'')"
| "vmstate_subsection_load n (Suc k) nm subs opaque m f =
     bindE (qemu_peek_byte 0 f) (\<lambda>(b, f).
     if b \<noteq> QEMU_VM_SUBSECTION then Inr ((0, m), f)
     else bindE (qemu_peek_byte 1 f) (\<lambda>(len, f).
     if unat len < length nm + 1 then Inr ((0, m), f)
     else bindE (qemu_peek_buffer (unat len) 2 f) (\<lambda>(bs, f).
     if length bs \<noteq> unat len then Inr ((0, m), f)
     else if take (length nm) (c_string bs) \<noteq> nm then Inr ((0, m), f)
     else case vmstate_get_subsection subs (c_string bs) of
       None \<Rightarrow> Inr ((- 2, m), f)
     | Some v \<Rightarrow>
         bindE (qemu_get_be32 (qemu_file_skip (unat len) (qemu_file_skip 1 (qemu_file_skip 1 f)))) (\<lambda>(version, f).
         bindE (vmstate_load_state n v opaque (uint (ucast version :: u8)) m f) (\<lambda>((ret, m), f).
           if ret \<noteq> 0 then Inr ((ret, m), f) else vmstate_subsection_load n k nm subs opaque m f)))))"
  by pat_completeness auto
termination
  by (relation "inv_image (less_than <*lex*> less_than)
      (case_sum (\<lambda>(_, v, _). (size v, 0)) (case_sum (\<lambda>(_, _, fls, _). (size_list size fls, 0))
        (\<lambda>(_, k, _, subs, _). (size_list (\<lambda>x. size (fst x)) subs, k))))")
    (auto simp: size_fields size_subsections dest: size_vmsd size_get_subsection)

declare vmstate_save_state.simps [simp del] vmstate_load_state.simps [simp del]

end
