(* ===== verification/Vmstate_Restore.thy ===== *)
theory Vmstate_Restore
  imports Vmstate
begin

text \<open>
  What loading a saved structure does, without the file: the description of a structure is
  unfolded, at the memory that is saved, to the sequence of the cells it describes, and restoring
  stores these cells to the memory that is loaded. The theorems show that saving to a file and
  loading from it is restoring, for every kind of field, nested structures and subsections.
\<close>

section \<open>Cells\<close>

text \<open>The number of bytes in host memory of a field of a kind, and the bytes in the file.\<close>

fun cell_count :: "VMStateInfo \<Rightarrow> int \<Rightarrow> nat" where
  "cell_count vmstate_info_bool sz = 1"
| "cell_count vmstate_info_int8 sz = 1"
| "cell_count vmstate_info_uint8 sz = 1"
| "cell_count vmstate_info_uint8_equal sz = 1"
| "cell_count vmstate_info_int16 sz = 2"
| "cell_count vmstate_info_uint16 sz = 2"
| "cell_count vmstate_info_uint16_equal sz = 2"
| "cell_count vmstate_info_int64 sz = 8"
| "cell_count vmstate_info_uint64 sz = 8"
| "cell_count vmstate_info_buffer sz = nat sz"
| "cell_count vmstate_info_unused_buffer sz = 0"
| "cell_count _ sz = 4"

fun leaf_bytes :: "VMStateInfo \<Rightarrow> int \<Rightarrow> u8 list \<Rightarrow> u8 list" where
  "leaf_bytes vmstate_info_buffer sz bs = bs"
| "leaf_bytes vmstate_info_unused_buffer sz bs = replicate (size_t sz) 0"
| "leaf_bytes _ sz bs = rev bs"

text \<open>
  What loading does to the memory: most kinds store the cells, some only compare them with what
  is there.
\<close>

fun leaf_load :: "VMStateInfo \<Rightarrow> u64 \<Rightarrow> u8 list \<Rightarrow> hostmem \<Rightarrow> hostmem option" where
  "leaf_load vmstate_info_bool a bs m = (if bs = [0] \<or> bs = [1] then Some (store_at a bs m) else None)"
| "leaf_load vmstate_info_int32_le a bs m =
     (if sint (ucast (load_le 4 a m) :: u32) \<le> sint (ucast (from_le bs) :: u32) then Some m else None)"
| "leaf_load vmstate_info_int32_equal a bs m = (if load_bytes 4 a m = bs then Some m else None)"
| "leaf_load vmstate_info_uint32_equal a bs m = (if load_bytes 4 a m = bs then Some m else None)"
| "leaf_load vmstate_info_uint16_equal a bs m = (if load_bytes 2 a m = bs then Some m else None)"
| "leaf_load vmstate_info_uint8_equal a bs m = (if load_bytes 1 a m = bs then Some m else None)"
| "leaf_load vmstate_info_unused_buffer a bs m = Some m"
| "leaf_load _ a bs m = Some (store_at a bs m)"

lemma length_load_bytes [simp]: "length (load_bytes n a m) = n"
  by (simp add: load_bytes_def)

text \<open>A number's big-endian bytes in the file are its cells in reverse order.\<close>

lemma byte_of: "length bs \<le> 8 \<Longrightarrow> i < length bs \<Longrightarrow> ucast (drop_bit (8 * i) (from_le bs)) = bs ! i"
  using nth_to_le [of i "length bs" "from_le bs"] to_from_le [of bs "length bs"] by simp

lemma narrow_byte: "i + 8 \<le> 32 \<Longrightarrow> ucast (drop_bit i (ucast (v :: u64) :: u32)) = (ucast (drop_bit i v) :: u8)"
  by (rule bit_word_eqI) (auto simp: bit_simps)

lemma rev_be8: "length bs = 1 \<Longrightarrow> rev bs = [ucast (from_le bs)]"
  using byte_of [of bs 0] by (cases bs) simp_all

lemma rev_be16:
  assumes "length bs = 2"
  shows "rev bs = bytes_be16 (ucast (from_le bs))"
proof -
  obtain a b where bs: "bs = [a, b]" using assms by (auto simp: numeral_eq_Suc length_Suc_conv)
  have "ucast (drop_bit 8 (from_le bs)) = b" "ucast (from_le bs) = a" using byte_of [of bs 0] byte_of [of bs 1] bs by simp_all
  then show ?thesis using narrow_byte [of 8 "from_le bs"] narrow_byte [of 0 "from_le bs"] bs by (simp add: bytes_be16_def)
qed

lemma be32_bytes:
  "bytes_be32 (ucast (v :: u64)) = [ucast (drop_bit 24 v), ucast (drop_bit 16 v), ucast (drop_bit 8 v), ucast v]"
  using narrow_byte [of 24 v] narrow_byte [of 16 v] narrow_byte [of 8 v] narrow_byte [of 0 v] by (simp add: bytes_be32_def)

lemma rev_be32:
  assumes "length bs = 4"
  shows "rev bs = bytes_be32 (ucast (from_le bs))"
proof -
  obtain a b c d where bs: "bs = [a, b, c, d]" using assms by (auto simp: numeral_eq_Suc length_Suc_conv)
  then have "ucast (drop_bit 24 (from_le bs)) = d" "ucast (drop_bit 16 (from_le bs)) = c" "ucast (drop_bit 8 (from_le bs)) = b"
    "ucast (from_le bs) = a"
    using byte_of [of bs 0] byte_of [of bs 1] byte_of [of bs 2] byte_of [of bs 3] by simp_all
  then show ?thesis unfolding be32_bytes by (simp add: bs)
qed

lemma rev_be64:
  assumes "length bs = 8"
  shows "rev bs = bytes_be64 (from_le bs)"
proof -
  have "rev bs = map (\<lambda>i. bs ! i) [7, 6, 5, 4, 3, 2, 1, 0]" using assms by (auto simp: numeral_eq_Suc length_Suc_conv)
  also have "\<dots> = map (\<lambda>i. ucast (drop_bit (8 * i) (from_le bs))) [7, 6, 5, 4, 3, 2, 1, 0]"
    using assms by (intro map_cong refl byte_of [symmetric]) auto
  also have "\<dots> = bytes_be64 (from_le bs)" unfolding bytes_be64_def be32_bytes by (simp add: drop_bit_drop_bit)
  finally show ?thesis .
qed

lemma widen_from_le:
  "length bs = 1 \<Longrightarrow> ucast (ucast (from_le bs) :: u8) = from_le bs"
  "length bs = 2 \<Longrightarrow> ucast (take_bit 16 (ucast (from_le bs) :: u32)) = from_le bs"
  "length bs = 4 \<Longrightarrow> ucast (ucast (from_le bs) :: u32) = from_le bs"
  by (rule bit_word_eqI; auto simp: bit_simps bit_from_le)+

lemma loaded_cells: "load_le n a m = from_le (load_bytes n a m)"
  by (simp add: load_le_def)

section \<open>Single fields\<close>

lemma unused_block: "replicate n 0 = replicate (min 1024 n) 0 @ replicate (n - min 1024 n) (0 :: u8)"
  by (simp flip: replicate_add)

lemma appends_unused: "appends (put_unused n) (replicate n 0)"
proof (induction n rule: less_induct)
  case (less n)
  show ?case
  proof (cases "n = 0")
    case True
    then show ?thesis by (simp add: appends_def put_unused.simps)
  next
    case False
    let ?l = "min 1024 n"
    have put: "put_unused n = (\<lambda>f. bindE (qemu_put_buffer (?l + 1) (replicate ?l 0) f) (put_unused (n - ?l)))"
      by (rule ext, subst put_unused.simps) (simp add: False Let_def)
    show ?thesis unfolding unused_block [of n] put
      by (intro appends_bind appends_buffer less) (use False in simp_all)
  qed
qed

lemma takes_unused: "takes (\<lambda>f. bindE (get_unused n f) (\<lambda>f. Inr (v, f))) (replicate n 0) v"
proof (induction n rule: less_induct)
  case (less n)
  show ?case
  proof (cases "n = 0")
    case True
    then show ?thesis by (simp add: takes_def get_unused.simps)
  next
    case False
    let ?l = "min 1024 n" and ?q = "\<lambda>n f. bindE (get_unused n f) (\<lambda>f. Inr (v, f))"
    have get: "?q n = (\<lambda>f. bindE (qemu_get_buffer (length (replicate ?l (0 :: u8))) f) (\<lambda>(bs, f). ?q (n - ?l) f))"
      by (rule ext, subst get_unused.simps) (simp add: False Let_def bindE_assoc case_prod_beta')
    show ?thesis unfolding unused_block [of n] get
      by (intro takes_bind [OF takes_buffer] less) (use False in simp)
  qed
qed

lemma leaf_put: "appends (info_put i a sz m) (leaf_bytes i sz (load_bytes (cell_count i sz) a m))"
proof -
  have "load_bytes (Suc 0) a m = [m a]" by (simp add: load_bytes_def)
  moreover have "ucast (ucast (m a) :: u64) = m a" by (rule bit_word_eqI) (simp add: bit_simps)
  ultimately show ?thesis
    by (cases i)
      (simp_all add: put_bool_def put_int8_def put_uint8_def put_int16_def put_uint16_def put_int32_def put_uint32_def put_int64_def
        put_uint64_def put_buffer_def put_unused_buffer_def rev_be8 rev_be16 rev_be32 rev_be64 loaded_cells
        appends_byte appends_be16 appends_be32 appends_be64 appends_buffer appends_unused)
qed

lemma takes_then: "takes p cs v \<Longrightarrow> w = h v \<Longrightarrow> takes (\<lambda>f. bindE (p f) (\<lambda>(v, f). Inr (h v, f))) cs w"
  using takes_bind [of p cs v "\<lambda>v f. Inr (h v, f)" "[]" w] by (simp add: takes_Inr)

lemma only_cell: "length bs = Suc 0 \<Longrightarrow> [ucast (from_le bs)] = bs"
  using rev_be8 [of bs] by (cases bs) simp_all

lemmas leaf_cells = rev_be8 rev_be16 rev_be32 rev_be64 widen_from_le to_from_le loaded_cells

lemma get_number:
  "length bs = 1 \<Longrightarrow> w = h (from_le bs) \<Longrightarrow> takes (\<lambda>f. bindE (qemu_get_byte f) (\<lambda>(v, f). Inr (h (ucast v), f))) (rev bs) w"
  "length bs = 2 \<Longrightarrow> w = h (from_le bs) \<Longrightarrow> takes (\<lambda>f. bindE (qemu_get_be16 f) (\<lambda>(v, f). Inr (h (ucast v), f))) (rev bs) w"
  "length bs = 4 \<Longrightarrow> w = h (from_le bs) \<Longrightarrow> takes (\<lambda>f. bindE (qemu_get_be32 f) (\<lambda>(v, f). Inr (h (ucast v), f))) (rev bs) w"
  "length bs = 8 \<Longrightarrow> w = h (from_le bs) \<Longrightarrow> takes (\<lambda>f. bindE (qemu_get_be64 f) (\<lambda>(v, f). Inr (h v, f))) (rev bs) w"
  unfolding leaf_cells(1-4)
  by (simp_all add: takes_then [OF takes_byte] takes_then [OF takes_be16] takes_then [OF takes_be32] takes_then [OF takes_be64]
      widen_from_le)

lemmas get_defs = get_bool_def get_int8_def get_uint8_def get_uint8_equal_def get_int16_def get_uint16_def get_uint16_equal_def
  get_int32_def get_uint32_def get_int32_equal_def get_uint32_equal_def get_int32_le_def get_int64_def get_uint64_def
  get_buffer_def get_unused_buffer_def

lemma leaf_get:
  assumes "length bs = cell_count i sz" "leaf_load i a bs m = Some m'"
  shows "takes (info_get i a sz m) (leaf_bytes i sz bs) (0, m')"
proof (cases i)
  case vmstate_info_bool
  then show ?thesis using assms
    by (auto simp: get_defs [abs_def] split: if_splits intro!: takes_then [OF takes_byte])
next
  case vmstate_info_int32_le
  then have "takes (info_get i a sz m) (bytes_be32 (ucast (from_le bs))) (0, m')" using assms
    by (auto simp: get_defs [abs_def] split: if_splits intro!: takes_then [OF takes_be32])
  then show ?thesis using assms vmstate_info_int32_le by (simp add: rev_be32)
next
  case vmstate_info_buffer
  then show ?thesis using assms takes_buffer [of bs] by (auto simp: get_defs [abs_def] intro!: takes_then)
next
  case vmstate_info_unused_buffer
  then show ?thesis using assms takes_unused by (simp add: get_defs [abs_def])
qed (use assms in \<open>auto simp: get_defs [abs_def] to_from_le only_cell loaded_cells split: if_splits intro!: get_number\<close>)

section \<open>The steps of a description\<close>

text \<open>
  A description at a memory that is saved is a sequence of steps: cells to copy (with their
  address, size and bytes), conditions on the memory that is loaded (that its pointers, counts and
  versions agree), hooks on it, fixed bytes in the file, the end of a structure, where a loader
  looks ahead for subsections, and what cannot be saved or loaded back.
\<close>

datatype step =
    Leaf VMStateInfo u64 int "u8 list"
  | Same "hostmem \<Rightarrow> bool"
  | Hook "hostmem \<Rightarrow> int \<times> hostmem"
  | Fixed "u8 list"
  | Close cstring
  | Bad

fun step_bytes :: "step \<Rightarrow> u8 list" where
  "step_bytes (Leaf i a sz bs) = leaf_bytes i sz bs"
| "step_bytes (Fixed bs) = bs"
| "step_bytes _ = []"

definition images :: "step list \<Rightarrow> u8 list" where
  "images ss = concat (map step_bytes ss)"

text \<open>Bytes that \<open>vmstate_subsection_load\<close> takes for a subsection of a structure of that name.\<close>

definition like_subsection :: "cstring \<Rightarrow> u8 list \<Rightarrow> bool" where
  "like_subsection nm xs \<longleftrightarrow>
     xs \<noteq> [] \<and> hd xs = QEMU_VM_SUBSECTION \<and>
     (let len = unat (if 1 < length xs then xs ! 1 else 0); bs = take len (drop 2 xs)
      in length nm + 1 \<le> len \<and> length bs = len \<and> take (length nm) (c_string bs) = nm)"

fun restore :: "step list \<Rightarrow> u8 list \<Rightarrow> hostmem \<Rightarrow> hostmem option" where
  "restore [] rest m = Some m"
| "restore (Leaf i a sz bs # ss) rest m = (case leaf_load i a bs m of None \<Rightarrow> None | Some m \<Rightarrow> restore ss rest m)"
| "restore (Same P # ss) rest m = (if P m then restore ss rest m else None)"
| "restore (Hook h # ss) rest m = (case h m of (ret, m) \<Rightarrow> if ret = 0 then restore ss rest m else None)"
| "restore (Fixed bs # ss) rest m = restore ss rest m"
| "restore (Close nm # ss) rest m = (if like_subsection nm (images ss @ rest) then None else restore ss rest m)"
| "restore (Bad # ss) rest m = None"

definition names_ok :: "cstring \<Rightarrow> ('b VMStateDescription \<times> (u64 \<Rightarrow> hostmem \<Rightarrow> bool)) list \<Rightarrow> bool" where
  "names_ok nm subs \<longleftrightarrow>
     distinct (map (vm_name \<circ> fst) subs) \<and>
     list_all (\<lambda>(v, needed). length nm < length (vm_name v) \<and> length (vm_name v) < 256 \<and> take (length nm) (vm_name v) = nm \<and>
       \<not> List.member (vm_name v) 0 \<and> 0 \<le> vm_version_id v \<and> vm_version_id v < 256) subs"

definition check :: "bool \<Rightarrow> step list" where
  "check b = (if b then [] else [Bad])"

definition subsection_header :: "'b VMStateDescription \<Rightarrow> u8 list" where
  "subsection_header v =
     [QEMU_VM_SUBSECTION, word_of_nat (length (vm_name v))] @ vm_name v @ bytes_be32 (word_of_int (vm_version_id v))"

definition exists_save :: "'b VMStateField \<Rightarrow> u64 \<Rightarrow> int \<Rightarrow> hostmem \<Rightarrow> bool" where
  "exists_save fl opaque version m \<longleftrightarrow> (case field_exists fl of None \<Rightarrow> True | Some p \<Rightarrow> p opaque m version)"

function (sequential)
  plan_state :: "'b VMStateDescription \<Rightarrow> u64 \<Rightarrow> hostmem \<Rightarrow> step list" and
  plan_fields :: "int \<Rightarrow> 'b VMStateField list \<Rightarrow> u64 \<Rightarrow> hostmem \<Rightarrow> step list" and
  plan_subs :: "('b VMStateDescription \<times> (u64 \<Rightarrow> hostmem \<Rightarrow> bool)) list \<Rightarrow> u64 \<Rightarrow> hostmem \<Rightarrow> step list"
where
  "plan_state v a m =
     check (minimum_version_id_old v \<le> vm_version_id v \<and> minimum_version_id v \<le> vm_version_id v \<and>
       names_ok (vm_name v) (subsections v)) @
     (case pre_load v of None \<Rightarrow> [] | Some h \<Rightarrow> [Hook (h a)]) @
     plan_fields (vm_version_id v) (fields v) a m @ plan_subs (subsections v) a m @ [Close (vm_name v)] @
     (case post_load v of None \<Rightarrow> [] | Some h \<Rightarrow> [Hook (h a (vm_version_id v))])"
| "plan_fields version [] a m = []"
| "plan_fields version (fl # fls) a m =
     (if exists_save fl a version m then
        let base = base_addr fl a m; sz = field_size fl a m; n = n_elems_save fl a m
        in Same (\<lambda>m'. exists_load fl a version m' \<and> base_addr fl a m' = base \<and> field_size fl a m' = sz \<and> n_elems_load fl a m' = n) #
           concat (map (\<lambda>i.
             let addr = elem_addr fl base sz i m
             in Same (\<lambda>m'. elem_addr fl base sz i m' = addr) #
                (if has fl VMS_STRUCT then
                   (case fl_vmsd fl of None \<Rightarrow> [Bad] | Some v \<Rightarrow> check (Option.is_none (pre_save v)) @ plan_state v addr m)
                 else
                   (case fl_info fl of None \<Rightarrow> [Bad] | Some i \<Rightarrow> [Leaf i addr sz (load_bytes (cell_count i sz) addr m)])))
             [0..<nat n])
      else [Same (\<lambda>m'. \<not> exists_load fl a version m')]) @
     plan_fields version fls a m"
| "plan_subs [] a m = []"
| "plan_subs ((v, needed) # subs) a m =
     (if needed a m then Fixed (subsection_header v) # check (Option.is_none (pre_save v)) @ plan_state v a m else []) @
     plan_subs subs a m"
  by pat_completeness auto
termination
  by (relation "measure (case_sum (\<lambda>(v, _). size v) (case_sum (\<lambda>(_, fls, _). size_list size fls) (\<lambda>(subs, _). size_list (\<lambda>x. size (fst x)) subs)))")
    (auto simp: size_fields size_subsections dest: size_vmsd)

declare plan_state.simps [simp del]

lemma images_simps [simp]: "images [] = []" "images (s # ss) = step_bytes s @ images ss" "images (ss @ tt) = images ss @ images tt"
  by (simp_all add: images_def)

lemma restore_append: "restore (ss @ tt) rest m = Option.bind (restore ss (images tt @ rest) m) (restore tt rest)"
  by (induction ss "images tt @ rest" m rule: restore.induct) (auto split: option.splits prod.splits)

lemma restore_check [simp]: "restore (check b @ ss) rest m = (if b then restore ss rest m else None)" "images (check b) = []"
  "Bad \<in> set (check b) \<longleftrightarrow> \<not> b"
  by (simp_all add: check_def)

section \<open>Saving writes the steps\<close>

definition saves :: "(FILE QEMUFile \<times> hostmem \<Rightarrow> (FILE QEMUFile \<times> hostmem) res) \<Rightarrow> hostmem \<Rightarrow> u8 list \<Rightarrow> bool" where
  "saves p m bs \<longleftrightarrow> (\<forall>f. writing file_put_buffer contents (\<lambda>_. True) f \<longrightarrow>
     (\<exists>g. p (f, m) = Inr (g, m) \<and> writing file_put_buffer contents (\<lambda>_. True) g \<and> written contents g = written contents f @ bs))"

lemma saves_bind:
  assumes "saves p m bs" "saves q m cs" "\<And>f. r (f, m) = bindE (p (f, m)) q"
  shows "saves r m (bs @ cs)"
  using assms unfolding saves_def by (metis append.assoc bindE_simps(2))

lemma saves_Inr: "saves Inr m []"
  by (simp add: saves_def)

lemma saves_appends:
  assumes "appends p bs" "\<And>f. r (f, m) = bindE (p f) (\<lambda>f. Inr (f, m))"
  shows "saves r m bs"
  using assms unfolding saves_def appends_def by (metis bindE_simps(2))

lemma saves_lift: "appends p bs \<Longrightarrow> saves (\<lambda>(f, m). bindE (p f) (\<lambda>f. Inr (f, m))) m bs"
  by (rule saves_appends) simp_all

lemma saves_foldE: "(\<And>i. i \<in> set is \<Longrightarrow> saves (p i) m (h i)) \<Longrightarrow> saves (foldE p is) m (concat (map h is))"
proof (induction "is")
  case (Cons i "is")
  have "saves (foldE p (i # is)) m (h i @ concat (map h is))"
    by (rule saves_bind [of "p i" _ _ "foldE p is"]) (use Cons in simp_all)
  then show ?case unfolding map_append list.map concat.simps .
qed (simp add: saves_Inr)

lemma images_concat: "images (concat (map h is)) = concat (map (\<lambda>i. images (h i)) is)"
  by (induction "is") simp_all

lemma header_appends:
  assumes "length (vm_name v) < 256"
  shows "appends (\<lambda>f. bindE (qemu_put_byte QEMU_VM_SUBSECTION f) (\<lambda>f. bindE (qemu_put_byte (word_of_nat (length (vm_name v))) f) (\<lambda>f.
      bindE (qemu_put_buffer (length (vm_name v) + 1) (take (length (vm_name v) mod 256) (vm_name v)) f)
        (qemu_put_be32 (word_of_int (vm_version_id v)))))) (subsection_header v)"
proof -
  have "subsection_header v = [QEMU_VM_SUBSECTION] @ [word_of_nat (length (vm_name v))] @ vm_name v @
      bytes_be32 (word_of_int (vm_version_id v))" by (simp add: subsection_header_def)
  moreover have "take (length (vm_name v) mod 256) (vm_name v) = vm_name v" using assms by simp
  ultimately show ?thesis by (simp only:) (intro appends_bind appends_byte appends_buffer appends_be32, simp)
qed

lemma names_okD:
  assumes "names_ok nm subs" "(v, needed) \<in> set subs"
  shows "length nm < length (vm_name v)" "length (vm_name v) < 256" "take (length nm) (vm_name v) = nm" "0 \<notin> set (vm_name v)"
    "0 \<le> vm_version_id v" "vm_version_id v < 256"
  using assms by (auto simp: names_ok_def list_all_iff)

lemma pre_save_none: "Option.is_none (pre_save v) \<longleftrightarrow> pre_save v = None"
  by (cases "pre_save v") simp_all

text \<open>The parts of the savers and of the plan, one element and one subsection.\<close>

definition save_elem :: "'b VMStateField \<Rightarrow> u64 \<Rightarrow> int \<Rightarrow> nat \<Rightarrow> 'b QEMUFile \<times> hostmem \<Rightarrow> ('b QEMUFile \<times> hostmem) res" where
  "save_elem fl base sz i = (\<lambda>(f, m).
     let addr = elem_addr fl base sz i m
     in if has fl VMS_STRUCT then
          (case fl_vmsd fl of None \<Rightarrow> Inl (out_of_bounds ''field->vmsd'') | Some v \<Rightarrow> vmstate_save_state v addr (f, m))
        else
          (case fl_info fl of None \<Rightarrow> Inl (out_of_bounds ''field->info'')
           | Some i \<Rightarrow> bindE (info_put i addr sz m f) (\<lambda>f. Inr (f, m))))"

definition plan_elem :: "'b VMStateField \<Rightarrow> u64 \<Rightarrow> int \<Rightarrow> hostmem \<Rightarrow> nat \<Rightarrow> step list" where
  "plan_elem fl base sz m i =
     (let addr = elem_addr fl base sz i m
      in Same (\<lambda>m'. elem_addr fl base sz i m' = addr) #
         (if has fl VMS_STRUCT then
            (case fl_vmsd fl of None \<Rightarrow> [Bad] | Some v \<Rightarrow> check (Option.is_none (pre_save v)) @ plan_state v addr m)
          else
            (case fl_info fl of None \<Rightarrow> [Bad] | Some i \<Rightarrow> [Leaf i addr sz (load_bytes (cell_count i sz) addr m)])))"

lemma plan_fields_Cons:
  "plan_fields version (fl # fls) a m =
     (if exists_save fl a version m then
        let base = base_addr fl a m; sz = field_size fl a m; n = n_elems_save fl a m
        in Same (\<lambda>m'. exists_load fl a version m' \<and> base_addr fl a m' = base \<and> field_size fl a m' = sz \<and> n_elems_load fl a m' = n) #
           concat (map (plan_elem fl base sz m) [0..<nat n])
      else [Same (\<lambda>m'. \<not> exists_load fl a version m')]) @
     plan_fields version fls a m"
  by (simp add: plan_elem_def [abs_def])

lemma save_fields_Cons:
  "save_fields version (fl # fls) a (f, m) =
     bindE
       (if exists_save fl a version m
        then foldE (save_elem fl (base_addr fl a m) (field_size fl a m)) [0..<nat (n_elems_save fl a m)] (f, m)
        else Inr (f, m))
       (save_fields version fls a)"
  by (simp add: save_elem_def [abs_def] exists_save_def Let_def)

declare plan_fields.simps(2) [simp del] save_fields.simps(2) [simp del]

lemma save_elem_writes:
  assumes "Bad \<notin> set (plan_elem fl base sz m i)"
    and "\<And>v addr. has fl VMS_STRUCT \<Longrightarrow> fl_vmsd fl = Some v \<Longrightarrow> Bad \<notin> set (plan_state v addr m) \<Longrightarrow> pre_save v = None \<Longrightarrow>
      addr = elem_addr fl base sz i m \<Longrightarrow> saves (vmstate_save_state v addr) m (images (plan_state v addr m))"
  shows "saves (save_elem fl base sz i) m (images (plan_elem fl base sz m i))"
proof (cases "has fl VMS_STRUCT")
  case True
  then obtain v where v: "fl_vmsd fl = Some v" using assms(1) by (cases "fl_vmsd fl") (simp_all add: plan_elem_def Let_def)
  have "saves (vmstate_save_state v (elem_addr fl base sz i m)) m (images (plan_state v (elem_addr fl base sz i m) m))"
    using assms(1) True v by (intro assms(2)) (simp_all add: plan_elem_def Let_def pre_save_none)
  then show ?thesis using True v by (simp add: plan_elem_def save_elem_def saves_def Let_def)
next
  case False
  then obtain k where k: "fl_info fl = Some k" using assms(1) by (cases "fl_info fl") (simp_all add: plan_elem_def Let_def)
  show ?thesis
    using False k by (intro saves_appends) (auto simp: plan_elem_def save_elem_def Let_def intro: leaf_put)
qed

lemma save_subsection_writes:
  fixes v :: "FILE VMStateDescription"
  assumes "length (vm_name v) < 256" "saves (vmstate_save_state v a) m bs"
  shows "saves (\<lambda>(f, m). bindE (qemu_put_byte QEMU_VM_SUBSECTION f) (\<lambda>f.
      let len = length (vm_name v)
      in bindE (qemu_put_byte (word_of_nat len) f) (\<lambda>f.
         bindE (qemu_put_buffer (len + 1) (take (len mod 256) (vm_name v)) f) (\<lambda>f.
         bindE (qemu_put_be32 (word_of_int (vm_version_id v)) f) (\<lambda>f. vmstate_save_state v a (f, m)))))) m (subsection_header v @ bs)"
  by (rule saves_bind [OF saves_lift [OF header_appends [OF assms(1)]] assms(2)]) (simp add: bindE_assoc Let_def)

lemma save_writes_plan:
  fixes v :: "FILE VMStateDescription"
  shows "Bad \<notin> set (plan_state v a m) \<Longrightarrow> pre_save v = None \<Longrightarrow> saves (vmstate_save_state v a) m (images (plan_state v a m))"
    and "Bad \<notin> set (plan_fields version fls a m) \<Longrightarrow> saves (save_fields version fls a) m (images (plan_fields version fls a m))"
    and "Bad \<notin> set (plan_subs subs a m) \<Longrightarrow> list_all (\<lambda>(v, _). length (vm_name v) < 256) subs \<Longrightarrow>
      saves (vmstate_subsection_save subs a) m (images (plan_subs subs a m))"
proof (induction v a m and version fls a m and subs a m rule: plan_state_plan_fields_plan_subs.induct)
  case (1 v a m)
  have "saves (vmstate_save_state v a) m (images (plan_fields (vm_version_id v) (fields v) a m) @ images (plan_subs (subsections v) a m))"
  proof (rule saves_bind)
    show "saves (save_fields (vm_version_id v) (fields v) a) m (images (plan_fields (vm_version_id v) (fields v) a m))"
      using 1 by (simp add: plan_state.simps)
    have "names_ok (vm_name v) (subsections v)" using 1(3) by (simp add: plan_state.simps)
    then show "saves (vmstate_subsection_save (subsections v) a) m (images (plan_subs (subsections v) a m))"
      using 1 by (intro 1(2)) (auto simp: plan_state.simps names_ok_def list_all_iff)
  qed (use 1(4) in \<open>simp add: vmstate_save_state.simps\<close>)
  then show ?case by (simp add: plan_state.simps split: option.splits)
next
  case (2 version a m)
  then show ?case by (simp add: saves_def)
next
  case (3 version fl fls a m)
  let ?base = "base_addr fl a m" and ?sz = "field_size fl a m" and ?n = "n_elems_save fl a m"
  let ?el = "plan_elem fl ?base ?sz m"
  let ?p = "\<lambda>(f, m'). if exists_save fl a version m then foldE (save_elem fl ?base ?sz) [0..<nat ?n] (f, m') else Inr (f, m')"
  let ?bs = "if exists_save fl a version m then concat (map (\<lambda>i. images (?el i)) [0..<nat ?n]) else []"
  have "saves (save_fields version (fl # fls) a) m (?bs @ images (plan_fields version fls a m))"
  proof (rule saves_bind)
    have "saves (save_elem fl ?base ?sz i) m (images (?el i))" if "exists_save fl a version m" "i \<in> set [0..<nat ?n]" for i
    proof (rule save_elem_writes)
      show "Bad \<notin> set (?el i)" using 3(3) that by (auto simp: plan_fields_Cons Let_def)
      show "saves (vmstate_save_state v addr) m (images (plan_state v addr m))"
        if "has fl VMS_STRUCT" "fl_vmsd fl = Some v" "Bad \<notin> set (plan_state v addr m)" "pre_save v = None"
          "addr = elem_addr fl ?base ?sz i m" for v addr
        using 3(1) [OF \<open>exists_save fl a version m\<close> refl refl refl \<open>i \<in> set [0..<nat ?n]\<close>] that by blast
    qed
    then show "saves ?p m ?bs"
      by (cases "exists_save fl a version m") (auto simp: saves_Inr intro!: saves_foldE)
    show "saves (save_fields version fls a) m (images (plan_fields version fls a m))"
      using 3(2,3) by (simp add: plan_fields_Cons)
  qed (simp add: save_fields_Cons)
  then show ?case by (cases "exists_save fl a version m") (simp_all add: plan_fields_Cons Let_def images_concat)
next
  case (4 a m)
  then show ?case by (simp add: saves_def)
next
  case (5 v needed subs a m)
  have rest: "saves (vmstate_subsection_save subs a) m (images (plan_subs subs a m))" using 5 by simp
  show ?case
  proof (cases "needed a m")
    case True
    then have "saves (vmstate_save_state v a) m (images (plan_state v a m))" using 5 by (simp add: pre_save_none)
    then show ?thesis
      using True 5(4) saves_bind [OF save_subsection_writes rest] by simp
  next
    case False
    then show ?thesis using rest by (simp add: saves_def)
  qed
qed

section \<open>Loading restores the steps\<close>

lemma takes_at_success:
  assumes "takes_at p bs (cs @ vs) (0, m)" "takes_at (q m) cs vs y"
  shows "takes_at (\<lambda>f. on_success (p f) q) (bs @ cs) vs y"
  using takes_at_bind [OF assms(1), of "\<lambda>(r, m) f. if r < 0 then Inr ((r, m), f) else q m f" y] assms(2)
  by (simp add: on_success_def case_prod_beta')

lemma load_elems_restores:
  assumes "\<And>i m' m'' rest. i \<in> set is \<Longrightarrow> restore (h i) rest m' = Some m'' \<Longrightarrow> takes_at (p i m') (images (h i)) rest (0, m'')"
    and "restore (concat (map h is)) rest m' = Some m''"
  shows "takes_at (load_elems p is m') (images (concat (map h is))) rest (0, m'')"
  using assms
proof (induction "is" arbitrary: m')
  case Nil
  then show ?case by (simp add: takes_at_def)
next
  case (Cons i "is")
  obtain k where k: "restore (h i) (images (concat (map h is)) @ rest) m' = Some k" "restore (concat (map h is)) rest k = Some m''"
    using Cons.prems(2) by (auto simp: restore_append bind_eq_Some_conv)
  have "takes_at (\<lambda>f. on_success (p i m' f) (load_elems p is)) (images (h i) @ images (concat (map h is))) rest (0, m'')"
    using Cons k by (intro takes_at_success [where m = k]) auto
  then show ?case by (simp add: takes_at_def)
qed

lemma peeks:
  assumes "reading file_get_buffer contents (\<lambda>_ _. True) f"
  shows "off < 2 \<Longrightarrow> \<exists>g. qemu_peek_byte off f = Inr (if off < length (remaining contents f) then remaining contents f ! off else 0, g) \<and>
      reading file_get_buffer contents (\<lambda>_ _. True) g \<and> remaining contents g = remaining contents f"
    and "sz < 256 \<Longrightarrow> \<exists>g. qemu_peek_buffer sz 2 f = Inr (take sz (drop 2 (remaining contents f)), g) \<and>
      reading file_get_buffer contents (\<lambda>_ _. True) g \<and> remaining contents g = remaining contents f \<and>
      min (2 + sz) (length (remaining contents f)) \<le> buf_size g - buf_index g"
  using file_eager.peek_byte_sees [OF assms, of off] file_eager.peek_buffer_sees [OF assms, of 2 sz]
  by (simp_all add: IO_BUF_SIZE_def)

text \<open>
  Without a subsection ahead, the loop ends; with one, its header is taken and the subsection is
  loaded.
\<close>

lemma subsections_end:
  assumes "\<not> like_subsection nm rest" "0 < k"
  shows "takes_at (vmstate_subsection_load n k nm subs a m) [] rest (0, m)"
  unfolding takes_at_def
proof (intro allI impI)
  fix f :: "FILE QEMUFile"
  assume f: "reading file_get_buffer contents (\<lambda>_ _. True) f" "remaining contents f = [] @ rest"
  obtain j where k: "k = Suc j" using assms(2) by (cases k) simp_all
  obtain g where g: "qemu_peek_byte 0 f = Inr (if rest \<noteq> [] then hd rest else 0, g)" "reading file_get_buffer contents (\<lambda>_ _. True) g"
      "remaining contents g = rest"
    using peeks(1) [OF f(1), of 0] f(2) by (auto simp: hd_conv_nth)
  let ?len = "if 1 < length rest then rest ! 1 else 0"
  obtain h where h: "qemu_peek_byte 1 g = Inr (?len, h)" "reading file_get_buffer contents (\<lambda>_ _. True) h" "remaining contents h = rest"
    using peeks(1) [OF g(2), of 1] g(3) by auto
  have "unat ?len < 256" using unsigned_less [of ?len] by simp
  then obtain i where i: "qemu_peek_buffer (unat ?len) 2 h = Inr (take (unat ?len) (drop 2 rest), i)"
      "reading file_get_buffer contents (\<lambda>_ _. True) i" "remaining contents i = rest"
    using peeks(2) [OF h(2), of "unat ?len"] h(3) by auto
  show "\<exists>g. vmstate_subsection_load n k nm subs a m f = Inr ((0, m), g) \<and> reading file_get_buffer contents (\<lambda>_ _. True) g \<and>
      remaining contents g = rest"
    using assms(1) g h i unfolding k like_subsection_def
    by (auto simp: QEMU_VM_SUBSECTION_def Let_def simp del: One_nat_def)
qed

lemma get_subsection_finds:
  "distinct (map (vm_name \<circ> fst) subs) \<Longrightarrow> (v, needed) \<in> set subs \<Longrightarrow> vmstate_get_subsection subs (vm_name v) = Some v"
  by (induction subs) (auto simp: rev_image_eqI)

lemma header_taken:
  assumes v: "names_ok nm subs" "(v, needed) \<in> set subs"
    and f: "reading file_get_buffer contents (\<lambda>_ _. True) f" "remaining contents f = subsection_header v @ rest"
  shows "\<exists>g. vmstate_subsection_load n (Suc k) nm subs a m f =
        bindE (vmstate_load_state n v a (vm_version_id v) m g) (\<lambda>((ret, m), f).
          if ret \<noteq> 0 then Inr ((ret, m), f) else vmstate_subsection_load n k nm subs a m f) \<and>
      reading file_get_buffer contents (\<lambda>_ _. True) g \<and> remaining contents g = rest"
proof -
  let ?nm = "vm_name v" and ?w = "word_of_int (vm_version_id v) :: u32"
  note ok = names_okD [OF v]
  have len: "unat (word_of_nat (length ?nm) :: u8) = length ?nm" using ok(2) by (simp add: unat_of_nat take_bit_nat_eq_self)
  have r: "remaining contents f = QEMU_VM_SUBSECTION # word_of_nat (length ?nm) # ?nm @ bytes_be32 ?w @ rest"
    using f(2) by (simp add: subsection_header_def)
  obtain g where g: "qemu_peek_byte 0 f = Inr (QEMU_VM_SUBSECTION, g)" "reading file_get_buffer contents (\<lambda>_ _. True) g"
      "remaining contents g = remaining contents f"
    using peeks(1) [OF f(1), of 0] r by auto
  obtain h where h: "qemu_peek_byte 1 g = Inr (word_of_nat (length ?nm), h)" "reading file_get_buffer contents (\<lambda>_ _. True) h"
      "remaining contents h = remaining contents f"
    using peeks(1) [OF g(2), of 1] r g(3) by auto
  obtain i where i: "qemu_peek_buffer (length ?nm) 2 h = Inr (?nm, i)" "reading file_get_buffer contents (\<lambda>_ _. True) i"
      "remaining contents i = remaining contents f" "2 + length ?nm \<le> buf_size i - buf_index i"
    using peeks(2) [OF h(2), of "length ?nm"] r h(3) ok(2) by (auto simp: min_def)
  have a1: "buf_index i + 1 \<le> buf_size i" using i(4) by linarith
  note s1 = file_eager.skip_drops [OF i(2) a1]
  have a2: "buf_index (qemu_file_skip 1 i) + 1 \<le> buf_size (qemu_file_skip 1 i)" unfolding s1 using i(4) by linarith
  note s2 = file_eager.skip_drops [OF s1(1) a2]
  let ?i = "qemu_file_skip 1 (qemu_file_skip 1 i)"
  have a3: "buf_index ?i + length ?nm \<le> buf_size ?i" unfolding s1 s2 using i(4) by linarith
  note s3 = file_eager.skip_drops [OF s2(1) a3]
  have "remaining contents (qemu_file_skip (length ?nm) ?i) = bytes_be32 ?w @ rest" unfolding s1 s2 s3 i(3) r by simp
  then obtain j where j: "qemu_get_be32 (qemu_file_skip (length ?nm) ?i) = Inr (?w, j)" "reading file_get_buffer contents (\<lambda>_ _. True) j"
      "remaining contents j = rest"
    using takes_be32 s3(1) unfolding takes_def by blast
  have "take_bit 8 (vm_version_id v) = vm_version_id v" using ok(5,6) by (simp add: take_bit_int_eq_self)
  then have "uint (ucast ?w :: u8) = vm_version_id v" using ok(5) by (simp add: unsigned_of_int)
  moreover have "c_string ?nm = ?nm" using ok(4) by (auto simp: c_string_def takeWhile_eq_all_conv)
  moreover have "vmstate_get_subsection subs ?nm = Some v" using get_subsection_finds v by (auto simp: names_ok_def)
  ultimately show ?thesis
    using g(1) h(1) i(1) j len ok(1,3) by (intro exI [of _ j]) (simp del: One_nat_def)
qed

lemma subsection_round:
  assumes "names_ok nm subs" "(v, needed) \<in> set subs"
    and "takes_at (vmstate_load_state n v a (vm_version_id v) m) bs (cs @ rest) (0, m')"
    and "takes_at (vmstate_subsection_load n k nm subs a m') cs rest y"
  shows "takes_at (vmstate_subsection_load n (Suc k) nm subs a m) (subsection_header v @ bs @ cs) rest y"
  unfolding takes_at_def append_assoc
proof (intro allI impI)
  fix f :: "FILE QEMUFile"
  assume f: "reading file_get_buffer contents (\<lambda>_ _. True) f" "remaining contents f = subsection_header v @ bs @ cs @ rest"
  obtain g where g: "vmstate_subsection_load n (Suc k) nm subs a m f =
        bindE (vmstate_load_state n v a (vm_version_id v) m g) (\<lambda>((ret, m), f).
          if ret \<noteq> 0 then Inr ((ret, m), f) else vmstate_subsection_load n k nm subs a m f)"
      "reading file_get_buffer contents (\<lambda>_ _. True) g" "remaining contents g = bs @ cs @ rest"
    using header_taken [OF assms(1,2) f] by blast
  obtain h where h: "vmstate_load_state n v a (vm_version_id v) m g = Inr ((0, m'), h)" "reading file_get_buffer contents (\<lambda>_ _. True) h"
      "remaining contents h = cs @ rest"
    using assms(3) g(2,3) unfolding takes_at_def by blast
  then show "\<exists>g. vmstate_subsection_load n (Suc k) nm subs a m f = Inr (y, g) \<and> reading file_get_buffer contents (\<lambda>_ _. True) g \<and>
      remaining contents g = rest"
    using assms(4) unfolding g(1) takes_at_def by simp
qed

definition load_elem :: "nat \<Rightarrow> 'b VMStateField \<Rightarrow> u64 \<Rightarrow> int \<Rightarrow> nat \<Rightarrow> hostmem \<Rightarrow> 'b loader" where
  "load_elem n fl base sz i m f =
     (let addr = elem_addr fl base sz i m
      in if has fl VMS_STRUCT then
           (case fl_vmsd fl of None \<Rightarrow> Inl (out_of_bounds ''field->vmsd'')
            | Some v \<Rightarrow> vmstate_load_state n v addr (vm_version_id v) m f)
         else
           (case fl_info fl of None \<Rightarrow> Inl (out_of_bounds ''field->info'') | Some i \<Rightarrow> info_get i addr sz m f))"

lemma load_fields_Cons:
  "load_fields n version (fl # fls) a m f =
     on_success
       (if exists_load fl a version m
        then load_elems (load_elem n fl (base_addr fl a m) (field_size fl a m)) [0..<nat (n_elems_load fl a m)] m f
        else Inr ((0, m), f))
       (load_fields n version fls a)"
  by (simp add: load_elem_def [abs_def] Let_def)

declare load_fields.simps(2) [simp del]

lemma load_elem_restores:
  assumes "restore (plan_elem fl base sz m i) rest m' = Some m''"
    and "\<And>v addr. has fl VMS_STRUCT \<Longrightarrow> fl_vmsd fl = Some v \<Longrightarrow> addr = elem_addr fl base sz i m \<Longrightarrow>
      restore (plan_state v addr m) rest m' = Some m'' \<Longrightarrow>
      takes_at (vmstate_load_state n v addr (vm_version_id v) m') (images (plan_state v addr m)) rest (0, m'')"
  shows "takes_at (load_elem n fl base sz i m') (images (plan_elem fl base sz m i)) rest (0, m'')"
proof (cases "has fl VMS_STRUCT")
  case True
  then show ?thesis using assms(1) assms(2) [OF True _ refl]
    by (auto simp: plan_elem_def load_elem_def [abs_def] Let_def split: if_splits option.splits)
next
  case False
  then obtain k where k: "fl_info fl = Some k" using assms(1) by (auto simp: plan_elem_def Let_def split: if_splits option.splits)
  let ?addr = "elem_addr fl base sz i m"
  have "elem_addr fl base sz i m' = ?addr" "leaf_load k ?addr (load_bytes (cell_count k sz) ?addr m) m' = Some m''"
    using assms(1) False k by (auto simp: plan_elem_def Let_def split: if_splits option.splits)
  then show ?thesis using False k takes_at [OF leaf_get]
    by (simp add: plan_elem_def load_elem_def [abs_def] Let_def)
qed

lemma images_elem: "i \<in> set is \<Longrightarrow> length (images (h i)) \<le> length (images (concat (map h is)))"
  by (induction "is") auto

lemma images_hooks [simp]: "images (case x of None \<Rightarrow> [] | Some h \<Rightarrow> [Hook (g h)]) = []"
  by (cases x) simp_all

lemma load_state_restores:
  assumes r: "restore (plan_state v a m) rest m' = Some m''"
    and fields: "\<And>rest m' m''. restore (plan_fields (vm_version_id v) (fields v) a m) rest m' = Some m'' \<Longrightarrow>
      takes_at (load_fields n (vm_version_id v) (fields v) a m') (images (plan_fields (vm_version_id v) (fields v) a m)) rest (0, m'')"
    and subs: "\<And>rest m' m''. restore (plan_subs (subsections v) a m @ [Close (vm_name v)]) rest m' = Some m'' \<Longrightarrow>
      names_ok (vm_name v) (subsections v) \<Longrightarrow>
      takes_at (vmstate_subsection_load n n (vm_name v) (subsections v) a m') (images (plan_subs (subsections v) a m)) rest (0, m'')"
  shows "takes_at (vmstate_load_state n v a (vm_version_id v) m') (images (plan_state v a m)) rest (0, m'')"
proof -
  let ?pre = "case pre_load v of None \<Rightarrow> [] | Some h \<Rightarrow> [Hook (h a)]" and ?ver = "vm_version_id v"
  let ?post = "case post_load v of None \<Rightarrow> [] | Some h \<Rightarrow> [Hook (h a (vm_version_id v))]"
  let ?pf = "plan_fields ?ver (fields v) a m" and ?ps = "plan_subs (subsections v) a m"
  have plan: "plan_state v a m = check (minimum_version_id_old v \<le> ?ver \<and> minimum_version_id v \<le> ?ver \<and>
      names_ok (vm_name v) (subsections v)) @ ?pre @ ?pf @ (?ps @ [Close (vm_name v)]) @ ?post"
    by (simp add: plan_state.simps)
  have ok: "minimum_version_id_old v \<le> ?ver" "minimum_version_id v \<le> ?ver" "names_ok (vm_name v) (subsections v)"
    and "restore (?pre @ ?pf @ (?ps @ [Close (vm_name v)]) @ ?post) rest m' = Some m''"
    using r unfolding plan by (auto split: if_splits)
  then obtain m0 m1 m2 where m: "restore ?pre (images (?pf @ (?ps @ [Close (vm_name v)]) @ ?post) @ rest) m' = Some m0"
      "restore ?pf (images ?ps @ rest) m0 = Some m1" "restore (?ps @ [Close (vm_name v)]) rest m1 = Some m2" "restore ?post rest m2 = Some m''"
    unfolding restore_append [of ?pre] restore_append [of ?pf] restore_append [of "?ps @ _"] bind_eq_Some_conv by auto
  let ?q = "\<lambda>(ret, m) f. if ret \<noteq> 0 then Inr ((ret, m), f)
      else case post_load v of None \<Rightarrow> Inr ((0, m), f) | Some h \<Rightarrow> Inr (h a ?ver m, f)"
  have pre: "(case pre_load v of None \<Rightarrow> (0, m') | Some h \<Rightarrow> h a m') = (0, m0)"
    using m(1) by (auto split: option.splits prod.splits if_splits)
  have post: "takes_at (?q (0, m2)) [] rest (0, m'')"
    using m(4) by (auto simp: takes_at_def split: option.splits prod.splits if_splits)
  have "takes_at (\<lambda>f. bindE (vmstate_subsection_load n n (vm_name v) (subsections v) a m1 f) (\<lambda>(x, f). ?q x f)) (images ?ps @ []) rest (0, m'')"
    by (intro takes_at_bind [where q = ?q, OF _ post]) (use subs [OF m(3) ok(3)] in simp)
  then have "takes_at (\<lambda>f. on_success (load_fields n ?ver (fields v) a m0 f) (\<lambda>m f.
      bindE (vmstate_subsection_load n n (vm_name v) (subsections v) a m f) (\<lambda>(x, f). ?q x f))) (images ?pf @ images ?ps) rest (0, m'')"
    by (intro takes_at_success [OF fields [OF m(2)]]) simp
  moreover have "vmstate_load_state n v a ?ver m' = (\<lambda>f. on_success (load_fields n ?ver (fields v) a m0 f) (\<lambda>m f.
      bindE (vmstate_subsection_load n n (vm_name v) (subsections v) a m f) (\<lambda>(x, f). ?q x f)))"
    using ok by (intro ext) (simp add: vmstate_load_state.simps pre case_prod_beta')
  ultimately show ?thesis by (simp add: plan)
qed

lemma load_field_restores:
  assumes r: "restore (plan_fields version (fl # fls) a m) rest m' = Some m''"
    and elem: "\<And>i rest m' m''. exists_save fl a version m \<Longrightarrow> i \<in> set [0..<nat (n_elems_save fl a m)] \<Longrightarrow>
      restore (plan_elem fl (base_addr fl a m) (field_size fl a m) m i) rest m' = Some m'' \<Longrightarrow>
      takes_at (load_elem n fl (base_addr fl a m) (field_size fl a m) i m') (images (plan_elem fl (base_addr fl a m) (field_size fl a m) m i)) rest (0, m'')"
    and fields: "\<And>m'. restore (plan_fields version fls a m) rest m' = Some m'' \<Longrightarrow>
      takes_at (load_fields n version fls a m') (images (plan_fields version fls a m)) rest (0, m'')"
  shows "takes_at (load_fields n version (fl # fls) a m') (images (plan_fields version (fl # fls) a m)) rest (0, m'')"
proof (cases "exists_save fl a version m")
  case True
  let ?h = "plan_elem fl (base_addr fl a m) (field_size fl a m) m" and ?is = "[0..<nat (n_elems_save fl a m)]"
  let ?p = "load_elem n fl (base_addr fl a m) (field_size fl a m)"
  have same: "exists_load fl a version m'" "base_addr fl a m' = base_addr fl a m" "field_size fl a m' = field_size fl a m"
      "n_elems_load fl a m' = n_elems_save fl a m" "restore (concat (map ?h ?is) @ plan_fields version fls a m) rest m' = Some m''"
    using r True by (auto simp: plan_fields_Cons Let_def split: if_splits)
  then obtain k where k: "restore (concat (map ?h ?is)) (images (plan_fields version fls a m) @ rest) m' = Some k"
      "restore (plan_fields version fls a m) rest k = Some m''"
    unfolding restore_append bind_eq_Some_conv by auto
  have "takes_at (load_elems ?p ?is m') (images (concat (map ?h ?is))) (images (plan_fields version fls a m) @ rest) (0, k)"
    using elem [OF True] k(1) by (intro load_elems_restores)
  then have "takes_at (\<lambda>f. on_success (load_elems ?p ?is m' f) (load_fields n version fls a))
      (images (concat (map ?h ?is)) @ images (plan_fields version fls a m)) rest (0, m'')"
    using fields [OF k(2)] by (intro takes_at_success)
  moreover have "load_fields n version (fl # fls) a m' = (\<lambda>f. on_success (load_elems ?p ?is m' f) (load_fields n version fls a))"
    using same by (intro ext) (simp add: load_fields_Cons)
  ultimately show ?thesis using True by (simp add: plan_fields_Cons Let_def)
next
  case False
  then have "\<not> exists_load fl a version m'" "restore (plan_fields version fls a m) rest m' = Some m''"
    using r by (auto simp: plan_fields_Cons split: if_splits)
  then show ?thesis
    using False fields by (simp add: load_fields_Cons [abs_def] plan_fields_Cons on_success_def takes_at_def)
qed

lemma load_restores_plan:
  fixes v :: "FILE VMStateDescription"
  shows "restore (plan_state v a m) rest m' = Some m'' \<Longrightarrow> length (images (plan_state v a m)) < n \<Longrightarrow>
      takes_at (vmstate_load_state n v a (vm_version_id v) m') (images (plan_state v a m)) rest (0, m'')"
    and "restore (plan_fields version fls a m) rest m' = Some m'' \<Longrightarrow> length (images (plan_fields version fls a m)) < n \<Longrightarrow>
      takes_at (load_fields n version fls a m') (images (plan_fields version fls a m)) rest (0, m'')"
    and "restore (plan_subs subs a m @ [Close nm]) rest m' = Some m'' \<Longrightarrow> length (images (plan_subs subs a m)) < n \<Longrightarrow>
      length (images (plan_subs subs a m)) < k \<Longrightarrow> names_ok nm all \<Longrightarrow> set subs \<subseteq> set all \<Longrightarrow>
      takes_at (vmstate_subsection_load n k nm all a m') (images (plan_subs subs a m)) rest (0, m'')"
proof (induction v a m and version fls a m and subs a m arbitrary: rest m' m'' and rest m' m'' and rest m' m'' k nm all
    rule: plan_state_plan_fields_plan_subs.induct)
  case (1 v a m)
  have "length (images (plan_fields (vm_version_id v) (fields v) a m)) < n" "length (images (plan_subs (subsections v) a m)) < n"
    using 1(4) by (simp_all add: plan_state.simps)
  then show ?case using 1(1,2) by (intro load_state_restores [OF 1(3)]) auto
next
  case (2 version a m)
  then show ?case by (simp add: takes_at_Inr)
next
  case (3 version fl fls a m)
  let ?base = "base_addr fl a m" and ?sz = "field_size fl a m" and ?n = "n_elems_save fl a m"
  have len: "length (images (plan_fields version fls a m)) < n"
    "exists_save fl a version m \<Longrightarrow> length (images (concat (map (plan_elem fl ?base ?sz m) [0..<nat ?n]))) < n"
    using 3(4) by (simp_all add: plan_fields_Cons Let_def)
  show ?case
  proof (rule load_field_restores [OF 3(3)])
    fix i rest m' m''
    assume e: "exists_save fl a version m" "i \<in> set [0..<nat ?n]" "restore (plan_elem fl ?base ?sz m i) rest m' = Some m''"
    have "length (images (plan_elem fl ?base ?sz m i)) < n"
      using images_elem [OF e(2), of "plan_elem fl ?base ?sz m"] len(2) [OF e(1)] by simp
    moreover note 3(1) [OF e(1) refl refl refl e(2)]
    ultimately show "takes_at (load_elem n fl ?base ?sz i m') (images (plan_elem fl ?base ?sz m i)) rest (0, m'')"
      by (intro load_elem_restores [OF e(3)]) (auto simp: plan_elem_def Let_def)
  qed (use 3(2) len in blast)
next
  case (4 a m)
  then show ?case by (auto intro: subsections_end split: if_splits)
next
  case (5 v needed subs a m)
  show ?case
  proof (cases "needed a m")
    case True
    let ?tt = "plan_subs subs a m @ [Close nm]"
    have len: "length (images (plan_state v a m)) < n" "length (images (plan_subs subs a m)) < n"
      using 5(4) True by simp_all
    obtain j where j: "k = Suc j" "length (images (plan_subs subs a m)) < j"
      using 5(5) True by (cases k) (auto simp: subsection_header_def)
    have "restore (plan_state v a m @ ?tt) rest m' = Some m''" using 5(3) True by (auto split: if_splits)
    then obtain m1 where m1: "restore (plan_state v a m) (images (plan_subs subs a m) @ rest) m' = Some m1" "restore ?tt rest m1 = Some m''"
      unfolding restore_append [of "plan_state v a m"] bind_eq_Some_conv by auto
    have "takes_at (vmstate_subsection_load n (Suc j) nm all a m')
        (subsection_header v @ images (plan_state v a m) @ images (plan_subs subs a m)) rest (0, m'')"
      using 5(7) 5(1) [OF True m1(1) len(1)] 5(2) [OF m1(2) len(2) j(2) 5(6)]
      by (intro subsection_round [OF 5(6), where needed = needed]) auto
    then show ?thesis using True j(1) by (simp del: vmstate_subsection_load.simps)
  next
    case False
    then show ?thesis using 5(2-7) by simp
  qed
qed

section \<open>Restoring copies the described memory\<close>

definition hook_free :: "step list \<Rightarrow> bool" where
  "hook_free ss = list_all (\<lambda>s. case s of Hook h \<Rightarrow> False | _ \<Rightarrow> True) ss"

fun copies :: "step \<Rightarrow> u64 \<Rightarrow> bool" where
  "copies (Leaf i a sz bs) x \<longleftrightarrow> i \<noteq> vmstate_info_int32_le \<and> unat (x - a) < length bs"
| "copies _ x \<longleftrightarrow> False"

definition covered :: "step list \<Rightarrow> u64 \<Rightarrow> bool" where
  "covered ss x = list_ex (\<lambda>s. copies s x) ss"

lemma load_bytes_nth: "unat (x - a) < n \<Longrightarrow> load_bytes n a m ! unat (x - a) = m x"
  by (simp add: load_bytes_def)

lemma leaf_load_cases:
  assumes "leaf_load i a bs m = Some m'" "length bs = cell_count i sz" "i \<noteq> vmstate_info_int32_le"
  shows "m' = store_at a bs m \<or> m' = m \<and> load_bytes (length bs) a m = bs"
  using assms by (cases i) (auto simp: load_bytes_def split: if_splits)

lemma leaf_load_copies:
  assumes "leaf_load i a (load_bytes (cell_count i sz) a m) m' = Some m''"
  shows "m'' x = (if copies (Leaf i a sz (load_bytes (cell_count i sz) a m)) x then m x else m' x)"
proof (cases "i = vmstate_info_int32_le")
  case True
  then show ?thesis using assms by (simp split: if_splits)
next
  case False
  let ?n = "cell_count i sz"
  from leaf_load_cases [OF assms _ False, of sz] have "m'' = store_at a (load_bytes ?n a m) m' \<or> m'' = m' \<and> load_bytes ?n a m' = load_bytes ?n a m"
    by simp
  then show ?thesis
    using False load_bytes_nth [of x a ?n m] load_bytes_nth [of x a ?n m'] by (auto simp: store_at_def)
qed

lemma plan_cells:
  fixes v :: "'b VMStateDescription" and fls :: "'b VMStateField list"
    and subs :: "('b VMStateDescription \<times> (u64 \<Rightarrow> hostmem \<Rightarrow> bool)) list"
  shows "Leaf i b sz bs \<in> set (plan_state v a m) \<Longrightarrow> bs = load_bytes (cell_count i sz) b m"
    and "Leaf i b sz bs \<in> set (plan_fields version fls a m) \<Longrightarrow> bs = load_bytes (cell_count i sz) b m"
    and "Leaf i b sz bs \<in> set (plan_subs subs a m) \<Longrightarrow> bs = load_bytes (cell_count i sz) b m"
proof (induction v a m and version fls a m and subs a m rule: plan_state_plan_fields_plan_subs.induct)
  case (1 v a m)
  then show ?case by (auto simp: plan_state.simps check_def split: option.splits if_splits)
next
  case (3 version fl fls a m)
  show ?case
  proof (cases "Leaf i b sz bs \<in> set (plan_fields version fls a m)")
    case False
    then obtain j where j: "exists_save fl a version m" "j \<in> set [0..<nat (n_elems_save fl a m)]"
        "Leaf i b sz bs \<in> set (plan_elem fl (base_addr fl a m) (field_size fl a m) m j)"
      using 3(3) by (auto simp: plan_fields_Cons Let_def split: if_splits)
    then show ?thesis
      using 3(1) [OF j(1) refl refl refl j(2)] by (auto simp: plan_elem_def check_def Let_def split: option.splits if_splits)
  qed (rule 3(2))
next
  case (5 v needed subs a m)
  then show ?case by (auto simp: check_def split: if_splits)
qed simp_all

lemma restore_copies:
  assumes "restore ss rest m' = Some m''" "hook_free ss"
    and "\<And>i a sz bs. Leaf i a sz bs \<in> set ss \<Longrightarrow> bs = load_bytes (cell_count i sz) a m"
  shows "m'' = (\<lambda>x. if covered ss x then m x else m' x)"
  using assms
proof (induction ss rest m' rule: restore.induct)
  case (2 i a sz bs ss rest m')
  have bs: "bs = load_bytes (cell_count i sz) a m" using 2(4) by simp
  obtain k where k: "leaf_load i a bs m' = Some k" "restore ss rest k = Some m''" using 2(2) by (auto split: option.splits)
  have "m'' = (\<lambda>x. if covered ss x then m x else k x)" using 2(1) [OF k] 2(3,4) by (simp add: hook_free_def)
  then show ?case using leaf_load_copies [OF k(1) [unfolded bs]] bs by (auto simp: covered_def)
qed (auto simp: hook_free_def covered_def split: if_splits)

section \<open>Round trip\<close>

definition pre_saved :: "'b VMStateDescription \<Rightarrow> u64 \<Rightarrow> hostmem \<Rightarrow> hostmem" where
  "pre_saved v a m = (case pre_save v of None \<Rightarrow> m | Some h \<Rightarrow> h a m)"

lemma restore_no_bad: "restore ss rest m = Some m' \<Longrightarrow> Bad \<notin> set ss"
  by (induction ss rest m rule: restore.induct) (auto split: option.splits prod.splits if_splits)

lemma save_state_writes:
  fixes v :: "FILE VMStateDescription"
  assumes "Bad \<notin> set (plan_state v a (pre_saved v a m))" "writing file_put_buffer contents (\<lambda>_. True) f"
  shows "\<exists>g. vmstate_save_state v a (f, m) = Inr (g, pre_saved v a m) \<and> writing file_put_buffer contents (\<lambda>_. True) g \<and>
    written contents g = written contents f @ images (plan_state v a (pre_saved v a m))"
proof -
  let ?m = "pre_saved v a m" and ?p = "save_fields (vm_version_id v) (fields v) a" and ?q = "vmstate_subsection_save (subsections v) a"
  have ok: "names_ok (vm_name v) (subsections v)" using assms(1) by (simp add: plan_state.simps)
  have "saves (\<lambda>s. bindE (?p s) ?q) ?m (images (plan_fields (vm_version_id v) (fields v) a ?m) @ images (plan_subs (subsections v) a ?m))"
    using assms(1) ok
    by (intro saves_bind [of ?p _ _ ?q] save_writes_plan(2,3)) (auto simp: plan_state.simps names_ok_def list_all_iff)
  then show ?thesis
    using assms(2) by (simp add: saves_def vmstate_save_state.simps pre_saved_def plan_state.simps)
qed

text \<open>
  C3: device state survives migration. Saving a structure to a file and loading the file does to
  the memory of the receiver what restoring the described cells does, whatever the kinds of the
  fields, arrays, counts, pointers, nested structures and subsections. The conditions are those of
  \<open>restore\<close> being defined: the receiver's memory agrees on what the description reads from it (counts, sizes, pointers,
  which fields exist), the loader counts as many elements as were saved, no data in the file look like a subsection, the names of
  subsections are as the format needs them, hooks succeed and values that are only compared agree, and nested structures and
  subsections have no hook before saving. The
  loader returns 0, takes exactly the bytes that were written, and needs no more rounds for
  subsections than there are bytes. Without hooks, every described byte of the memory is then the
  one that was saved and every other byte is unchanged.
\<close>

theorem vmstate_save_load:
  fixes v :: "FILE VMStateDescription"
  assumes "restore (plan_state v a (pre_saved v a m)) rest m' = Some m''"
  shows "\<exists>g. vmstate_save_state v a (qemu_fopen_ops new_file (Some file_put_buffer) None, m) = Inr (g, pre_saved v a m) \<and>
    (\<forall>fp n. contents fp = contents (back_end (qemu_fflush g)) @ rest \<longrightarrow> length (contents fp) < n \<longrightarrow>
      (\<exists>h. vmstate_load_state n v a (vm_version_id v) m' (qemu_fopen_ops fp None (Some file_get_buffer)) = Inr ((0, m''), h) \<and>
         remaining contents h = rest)) \<and>
    (hook_free (plan_state v a (pre_saved v a m)) \<longrightarrow>
      m'' = (\<lambda>x. if covered (plan_state v a (pre_saved v a m)) x then pre_saved v a m x else m' x))"
proof -
  let ?ss = "plan_state v a (pre_saved v a m)"
  obtain g where g: "vmstate_save_state v a (qemu_fopen_ops new_file (Some file_put_buffer) None, m) = Inr (g, pre_saved v a m)"
      "writing file_put_buffer contents (\<lambda>_. True) g" "written contents g = images ?ss"
    using save_state_writes [OF restore_no_bad [OF assms] opened(1)] opened(2) by auto
  have "contents (back_end (qemu_fflush g)) = images ?ss" using file_sink.flushed [OF g(2)] g(3) by simp
  moreover have "\<exists>h. vmstate_load_state n v a (vm_version_id v) m' (qemu_fopen_ops fp None (Some file_get_buffer)) = Inr ((0, m''), h) \<and>
      remaining contents h = rest" if "contents fp = images ?ss @ rest" "length (contents fp) < n" for fp n
    using load_restores_plan(1) [OF assms, of n] opened(3,4) that unfolding takes_at_def by fastforce
  moreover have "m'' = (\<lambda>x. if covered ?ss x then pre_saved v a m x else m' x)" if "hook_free ?ss"
    using restore_copies [OF assms that plan_cells(1)] .
  ultimately show ?thesis using g(1) by (intro exI [of _ g]) auto
qed

text \<open>
  An instance: a structure with a flag, a count, an array of that many words, a nested structure
  and a subsection with a buffer.
\<close>

definition plain_field :: "u64 \<Rightarrow> nat \<Rightarrow> VMStateInfo \<Rightarrow> FILE VMStateField" where
  "plain_field off sz i = VMStateField off sz 0 0 0 0 (Some i) 1 None 0 None"

definition plain_vmsd ::
  "cstring \<Rightarrow> FILE VMStateField list \<Rightarrow> (FILE VMStateDescription \<times> (u64 \<Rightarrow> hostmem \<Rightarrow> bool)) list \<Rightarrow> FILE VMStateDescription" where
  "plain_vmsd nm fls subs = VMStateDescription nm False 1 1 1 None None None None fls subs"

definition example_vmsd :: "FILE VMStateDescription" where
  "example_vmsd = plain_vmsd [100]
     [plain_field 1 1 vmstate_info_bool, plain_field 2 1 vmstate_info_uint8,
      VMStateField 8 4 0 0 2 0 (Some vmstate_info_uint32) VMS_VARRAY_UINT8 None 0 None,
      VMStateField 32 8 0 0 0 0 None VMS_STRUCT (Some (plain_vmsd [101] [plain_field 0 2 vmstate_info_int16] [])) 0 None]
     [(plain_vmsd [100, 47, 120] [plain_field 40 3 vmstate_info_buffer] [], \<lambda>a m. m (a + 1) = 1)]"

lemma example_restores: "restore (plan_state example_vmsd 4096 ucast) [0] (\<lambda>x. 0) \<noteq> None"
  by code_simp

lemma example_facts:
  "hook_free (plan_state example_vmsd 4096 ucast)" "covered (plan_state example_vmsd 4096 ucast) 4108"
  "covered (plan_state example_vmsd 4096 ucast) 4138" "\<not> covered (plan_state example_vmsd 4096 ucast) 4144"
  by code_simp+

lemma example_pre_saved: "pre_saved example_vmsd a m = m"
  by (simp add: pre_saved_def example_vmsd_def plain_vmsd_def)

theorem vmstate_save_load_witness:
  "\<exists>g h m''. vmstate_save_state example_vmsd 4096 (qemu_fopen_ops new_file (Some file_put_buffer) None, ucast) = Inr (g, ucast) \<and>
    vmstate_load_state (Suc (length (contents (back_end (qemu_fflush g)) @ [0]))) example_vmsd 4096 (vm_version_id example_vmsd) (\<lambda>x. 0)
      (qemu_fopen_ops \<lparr>contents = contents (back_end (qemu_fflush g)) @ [0], fpos = 0\<rparr> None (Some file_get_buffer)) = Inr ((0, m''), h) \<and>
    remaining contents h = [0] \<and> m'' 4108 = 12 \<and> m'' 4138 = 42 \<and> m'' 4144 = 0"
proof -
  obtain m'' where m: "restore (plan_state example_vmsd 4096 ucast) [0] (\<lambda>x. 0) = Some m''" using example_restores by blast
  obtain g where g: "vmstate_save_state example_vmsd 4096 (qemu_fopen_ops new_file (Some file_put_buffer) None, ucast) = Inr (g, ucast)"
      "\<And>fp n. contents fp = contents (back_end (qemu_fflush g)) @ [0] \<Longrightarrow> length (contents fp) < n \<Longrightarrow>
        \<exists>h. vmstate_load_state n example_vmsd 4096 (vm_version_id example_vmsd) (\<lambda>x. 0) (qemu_fopen_ops fp None (Some file_get_buffer)) =
          Inr ((0, m''), h) \<and> remaining contents h = [0]"
      "m'' = (\<lambda>x. if covered (plan_state example_vmsd 4096 ucast) x then ucast x else 0)"
    using vmstate_save_load [of example_vmsd 4096 ucast "[0]" "\<lambda>x. 0" m''] m example_facts(1) unfolding example_pre_saved by blast
  from g(1) g(2) [of "\<lparr>contents = contents (back_end (qemu_fflush g)) @ [0], fpos = 0\<rparr>"
      "Suc (length (contents (back_end (qemu_fflush g)) @ [0]))"]
  show ?thesis using example_facts(2-4) unfolding g(3) by auto
qed

section \<open>What does not come back\<close>

lemma load_elems_take:
  assumes "\<And>i k bs. length bs = w \<Longrightarrow> \<exists>k'. takes (p i k) bs (0, k')" "length bs = w * length is"
  shows "\<exists>m'. takes (load_elems p is m) bs (0, m')"
  using assms(2)
proof (induction "is" arbitrary: bs m)
  case Nil
  then show ?case by (auto simp: takes_def)
next
  case (Cons i "is")
  let ?b = "take w bs" and ?cs = "drop w bs"
  have len: "length ?b = w" "length ?cs = w * length is" using Cons.prems by simp_all
  obtain m1 m2 where "takes (p i m) ?b (0, m1)" "takes (load_elems p is m1) ?cs (0, m2)"
    using assms(1) [OF len(1)] Cons.IH [OF len(2)] by blast
  then have "takes_at (\<lambda>f. on_success (p i m f) (load_elems p is)) (?b @ ?cs) vs (0, m2)" for vs
    by (intro takes_at_success) (auto intro: takes_at)
  then have "takes (load_elems p (i # is) m) bs (0, m2)" by (simp add: takes_def takes_at_def)
  then show ?case by blast
qed

definition number_kinds :: "VMStateInfo set" where
  "number_kinds = {vmstate_info_int8, vmstate_info_int16, vmstate_info_int32, vmstate_info_int64,
     vmstate_info_uint8, vmstate_info_uint16, vmstate_info_uint32, vmstate_info_uint64}"

lemma number_take:
  assumes "k \<in> number_kinds" "length bs = cell_count k sz"
  shows "\<exists>m'. takes (info_get k a sz m) bs (0, m')"
proof -
  have "leaf_load k a (rev bs) m = Some (store_at a (rev bs) m)" "leaf_bytes k sz (rev bs) = bs"
    using assms(1) by (auto simp: number_kinds_def)
  then show ?thesis using leaf_get [of "rev bs" k sz a m] assms(2) by auto
qed

text \<open>
  C36: an array whose length is kept in a \<open>uint32_t\<close> does not survive migration. For every field that is such
  an array, behind a pointer or not, of structures or of any other kind, present in both directions: saving
  writes its first element and goes on with the next field, whatever the length; loading takes as many elements as the
  length says before it goes on, and so takes the bytes of the fields behind for elements. If the elements are numbers of
  \<open>w\<close> bytes, \<open>w\<close> bytes are written, and any \<open>w\<close> times the length bytes are taken.
\<close>

theorem varray_uint32_truncated:
  fixes fl :: "FILE VMStateField"
  assumes "has fl VMS_VARRAY_UINT32" "\<not> has fl VMS_ARRAY" "\<not> has fl VMS_VARRAY_INT32" "\<not> has fl VMS_VARRAY_UINT16" "\<not> has fl VMS_VARRAY_UINT8"
    "exists_save fl a version m" "exists_load fl a version m" "len = nat (sint (ucast (load_le 4 (a + fl_num_offset fl) m) :: u32))"
  shows "save_fields version (fl # fls) a (f, m) =
      bindE (save_elem fl (base_addr fl a m) (field_size fl a m) 0 (f, m)) (save_fields version fls a) \<and>
    load_fields n version (fl # fls) a m g =
      on_success (load_elems (load_elem n fl (base_addr fl a m) (field_size fl a m)) [0..<len] m g) (load_fields n version fls a) \<and>
    (\<not> has fl VMS_STRUCT \<longrightarrow> fl_info fl = Some k \<longrightarrow> k \<in> number_kinds \<longrightarrow> w = cell_count k (field_size fl a m) \<longrightarrow>
      (\<exists>bs. length bs = w \<and> saves (save_fields version [fl] a) m bs) \<and>
      (\<forall>bs. length bs = w * len \<longrightarrow> (\<exists>m'. takes (load_fields n version [fl] a m) bs (0, m'))))"
proof (intro conjI allI impI)
  let ?base = "base_addr fl a m" and ?sz = "field_size fl a m"
  have save: "save_fields version (fl # fls) a (f, m) = bindE (save_elem fl ?base ?sz 0 (f, m)) (save_fields version fls a)" for fls f
    using assms(2-6) by (simp add: save_fields_Cons n_elems_save_def bindE_Inr)
  have load: "load_fields n version (fl # fls) a m g = on_success (load_elems (load_elem n fl ?base ?sz) [0..<len] m g) (load_fields n version fls a)" for fls g
    using assms(1-3,7,8) by (simp add: load_fields_Cons n_elems_load_def Let_def)
  show "save_fields version (fl # fls) a (f, m) = bindE (save_elem fl ?base ?sz 0 (f, m)) (save_fields version fls a)"
    "load_fields n version (fl # fls) a m g = on_success (load_elems (load_elem n fl ?base ?sz) [0..<len] m g) (load_fields n version fls a)"
    by (rule save, rule load)
  assume k: "\<not> has fl VMS_STRUCT" "fl_info fl = Some k" "k \<in> number_kinds" and w: "w = cell_count k ?sz"
  let ?bs = "images (plan_fields version [fl] a m)"
  have "length ?bs = w" "Bad \<notin> set (plan_fields version [fl] a m)"
    using assms(2-6) k w by (auto simp: plan_fields_Cons n_elems_save_def plan_elem_def number_kinds_def Let_def)
  then show "\<exists>bs. length bs = w \<and> saves (save_fields version [fl] a) m bs" using save_writes_plan(2) by blast
  fix bs :: "u8 list"
  assume bs: "length bs = w * len"
  have "\<exists>m'. takes (load_elem n fl ?base ?sz i m) cs (0, m')" if "length cs = w" for i m cs
    using number_take [OF k(3)] that w k by (simp add: load_elem_def [abs_def] Let_def)
  then obtain m' where m': "takes (load_elems (load_elem n fl ?base ?sz) [0..<len] m) bs (0, m')"
    using load_elems_take [of w "load_elem n fl ?base ?sz" bs "[0..<len]" m] bs by auto
  have "takes_at (\<lambda>f. on_success (load_elems (load_elem n fl ?base ?sz) [0..<len] m f) (load_fields n version [] a)) (bs @ []) vs (0, m')" for vs
  proof (rule takes_at_success)
    show "takes_at (load_fields n version [] a m') [] vs (0, m')" by (simp add: takes_at_def)
  qed (use takes_at [OF m'] in simp)
  then have "takes (load_fields n version [fl] a m) bs (0, m')" unfolding load [abs_def] by (simp add: takes_def takes_at_def)
  then show "\<exists>m'. takes (load_fields n version [fl] a m) bs (0, m')" by blast
qed

text \<open>The queue of \<open>hw/syborg_keyboard.c\<close>, three words long: four bytes are saved and twelve loaded.\<close>

definition key_fifo_field :: "FILE VMStateField" where
  "key_fifo_field = VMStateField 8 4 0 0 0 0 (Some vmstate_info_uint32) (VMS_VARRAY_UINT32 OR VMS_POINTER) None 1 None"

theorem varray_uint32_truncated_witness:
  "\<exists>bs. length bs = 4 \<and> saves (save_fields 1 [key_fifo_field] 0) (\<lambda>x. if x = 0 then 3 else 0) bs \<and>
   (\<exists>m'. takes (load_fields 1 1 [key_fifo_field] 0 (\<lambda>x. if x = 0 then 3 else 0)) [1, 2, 3, 4, 5, 6, 7, 8, 9, 10, 11, 12] (0, m'))"
proof -
  let ?m = "\<lambda>x. if x = 0 then 3 else 0 :: u8"
  have "has key_fifo_field VMS_VARRAY_UINT32" "\<not> has key_fifo_field VMS_ARRAY" "\<not> has key_fifo_field VMS_VARRAY_INT32"
    "\<not> has key_fifo_field VMS_VARRAY_UINT16" "\<not> has key_fifo_field VMS_VARRAY_UINT8" "\<not> has key_fifo_field VMS_STRUCT"
    "exists_save key_fifo_field 0 1 ?m" "exists_load key_fifo_field 0 1 ?m"
    "3 = nat (sint (ucast (load_le 4 (0 + fl_num_offset key_fifo_field) ?m) :: u32))" by code_simp+
  from varray_uint32_truncated [OF this(1-5,7-9), of _ _ 1 _ vmstate_info_uint32 4] this(6) show ?thesis
    by (auto simp: key_fifo_field_def number_kinds_def)
qed

lemma subsections_unknown:
  assumes "like_subsection nm rest" "vmstate_get_subsection subs (c_string (take (unat (rest ! 1)) (drop 2 rest))) = None"
  shows "takes_at (vmstate_subsection_load n (Suc k) nm subs a m) [] rest (- 2, m)"
  unfolding takes_at_def
proof (intro allI impI)
  fix f :: "FILE QEMUFile"
  assume f: "reading file_get_buffer contents (\<lambda>_ _. True) f" "remaining contents f = [] @ rest"
  have like: "rest \<noteq> []" "hd rest = QEMU_VM_SUBSECTION" "1 < length rest" "length nm + 1 \<le> unat (rest ! 1)"
      "length (take (unat (rest ! 1)) (drop 2 rest)) = unat (rest ! 1)" "take (length nm) (c_string (take (unat (rest ! 1)) (drop 2 rest))) = nm"
    using assms(1) by (auto simp: like_subsection_def Let_def split: if_splits)
  obtain g where g: "qemu_peek_byte 0 f = Inr (QEMU_VM_SUBSECTION, g)" "reading file_get_buffer contents (\<lambda>_ _. True) g" "remaining contents g = rest"
    using peeks(1) [OF f(1), of 0] f(2) like(1,2) by (auto simp: hd_conv_nth)
  obtain h where h: "qemu_peek_byte 1 g = Inr (rest ! 1, h)" "reading file_get_buffer contents (\<lambda>_ _. True) h" "remaining contents h = rest"
    using peeks(1) [OF g(2), of 1] g(3) like(3) by auto
  have "unat (rest ! 1) < 256" using unsigned_less [of "rest ! 1"] by simp
  then obtain i where i: "qemu_peek_buffer (unat (rest ! 1)) 2 h = Inr (take (unat (rest ! 1)) (drop 2 rest), i)"
      "reading file_get_buffer contents (\<lambda>_ _. True) i" "remaining contents i = rest"
    using peeks(2) [OF h(2), of "unat (rest ! 1)"] h(3) by auto
  have "vmstate_subsection_load n (Suc k) nm subs a m f = Inr ((- 2, m), i)"
    using g(1) h(1) i(1) like(4-6) assms(2) by simp
  then show "\<exists>g. vmstate_subsection_load n (Suc k) nm subs a m f = Inr ((- 2, m), g) \<and> reading file_get_buffer contents (\<lambda>_ _. True) g \<and>
      remaining contents g = rest"
    using i by blast
qed

text \<open>
  C37: data may be taken for a subsection: after the fields of a structure without subsections and without
  a hook before loading, if the bytes of the fields behind it look like the header of one, the load fails with \<open>ENOENT\<close>, though
  the file is what was saved.
\<close>

theorem data_taken_for_subsection:
  fixes v :: "FILE VMStateDescription"
  assumes "restore (plan_fields (vm_version_id v) (fields v) a m) rest m' = Some m''" "length (images (plan_fields (vm_version_id v) (fields v) a m)) < n"
    "minimum_version_id v \<le> vm_version_id v" "minimum_version_id_old v \<le> vm_version_id v" "pre_load v = None" "subsections v = []"
    "like_subsection (vm_name v) rest"
  shows "takes_at (vmstate_load_state n v a (vm_version_id v) m') (images (plan_fields (vm_version_id v) (fields v) a m)) rest (- 2, m'')"
proof -
  let ?q = "\<lambda>(ret, m) f. if ret \<noteq> 0 then Inr ((ret, m), f)
      else case post_load v of None \<Rightarrow> Inr ((0, m), f) | Some h \<Rightarrow> Inr (h a (vm_version_id v) m, f)"
  obtain k where "n = Suc k" using assms(2) by (cases n) simp_all
  then have "takes_at (\<lambda>f. bindE (vmstate_subsection_load n n (vm_name v) [] a m'' f) (\<lambda>(x, f). ?q x f)) ([] @ []) rest (- 2, m'')"
    using subsections_unknown [OF assms(7), of "[]"] by (intro takes_at_bind [where q = ?q and x = "(- 2, m'')"]) (simp_all add: takes_at_Inr del: vmstate_subsection_load.simps)
  then have "takes_at (\<lambda>f. on_success (load_fields n (vm_version_id v) (fields v) a m' f) (\<lambda>m f.
      bindE (vmstate_subsection_load n n (vm_name v) [] a m f) (\<lambda>(x, f). ?q x f))) (images (plan_fields (vm_version_id v) (fields v) a m) @ []) rest (- 2, m'')"
    using load_restores_plan(2) [OF assms(1,2)] by (intro takes_at_success) simp_all
  moreover have "vmstate_load_state n v a (vm_version_id v) m' = (\<lambda>f. on_success (load_fields n (vm_version_id v) (fields v) a m' f) (\<lambda>m f.
      bindE (vmstate_subsection_load n n (vm_name v) [] a m f) (\<lambda>(x, f). ?q x f)))"
    using assms(3-6) by (intro ext) (simp add: vmstate_load_state.simps case_prod_beta' del: vmstate_subsection_load.simps)
  ultimately show ?thesis by simp
qed

theorem data_taken_for_subsection_witness:
  "\<exists>m''. takes_at (vmstate_load_state 3 (plain_vmsd [101] [plain_field 0 2 vmstate_info_int16] []) 4096 1 (\<lambda>x. 0)) [17, 16] [5, 2, 101, 47] (- 2, m'')"
proof -
  let ?v = "plain_vmsd [101] [plain_field 0 2 vmstate_info_int16] [] :: FILE VMStateDescription" and ?m = "store_at 4096 [16, 17] (\<lambda>x. 0)"
  have image: "images (plan_fields (vm_version_id ?v) (fields ?v) 4096 ?m) = [17, 16]" by code_simp
  have "restore (plan_fields (vm_version_id ?v) (fields ?v) 4096 ?m) [5, 2, 101, 47] (\<lambda>x. 0) \<noteq> None" by code_simp
  then obtain m'' where "restore (plan_fields (vm_version_id ?v) (fields ?v) 4096 ?m) [5, 2, 101, 47] (\<lambda>x. 0) = Some m''" by blast
  moreover have "like_subsection [101] [5, 2, 101, 47]" by code_simp
  ultimately show ?thesis using data_taken_for_subsection [of ?v 4096 ?m "[5, 2, 101, 47]" "\<lambda>x. 0" m'' 3]
    unfolding image by (auto simp: plain_vmsd_def)
qed

text \<open>
  Looking ahead past the end of the file sets its error, although nothing is missing: here one byte
  is left, which is not the head of a subsection.
\<close>

theorem look_ahead_past_end:
  "(case vmstate_subsection_load 1 1 [101] [] a m (qemu_fopen_ops \<lparr>contents = [5], fpos = 0\<rparr> None (Some file_get_buffer)) of
      Inl e \<Rightarrow> False
    | Inr ((ret, m'), f) \<Rightarrow> ret = 0 \<and> m' = m \<and> last_error f = - 5)"
  by (simp add: qemu_peek_byte_def qemu_fopen_ops_def qemu_fill_buffer_def file_get_buffer_def fread_def fseek_set_def store_bytes_def
      IO_BUF_SIZE_def QEMU_VM_SUBSECTION_def Let_def)

end
