(* ===== verification/Savevm.thy ===== *)
theory Savevm
  imports Vmstate_Restore
begin

text \<open>
  Saving and loading the machine (\<open>savevm.c\<close>): the list of the parts of the machine that register to
  be saved, the stages of saving, and loading a file section by section. The functions of a part
  that does not use a description, and the function \<open>save_live_state\<close>, are HOL functions on the
  file and on host memory. What the monitor prints, and the synchronisation with KVM, are left
  out.
\<close>

section \<open>Registration\<close>

record CompatEntry =
  ce_idstr :: cstring
  ce_instance_id :: int

record 'b SaveStateEntry =
  idstr :: cstring
  instance_id :: int
  alias_id :: int
  version_id :: int
  section_id :: int
  set_params :: "(int \<Rightarrow> int \<Rightarrow> u64 \<Rightarrow> hostmem \<Rightarrow> hostmem) option"
  save_live_state :: "(int \<Rightarrow> u64 \<Rightarrow> 'b QEMUFile \<times> hostmem \<Rightarrow> (int \<times> 'b QEMUFile \<times> hostmem) res) option"
  save_state :: "(u64 \<Rightarrow> 'b QEMUFile \<times> hostmem \<Rightarrow> ('b QEMUFile \<times> hostmem) res) option"
  load_state :: "(u64 \<Rightarrow> int \<Rightarrow> hostmem \<Rightarrow> 'b loader) option"
  se_vmsd :: "'b VMStateDescription option"
  se_opaque :: u64
  compat :: "CompatEntry option"
  no_migrate :: bool

record 'b savevm =
  savevm_handlers :: "'b SaveStateEntry list"
  global_section_id :: int

text \<open>Strings in arrays of a given size, cut off where they do not fit.\<close>

definition pstrcpy :: "nat \<Rightarrow> cstring \<Rightarrow> cstring" where
  "pstrcpy n str = take (n - 1) str"

definition pstrcat :: "nat \<Rightarrow> cstring \<Rightarrow> cstring \<Rightarrow> cstring" where
  "pstrcat n cs s = (if length cs < n then cs @ pstrcpy (n - length cs) s else cs)"

definition calculate_new_instance_id :: "'b SaveStateEntry list \<Rightarrow> cstring \<Rightarrow> int" where
  "calculate_new_instance_id hs nm =
     foldl (\<lambda>i se. if nm = idstr se \<and> i \<le> instance_id se then int32 (instance_id se + 1) else i) 0 hs"

definition calculate_compat_instance_id :: "'b SaveStateEntry list \<Rightarrow> cstring \<Rightarrow> int" where
  "calculate_compat_instance_id hs nm =
     foldl (\<lambda>i se. case compat se of None \<Rightarrow> i
       | Some c \<Rightarrow> if nm = ce_idstr c \<and> i \<le> ce_instance_id c then int32 (ce_instance_id c + 1) else i) 0 hs"

text \<open>
  The part that \<open>register_savevm_live\<close> and \<open>vmstate_register_with_alias_id\<close> share: the path of the
  device, if it has one, goes in front of the name, and an entry under the plain name is kept for
  streams of older versions.
\<close>

definition register_entry ::
  "cstring option \<Rightarrow> cstring \<Rightarrow> int \<Rightarrow> 'b SaveStateEntry \<Rightarrow> 'b savevm \<Rightarrow> 'b savevm res" where
  "register_entry path nm inst se s =
     (let hs = savevm_handlers s;
          se = se\<lparr>section_id := global_section_id s\<rparr>;
          (se, inst) =
            (case path of
               None \<Rightarrow> (se\<lparr>idstr := []\<rparr>, inst)
             | Some p \<Rightarrow>
                 (se\<lparr>idstr := pstrcat 256 (pstrcpy 256 p) [47],
                     compat := Some \<lparr>ce_idstr = pstrcpy 256 nm,
                       ce_instance_id = (if inst = - 1 then calculate_compat_instance_id hs nm else inst)\<rparr>\<rparr>, - 1));
          se = se\<lparr>idstr := pstrcat 256 (idstr se) nm\<rparr>;
          se = se\<lparr>instance_id := (if inst = - 1 then calculate_new_instance_id hs (idstr se) else inst)\<rparr>
      in if compat se \<noteq> None \<and> instance_id se \<noteq> 0 then Inl (aborted ''register_savevm'')
         else Inr (s\<lparr>savevm_handlers := hs @ [se], global_section_id := int32 (global_section_id s + 1)\<rparr>))"

definition register_savevm_live ::
  "cstring option \<Rightarrow> cstring \<Rightarrow> int \<Rightarrow> int \<Rightarrow> (int \<Rightarrow> int \<Rightarrow> u64 \<Rightarrow> hostmem \<Rightarrow> hostmem) option \<Rightarrow>
   (int \<Rightarrow> u64 \<Rightarrow> 'b QEMUFile \<times> hostmem \<Rightarrow> (int \<times> 'b QEMUFile \<times> hostmem) res) option \<Rightarrow>
   (u64 \<Rightarrow> 'b QEMUFile \<times> hostmem \<Rightarrow> ('b QEMUFile \<times> hostmem) res) option \<Rightarrow>
   (u64 \<Rightarrow> int \<Rightarrow> hostmem \<Rightarrow> 'b loader) option \<Rightarrow> u64 \<Rightarrow> 'b savevm \<Rightarrow> 'b savevm res" where
  "register_savevm_live path nm inst ver params live save load opq =
     register_entry path nm inst
       \<lparr>idstr = [], instance_id = 0, alias_id = 0, version_id = ver, section_id = 0, set_params = params, save_live_state = live,
        save_state = save, load_state = load, se_vmsd = None, se_opaque = opq, compat = None, no_migrate = False\<rparr>"

definition register_savevm ::
  "cstring option \<Rightarrow> cstring \<Rightarrow> int \<Rightarrow> int \<Rightarrow> (u64 \<Rightarrow> 'b QEMUFile \<times> hostmem \<Rightarrow> ('b QEMUFile \<times> hostmem) res) option \<Rightarrow>
   (u64 \<Rightarrow> int \<Rightarrow> hostmem \<Rightarrow> 'b loader) option \<Rightarrow> u64 \<Rightarrow> 'b savevm \<Rightarrow> 'b savevm res" where
  "register_savevm path nm inst ver save load opq = register_savevm_live path nm inst ver None None save load opq"

definition unregister_savevm :: "cstring option \<Rightarrow> cstring \<Rightarrow> u64 \<Rightarrow> 'b savevm \<Rightarrow> 'b savevm" where
  "unregister_savevm path nm opq s =
     (let id = pstrcat 256 (case path of None \<Rightarrow> [] | Some p \<Rightarrow> pstrcat 256 (pstrcpy 256 p) [47]) nm
      in s\<lparr>savevm_handlers := filter (\<lambda>se. \<not> (idstr se = id \<and> se_opaque se = opq)) (savevm_handlers s)\<rparr>)"

definition vmstate_register_with_alias_id ::
  "cstring option \<Rightarrow> int \<Rightarrow> 'b VMStateDescription \<Rightarrow> u64 \<Rightarrow> int \<Rightarrow> int \<Rightarrow> 'b savevm \<Rightarrow> 'b savevm res" where
  "vmstate_register_with_alias_id path inst v opq ali required s =
     (if ali \<noteq> - 1 \<and> required < minimum_version_id v then Inl (aborted ''vmstate_register_with_alias_id'')
      else register_entry path (vm_name v) inst
        \<lparr>idstr = [], instance_id = 0, alias_id = ali, version_id = vm_version_id v, section_id = 0, set_params = None,
         save_live_state = None, save_state = None, load_state = None, se_vmsd = Some v, se_opaque = opq, compat = None,
         no_migrate = unmigratable v\<rparr> s)"

definition vmstate_register ::
  "cstring option \<Rightarrow> int \<Rightarrow> 'b VMStateDescription \<Rightarrow> u64 \<Rightarrow> 'b savevm \<Rightarrow> 'b savevm res" where
  "vmstate_register path inst v opq = vmstate_register_with_alias_id path inst v opq (- 1) 0"

section \<open>Saving\<close>

definition QEMU_VM_FILE_MAGIC :: u32 where "QEMU_VM_FILE_MAGIC = 0x5145564d"
definition QEMU_VM_FILE_VERSION_COMPAT :: u32 where "QEMU_VM_FILE_VERSION_COMPAT = 2"
definition QEMU_VM_FILE_VERSION :: u32 where "QEMU_VM_FILE_VERSION = 3"
definition QEMU_VM_EOF :: u8 where "QEMU_VM_EOF = 0"
definition QEMU_VM_SECTION_START :: u8 where "QEMU_VM_SECTION_START = 1"
definition QEMU_VM_SECTION_PART :: u8 where "QEMU_VM_SECTION_PART = 2"
definition QEMU_VM_SECTION_END :: u8 where "QEMU_VM_SECTION_END = 3"
definition QEMU_VM_SECTION_FULL :: u8 where "QEMU_VM_SECTION_FULL = 4"

definition vmstate_save :: "'b SaveStateEntry \<Rightarrow> 'b QEMUFile \<times> hostmem \<Rightarrow> ('b QEMUFile \<times> hostmem) res" where
  "vmstate_save se s =
     (case se_vmsd se of
        None \<Rightarrow> (case save_state se of None \<Rightarrow> Inl (out_of_bounds ''save_state'') | Some h \<Rightarrow> h (se_opaque se) s)
      | Some v \<Rightarrow> vmstate_save_state v (se_opaque se) s)"

definition qemu_savevm_state_blocked :: "'b SaveStateEntry list \<Rightarrow> bool" where
  "qemu_savevm_state_blocked hs = list_ex no_migrate hs"

text \<open>The head of a section, with the type of the section.\<close>

definition put_section_id :: "u8 \<Rightarrow> 'b SaveStateEntry \<Rightarrow> 'b QEMUFile \<Rightarrow> 'b QEMUFile res" where
  "put_section_id ty se f = bindE (qemu_put_byte ty f) (qemu_put_be32 (word_of_int (section_id se)))"

definition put_section_header :: "u8 \<Rightarrow> 'b SaveStateEntry \<Rightarrow> 'b QEMUFile \<Rightarrow> 'b QEMUFile res" where
  "put_section_header ty se f =
     (let len = length (idstr se)
      in bindE (put_section_id ty se f) (\<lambda>f.
         bindE (qemu_put_byte (word_of_nat len) f) (\<lambda>f.
         bindE (qemu_put_buffer (len + 1) (idstr se) f) (\<lambda>f.
         bindE (qemu_put_be32 (word_of_int (instance_id se)) f)
           (qemu_put_be32 (word_of_int (version_id se)))))))"

fun qemu_savevm_state_cancel :: "'b SaveStateEntry list \<Rightarrow> 'b QEMUFile \<times> hostmem \<Rightarrow> ('b QEMUFile \<times> hostmem) res" where
  "qemu_savevm_state_cancel [] s = Inr s"
| "qemu_savevm_state_cancel (se # hs) s =
     (case save_live_state se of
        None \<Rightarrow> qemu_savevm_state_cancel hs s
      | Some live \<Rightarrow> bindE (live (- 1) (se_opaque se) s) (\<lambda>(ret, s). qemu_savevm_state_cancel hs s))"

text \<open>
  A stage calls \<open>save_live_state\<close> of every entry that has one, in order, with the head of a
  section in front, and stops after the first result that the condition names.
\<close>

fun live_stage ::
  "u8 \<Rightarrow> (int \<Rightarrow> bool) \<Rightarrow> ('b SaveStateEntry \<Rightarrow> 'b QEMUFile \<Rightarrow> 'b QEMUFile res) \<Rightarrow> 'b SaveStateEntry list \<Rightarrow> int \<Rightarrow>
   'b QEMUFile \<times> hostmem \<Rightarrow> (int \<times> 'b QEMUFile \<times> hostmem) res" where
  "live_stage stage stop head [] ret s = Inr (ret, s)"
| "live_stage stage stop head (se # hs) ret (f, m) =
     (case save_live_state se of
        None \<Rightarrow> live_stage stage stop head hs ret (f, m)
      | Some live \<Rightarrow>
          bindE (head se f) (\<lambda>f. bindE (live (uint stage) (se_opaque se) (f, m)) (\<lambda>(ret, s).
            if stop ret then Inr (ret, s) else live_stage stage stop head hs ret s)))"

definition cancel_on_error :: "'b SaveStateEntry list \<Rightarrow> int \<times> 'b QEMUFile \<times> hostmem \<Rightarrow> (int \<times> 'b QEMUFile \<times> hostmem) res" where
  "cancel_on_error hs = (\<lambda>(ret, s).
     if ret \<noteq> 0 then bindE (qemu_savevm_state_cancel hs s) (\<lambda>s. Inr (ret, s)) else Inr (ret, s))"

definition qemu_savevm_state_begin ::
  "'b SaveStateEntry list \<Rightarrow> int \<Rightarrow> int \<Rightarrow> 'b QEMUFile \<times> hostmem \<Rightarrow> (int \<times> 'b QEMUFile \<times> hostmem) res" where
  "qemu_savevm_state_begin hs blk_enable shared = (\<lambda>(f, m).
     let m = foldl (\<lambda>m se. case set_params se of None \<Rightarrow> m | Some h \<Rightarrow> h blk_enable shared (se_opaque se) m) m hs
     in bindE (qemu_put_be32 QEMU_VM_FILE_MAGIC f) (\<lambda>f. bindE (qemu_put_be32 QEMU_VM_FILE_VERSION f) (\<lambda>f.
        bindE (live_stage QEMU_VM_SECTION_START (\<lambda>ret. ret < 0) (put_section_header QEMU_VM_SECTION_START) hs 0 (f, m)) (\<lambda>(ret, f, m).
          if ret < 0 then bindE (qemu_savevm_state_cancel hs (f, m)) (\<lambda>s. Inr (ret, s))
          else cancel_on_error hs (last_error f, f, m)))))"

definition qemu_savevm_state_iterate ::
  "'b SaveStateEntry list \<Rightarrow> 'b QEMUFile \<times> hostmem \<Rightarrow> (int \<times> 'b QEMUFile \<times> hostmem) res" where
  "qemu_savevm_state_iterate hs s =
     bindE (live_stage QEMU_VM_SECTION_PART (\<lambda>ret. ret \<le> 0) (put_section_id QEMU_VM_SECTION_PART) hs 1 s) (\<lambda>(ret, f, m).
       if ret \<noteq> 0 then Inr (ret, f, m) else cancel_on_error hs (last_error f, f, m))"

fun full_stage :: "'b SaveStateEntry list \<Rightarrow> 'b QEMUFile \<times> hostmem \<Rightarrow> ('b QEMUFile \<times> hostmem) res" where
  "full_stage [] s = Inr s"
| "full_stage (se # hs) (f, m) =
     (if Option.is_none (save_state se) \<and> Option.is_none (se_vmsd se) then full_stage hs (f, m)
      else bindE (put_section_header QEMU_VM_SECTION_FULL se f) (\<lambda>f. bindE (vmstate_save se (f, m)) (full_stage hs)))"

definition qemu_savevm_state_complete ::
  "'b SaveStateEntry list \<Rightarrow> 'b QEMUFile \<times> hostmem \<Rightarrow> (int \<times> 'b QEMUFile \<times> hostmem) res" where
  "qemu_savevm_state_complete hs s =
     bindE (live_stage QEMU_VM_SECTION_END (\<lambda>ret. ret < 0) (put_section_id QEMU_VM_SECTION_END) hs 0 s) (\<lambda>(ret, s).
       if ret < 0 then Inr (ret, s)
       else bindE (full_stage hs s) (\<lambda>(f, m). bindE (qemu_put_byte QEMU_VM_EOF f) (\<lambda>f. Inr (last_error f, f, m))))"

text \<open>The loop of \<open>qemu_savevm_state\<close> goes on as long as the live parts have more to send.\<close>

fun iterate_loop :: "nat \<Rightarrow> 'b SaveStateEntry list \<Rightarrow> 'b QEMUFile \<times> hostmem \<Rightarrow> (int \<times> 'b QEMUFile \<times> hostmem) res" where
  "iterate_loop 0 hs s = Inl (no_termination ''qemu_savevm_state'')"
| "iterate_loop (Suc n) hs s =
     bindE (qemu_savevm_state_iterate hs s) (\<lambda>(ret, s). if ret = 0 then iterate_loop n hs s else Inr (ret, s))"

definition qemu_savevm_state :: "nat \<Rightarrow> 'b savevm \<Rightarrow> 'b QEMUFile \<times> hostmem \<Rightarrow> (int \<times> 'b QEMUFile \<times> hostmem) res" where
  "qemu_savevm_state n vm s =
     (let hs = savevm_handlers vm
      in if qemu_savevm_state_blocked hs then Inr (- 22, s)
         else bindE (qemu_savevm_state_begin hs 0 0 s) (\<lambda>(ret, s).
           bindE
             (if ret < 0 then Inr (ret, s)
              else bindE (iterate_loop n hs s) (\<lambda>(ret, s). if ret < 0 then Inr (ret, s) else qemu_savevm_state_complete hs s))
             (\<lambda>(ret, f, m). Inr (if ret = 0 then last_error f else ret, f, m))))"

section \<open>Loading\<close>

definition vmstate_load :: "nat \<Rightarrow> 'b SaveStateEntry \<Rightarrow> int \<Rightarrow> hostmem \<Rightarrow> 'b loader" where
  "vmstate_load n se ver m f =
     (case se_vmsd se of
        None \<Rightarrow> (case load_state se of None \<Rightarrow> Inl (out_of_bounds ''load_state'') | Some h \<Rightarrow> h (se_opaque se) ver m f)
      | Some v \<Rightarrow> vmstate_load_state n v (se_opaque se) ver m f)"

definition strstr :: "cstring \<Rightarrow> cstring \<Rightarrow> bool" where
  "strstr s t = list_ex (\<lambda>i. take (length t) (drop i s) = t) [0..<length s + 1]"

definition answers :: "cstring \<Rightarrow> int \<Rightarrow> 'b SaveStateEntry \<Rightarrow> bool" where
  "answers nm inst se \<longleftrightarrow>
     idstr se = nm \<and> (inst = instance_id se \<or> inst = alias_id se) \<or>
     (case compat se of
        None \<Rightarrow> False
      | Some c \<Rightarrow> strstr (idstr se) nm \<and> ce_idstr c = nm \<and> (inst = ce_instance_id c \<or> inst = alias_id se))"

definition find_se :: "'b SaveStateEntry list \<Rightarrow> cstring \<Rightarrow> int \<Rightarrow> 'b SaveStateEntry option" where
  "find_se hs nm inst = List.find (answers nm inst) hs"

text \<open>
  An entry of \<open>loadvm_handlers\<close> is the part, the number of its section and its version. When the file
  ends inside of a name, the name is what was read of it. The first number bounds the sections,
  the second is that of \<open>vmstate_load_state\<close>.
\<close>

type_synonym 'b LoadStateEntry = "'b SaveStateEntry \<times> u32 \<times> int"

fun load_sections :: "nat \<Rightarrow> nat \<Rightarrow> 'b SaveStateEntry list \<Rightarrow> 'b LoadStateEntry list \<Rightarrow> hostmem \<Rightarrow> 'b loader" where
  "load_sections 0 n hs les m f = Inl (no_termination ''qemu_loadvm_state'')"
| "load_sections (Suc k) n hs les m f =
     bindE (qemu_get_byte f) (\<lambda>(ty, f).
     if ty = QEMU_VM_EOF then Inr ((0, m), f)
     else if ty = QEMU_VM_SECTION_START \<or> ty = QEMU_VM_SECTION_FULL then
       bindE (qemu_get_be32 f) (\<lambda>(sid, f).
       bindE (qemu_get_byte f) (\<lambda>(len, f).
       bindE (qemu_get_buffer (unat len) f) (\<lambda>(bs, f).
       bindE (qemu_get_be32 f) (\<lambda>(inst, f).
       bindE (qemu_get_be32 f) (\<lambda>(ver, f).
       case find_se hs (c_string bs) (sint inst) of
         None \<Rightarrow> Inr ((- 22, m), f)
       | Some se \<Rightarrow>
           if word_of_int (version_id se) < ver then Inr ((- 22, m), f)
           else on_success (vmstate_load n se (sint ver) m f) (load_sections k n hs ((se, sid, sint ver) # les)))))))
     else if ty = QEMU_VM_SECTION_PART \<or> ty = QEMU_VM_SECTION_END then
       bindE (qemu_get_be32 f) (\<lambda>(sid, f).
       case List.find (\<lambda>(se, i, ver). i = sid) les of
         None \<Rightarrow> Inr ((- 22, m), f)
       | Some (se, i, ver) \<Rightarrow> on_success (vmstate_load n se ver m f) (load_sections k n hs les))
     else Inr ((- 22, m), f))"

definition qemu_loadvm_state :: "nat \<Rightarrow> nat \<Rightarrow> 'b savevm \<Rightarrow> hostmem \<Rightarrow> 'b loader" where
  "qemu_loadvm_state k n vm m f =
     (if qemu_savevm_state_blocked (savevm_handlers vm) then Inr ((- 22, m), f)
      else bindE (qemu_get_be32 f) (\<lambda>(v, f).
        if v \<noteq> QEMU_VM_FILE_MAGIC then Inr ((- 22, m), f)
        else bindE (qemu_get_be32 f) (\<lambda>(v, f).
          if v = QEMU_VM_FILE_VERSION_COMPAT \<or> v \<noteq> QEMU_VM_FILE_VERSION then Inr ((- 95, m), f)
          else bindE (load_sections k n (savevm_handlers vm) [] m f) (\<lambda>((ret, m), f).
            Inr ((if ret = 0 then last_error f else ret, m), f)))))"

section \<open>A snapshot\<close>

text \<open>
  The steps of a machine all of whose parts have descriptions: the sections one after another, each
  with its head, and the end of the file. The memory is the one that \<open>pre_save\<close> has left.
\<close>

definition section_header :: "'b SaveStateEntry \<Rightarrow> u8 list" where
  "section_header se =
     [QEMU_VM_SECTION_FULL] @ bytes_be32 (word_of_int (section_id se)) @ [word_of_nat (length (idstr se))] @ idstr se @
     bytes_be32 (word_of_int (instance_id se)) @ bytes_be32 (word_of_int (version_id se))"

fun plan_machine :: "'b SaveStateEntry list \<Rightarrow> hostmem \<Rightarrow> step list" where
  "plan_machine [] m = [Fixed [QEMU_VM_EOF]]"
| "plan_machine (se # hs) m =
     (case se_vmsd se of
        None \<Rightarrow> [Bad]
      | Some v \<Rightarrow>
          Fixed (section_header se) # plan_state v (se_opaque se) (pre_saved v (se_opaque se) m) @
          plan_machine hs (pre_saved v (se_opaque se) m))"

fun machine_saved :: "'b SaveStateEntry list \<Rightarrow> hostmem \<Rightarrow> hostmem" where
  "machine_saved [] m = m"
| "machine_saved (se # hs) m =
     machine_saved hs (case se_vmsd se of None \<Rightarrow> m | Some v \<Rightarrow> pre_saved v (se_opaque se) m)"

text \<open>What is asked of an entry, and of the list: no entry answers for a later one.\<close>

definition entry_ok :: "'b SaveStateEntry \<Rightarrow> bool" where
  "entry_ok se \<longleftrightarrow>
     Option.is_none (save_live_state se) \<and> Option.is_none (set_params se) \<and> \<not> no_migrate se \<and>
     length (idstr se) < 256 \<and> \<not> List.member (idstr se) 0 \<and> int32 (instance_id se) = instance_id se \<and>
     (case se_vmsd se of None \<Rightarrow> False | Some v \<Rightarrow> version_id se = vm_version_id v \<and> int32 (version_id se) = version_id se)"

fun unambiguous :: "'b SaveStateEntry list \<Rightarrow> bool" where
  "unambiguous [] \<longleftrightarrow> True"
| "unambiguous (se # hs) \<longleftrightarrow> list_all (\<lambda>x. \<not> answers (idstr x) (instance_id x) se) hs \<and> unambiguous hs"

lemma find_self: "unambiguous hs \<Longrightarrow> se \<in> set hs \<Longrightarrow> find_se hs (idstr se) (instance_id se) = Some se"
proof (induction hs)
  case (Cons h hs)
  have "answers (idstr se) (instance_id se) se" by (simp add: answers_def)
  then show ?case using Cons by (auto simp: find_se_def list_all_iff)
qed simp

lemma sint_int32: "sint (word_of_int x :: u32) = int32 x"
  by (simp add: int32_def)

subsection \<open>Saving\<close>

lemma section_header_appends:
  "length (idstr se) < 256 \<Longrightarrow> appends (put_section_header QEMU_VM_SECTION_FULL se) (section_header se)"
proof -
  have id: "appends (put_section_id QEMU_VM_SECTION_FULL se) ([QEMU_VM_SECTION_FULL] @ bytes_be32 (word_of_int (section_id se)))"
    unfolding put_section_id_def [abs_def] by (intro appends_bind appends_byte appends_be32)
  have "section_header se = ([QEMU_VM_SECTION_FULL] @ bytes_be32 (word_of_int (section_id se))) @ [word_of_nat (length (idstr se))] @ idstr se @
     bytes_be32 (word_of_int (instance_id se)) @ bytes_be32 (word_of_int (version_id se))" by (simp add: section_header_def)
  then show ?thesis unfolding put_section_header_def [abs_def] Let_def
    by (simp only:) (intro appends_bind id appends_byte appends_buffer appends_be32, simp)
qed

lemma full_stage_writes:
  fixes hs :: "FILE SaveStateEntry list"
  assumes "Bad \<notin> set (plan_machine hs m)" "list_all entry_ok hs" "writing file_put_buffer contents (\<lambda>_. True) f"
  shows "\<exists>g. bindE (full_stage hs (f, m)) (\<lambda>(f, m). bindE (qemu_put_byte QEMU_VM_EOF f) (\<lambda>f. Inr (f, m))) = Inr (g, machine_saved hs m) \<and>
    writing file_put_buffer contents (\<lambda>_. True) g \<and> written contents g = written contents f @ images (plan_machine hs m)"
  using assms
proof (induction hs arbitrary: m f)
  case Nil
  then show ?case using appends_byte [of QEMU_VM_EOF] unfolding appends_def by fastforce
next
  case (Cons se hs)
  obtain v where v: "se_vmsd se = Some v" using Cons.prems(2) by (auto simp: entry_ok_def split: option.splits)
  let ?m = "pre_saved v (se_opaque se) m"
  have len: "length (idstr se) < 256" using Cons.prems(2) by (simp add: entry_ok_def)
  obtain g where g: "put_section_header QEMU_VM_SECTION_FULL se f = Inr g" "writing file_put_buffer contents (\<lambda>_. True) g"
      "written contents g = written contents f @ section_header se"
    using section_header_appends [OF len] Cons.prems(3) unfolding appends_def by blast
  obtain h where h: "vmstate_save_state v (se_opaque se) (g, m) = Inr (h, ?m)" "writing file_put_buffer contents (\<lambda>_. True) h"
      "written contents h = written contents g @ images (plan_state v (se_opaque se) ?m)"
    using save_state_writes [of v "se_opaque se" m g] Cons.prems(1) v g(2) by auto
  have "full_stage (se # hs) (f, m) = full_stage hs (h, ?m)" using v g(1) h(1) by (simp add: vmstate_save_def)
  then show ?case using Cons.IH [of ?m h] Cons.prems v g(3) h(2,3) by simp
qed

lemma no_live: "list_all entry_ok hs \<Longrightarrow> live_stage ty stop head hs ret s = Inr (ret, s)"
  by (induction ty stop head hs ret s rule: live_stage.induct) (auto simp: entry_ok_def Option.is_none_def)

lemma no_params:
  "list_all entry_ok hs \<Longrightarrow> foldl (\<lambda>m se. case set_params se of None \<Rightarrow> m | Some h \<Rightarrow> h blk shared (se_opaque se) m) m hs = m"
  by (induction hs) (auto simp: entry_ok_def Option.is_none_def)

lemma savevm_writes:
  fixes vm :: "FILE savevm"
  assumes "Bad \<notin> set (plan_machine (savevm_handlers vm) m)" "list_all entry_ok (savevm_handlers vm)"
    "writing file_put_buffer contents (\<lambda>_. True) f" "0 < n"
  shows "\<exists>g. qemu_savevm_state n vm (f, m) = Inr (0, g, machine_saved (savevm_handlers vm) m) \<and>
    writing file_put_buffer contents (\<lambda>_. True) g \<and>
    written contents g = written contents f @ bytes_be32 QEMU_VM_FILE_MAGIC @ bytes_be32 QEMU_VM_FILE_VERSION @
      images (plan_machine (savevm_handlers vm) m)"
proof -
  let ?hs = "savevm_handlers vm"
  obtain k where n: "n = Suc k" using assms(4) by (cases n) simp_all
  have "\<not> qemu_savevm_state_blocked ?hs" using assms(2) by (auto simp: qemu_savevm_state_blocked_def entry_ok_def list_all_iff list_ex_iff)
  moreover have par: "foldl (\<lambda>m se. case set_params se of None \<Rightarrow> m | Some h \<Rightarrow> h 0 0 (se_opaque se) m) m ?hs = m"
    using no_params [OF assms(2)] .
  obtain g where g: "qemu_put_be32 QEMU_VM_FILE_MAGIC f = Inr g" "writing file_put_buffer contents (\<lambda>_. True) g"
      "written contents g = written contents f @ bytes_be32 QEMU_VM_FILE_MAGIC"
    using appends_be32 assms(3) unfolding appends_def by blast
  obtain h where h: "qemu_put_be32 QEMU_VM_FILE_VERSION g = Inr h" "writing file_put_buffer contents (\<lambda>_. True) h"
      "written contents h = written contents g @ bytes_be32 QEMU_VM_FILE_VERSION"
    using appends_be32 g(2) unfolding appends_def by blast
  obtain i where i: "bindE (full_stage ?hs (h, m)) (\<lambda>(f, m). bindE (qemu_put_byte QEMU_VM_EOF f) (\<lambda>f. Inr (f, m))) = Inr (i, machine_saved ?hs m)"
      "writing file_put_buffer contents (\<lambda>_. True) i" "written contents i = written contents h @ images (plan_machine ?hs m)"
    using full_stage_writes [OF assms(1,2) h(2)] by metis
  have e: "last_error h = 0" "last_error i = 0" using h(2) i(2) by (simp_all add: writing_def)
  have "qemu_savevm_state_begin ?hs 0 0 (f, m) = Inr (0, h, m)"
    using g(1) h(1) e(1) par by (simp add: qemu_savevm_state_begin_def no_live [OF assms(2)] cancel_on_error_def)
  moreover have "iterate_loop n ?hs (h, m) = Inr (1, h, m)"
    by (simp add: n qemu_savevm_state_iterate_def no_live [OF assms(2)])
  moreover have "qemu_savevm_state_complete ?hs (h, m) = Inr (0, i, machine_saved ?hs m)"
    using i(1) e(2) by (auto simp: qemu_savevm_state_complete_def no_live [OF assms(2)] bindE_Inr_iff)
  ultimately show ?thesis using g(3) h(3) i(2,3) e(2) by (simp add: qemu_savevm_state_def)
qed

subsection \<open>Loading\<close>

lemma takesE:
  assumes "takes p bs v" "reading file_get_buffer contents (\<lambda>_ _. True) f" "remaining contents f = bs @ vs"
  obtains g where "p f = Inr (v, g)" "reading file_get_buffer contents (\<lambda>_ _. True) g" "remaining contents g = vs"
  using assms unfolding takes_def by blast

lemma section_head_taken:
  fixes hs :: "FILE SaveStateEntry list"
  assumes se: "find_se hs (idstr se) (instance_id se) = Some se" "entry_ok se"
    and f: "reading file_get_buffer contents (\<lambda>_ _. True) f" "remaining contents f = section_header se @ rest"
  shows "\<exists>g. load_sections (Suc k) n hs les m f =
        on_success (vmstate_load n se (version_id se) m g)
          (load_sections k n hs ((se, word_of_int (section_id se), version_id se) # les)) \<and>
      reading file_get_buffer contents (\<lambda>_ _. True) g \<and> remaining contents g = rest"
proof -
  let ?inst = "word_of_int (instance_id se) :: u32" and ?ver = "word_of_int (version_id se) :: u32"
  let ?len = "word_of_nat (length (idstr se)) :: u8" and ?sid = "word_of_int (section_id se) :: u32"
  have ok: "length (idstr se) < 256" "0 \<notin> set (idstr se)" "sint ?inst = instance_id se" "sint ?ver = version_id se"
    using se(2) by (auto simp: entry_ok_def sint_int32 split: option.splits)
  have len: "unat ?len = length (idstr se)" using ok(1) by (simp add: unat_of_nat take_bit_nat_eq_self)
  have id: "c_string (idstr se) = idstr se" using ok(2) by (auto simp: c_string_def takeWhile_eq_all_conv)
  have r: "remaining contents f = [QEMU_VM_SECTION_FULL] @ bytes_be32 ?sid @ [?len] @ idstr se @ bytes_be32 ?inst @ bytes_be32 ?ver @ rest"
    using f(2) by (simp add: section_header_def)
  obtain a where a: "qemu_get_byte f = Inr (QEMU_VM_SECTION_FULL, a)" "reading file_get_buffer contents (\<lambda>_ _. True) a"
      "remaining contents a = bytes_be32 ?sid @ [?len] @ idstr se @ bytes_be32 ?inst @ bytes_be32 ?ver @ rest"
    using takesE [OF takes_byte f(1) r] .
  obtain b where b: "qemu_get_be32 a = Inr (?sid, b)" "reading file_get_buffer contents (\<lambda>_ _. True) b"
      "remaining contents b = [?len] @ idstr se @ bytes_be32 ?inst @ bytes_be32 ?ver @ rest"
    using takesE [OF takes_be32 a(2,3)] .
  obtain c where c: "qemu_get_byte b = Inr (?len, c)" "reading file_get_buffer contents (\<lambda>_ _. True) c"
      "remaining contents c = idstr se @ bytes_be32 ?inst @ bytes_be32 ?ver @ rest"
    using takesE [OF takes_byte b(2,3)] .
  obtain d where d: "qemu_get_buffer (length (idstr se)) c = Inr (idstr se, d)" "reading file_get_buffer contents (\<lambda>_ _. True) d"
      "remaining contents d = bytes_be32 ?inst @ bytes_be32 ?ver @ rest"
    using takesE [OF takes_buffer c(2,3)] .
  obtain e where e: "qemu_get_be32 d = Inr (?inst, e)" "reading file_get_buffer contents (\<lambda>_ _. True) e"
      "remaining contents e = bytes_be32 ?ver @ rest"
    using takesE [OF takes_be32 d(2,3)] .
  obtain g where g: "qemu_get_be32 e = Inr (?ver, g)" "reading file_get_buffer contents (\<lambda>_ _. True) g" "remaining contents g = rest"
    using takesE [OF takes_be32 e(2,3)] .
  have "QEMU_VM_SECTION_FULL \<noteq> QEMU_VM_EOF" by (simp add: QEMU_VM_SECTION_FULL_def QEMU_VM_EOF_def)
  then have "load_sections (Suc k) n hs les m f =
      on_success (vmstate_load n se (version_id se) m g) (load_sections k n hs ((se, ?sid, version_id se) # les))"
    by (simp add: a(1) b(1) c(1) d(1) e(1) g(1) len id ok(3,4) se(1))
  then show ?thesis using g(2,3) by blast
qed

lemma load_sections_restore:
  fixes hs :: "FILE SaveStateEntry list"
  assumes "restore (plan_machine ses m) rest m' = Some m''" "length (images (plan_machine ses m)) < n" "length ses < k"
    "list_all entry_ok ses" "\<And>se. se \<in> set ses \<Longrightarrow> find_se hs (idstr se) (instance_id se) = Some se"
  shows "takes_at (load_sections k n hs les m') (images (plan_machine ses m)) rest (0, m'')"
  using assms
proof (induction ses arbitrary: m m' k les)
  case Nil
  obtain j where "k = Suc j" using Nil.prems(3) by (cases k) simp_all
  then show ?case using Nil takesE [OF takes_byte [of QEMU_VM_EOF]] by (fastforce simp: takes_at_def)
next
  case (Cons se ses)
  obtain v where v: "se_vmsd se = Some v" "version_id se = vm_version_id v" using Cons.prems(4) by (auto simp: entry_ok_def split: option.splits)
  have found: "find_se hs (idstr se) (instance_id se) = Some se" "entry_ok se" using Cons.prems(4,5) by simp_all
  let ?a = "se_opaque se" and ?m = "pre_saved v (se_opaque se) m"
  let ?ps = "plan_state v ?a ?m" and ?pm = "plan_machine ses ?m"
  obtain j where k: "k = Suc j" "length ses < j" using Cons.prems(3) by (cases k) simp_all
  obtain m1 where m1: "restore ?ps (images ?pm @ rest) m' = Some m1" "restore ?pm rest m1 = Some m''"
    using Cons.prems(1) v(1) by (auto simp: restore_append bind_eq_Some_conv)
  have len: "length (images ?ps) < n" "length (images ?pm) < n" using Cons.prems(2) v(1) by simp_all
  have load: "takes_at (vmstate_load n se (version_id se) m') (images ?ps) (images ?pm @ rest) (0, m1)"
    using load_restores_plan(1) [OF m1(1) len(1)] v by (simp add: vmstate_load_def [abs_def])
  let ?les = "(se, word_of_int (section_id se), version_id se) # les"
  have "takes_at (load_sections j n hs ?les m1) (images ?pm) rest (0, m'')"
    using Cons.prems by (intro Cons.IH m1(2) len(2) k(2)) simp_all
  from takes_at_success [where q = "load_sections j n hs ?les", OF load this]
  have all: "takes_at (\<lambda>f. on_success (vmstate_load n se (version_id se) m' f) (load_sections j n hs ?les)) (images ?ps @ images ?pm) rest (0, m'')" .
  show ?case unfolding takes_at_def
  proof (intro allI impI)
    fix f :: "FILE QEMUFile"
    assume f: "reading file_get_buffer contents (\<lambda>_ _. True) f" "remaining contents f = images (plan_machine (se # ses) m) @ rest"
    have "remaining contents f = section_header se @ (images ?ps @ images ?pm) @ rest" using f(2) v(1) by simp
    then obtain g where "load_sections (Suc j) n hs les m' f =
          on_success (vmstate_load n se (version_id se) m' g) (load_sections j n hs ?les)"
        "reading file_get_buffer contents (\<lambda>_ _. True) g" "remaining contents g = (images ?ps @ images ?pm) @ rest"
      using section_head_taken [OF found f(1)] by metis
    then show "\<exists>g. load_sections k n hs les m' f = Inr ((0, m''), g) \<and> reading file_get_buffer contents (\<lambda>_ _. True) g \<and>
        remaining contents g = rest"
      using all k(1) unfolding takes_at_def by auto
  qed
qed

lemma sections_le_images: "Bad \<notin> set (plan_machine hs m) \<Longrightarrow> length hs < length (images (plan_machine hs m))"
  by (induction hs m rule: plan_machine.induct) (fastforce simp: section_header_def split: option.splits)+

text \<open>
  C2: a snapshot restores the machine. When every part of the machine has registered a description,
  under a name and number that no earlier part answers to, and the conditions of \<open>restore\<close> hold (the receiver's memory agrees on what
  the descriptions read from it, no data look like a subsection, nested structures and subsections have no hook before saving), saving the machine succeeds, and loading the file into a machine
  with the same parts finds the part of every section, restores the cells of all descriptions one
  after another, stops at the end of the file, and returns the error of the file, which is set when
  a loader has looked ahead past the end.
\<close>

theorem snapshot_round_trip:
  fixes vm :: "FILE savevm"
  assumes "list_all entry_ok (savevm_handlers vm)" "unambiguous (savevm_handlers vm)"
    "restore (plan_machine (savevm_handlers vm) m) rest m' = Some m''"
  shows "\<exists>g. qemu_savevm_state 1 vm (qemu_fopen_ops new_file (Some file_put_buffer) None, m) = Inr (0, g, machine_saved (savevm_handlers vm) m) \<and>
    (\<forall>fp n. contents fp = contents (back_end (qemu_fflush g)) @ rest \<longrightarrow> length (contents fp) \<le> n \<longrightarrow>
      (\<exists>h. qemu_loadvm_state n n vm m' (qemu_fopen_ops fp None (Some file_get_buffer)) = Inr ((last_error h, m''), h) \<and>
         remaining contents h = rest))"
proof -
  let ?hs = "savevm_handlers vm" and ?head = "bytes_be32 QEMU_VM_FILE_MAGIC @ bytes_be32 QEMU_VM_FILE_VERSION"
  note bad = restore_no_bad [OF assms(3)]
  obtain g where g: "qemu_savevm_state 1 vm (qemu_fopen_ops new_file (Some file_put_buffer) None, m) = Inr (0, g, machine_saved ?hs m)"
      "writing file_put_buffer contents (\<lambda>_. True) g" "written contents g = ?head @ images (plan_machine ?hs m)"
    using savevm_writes [OF bad assms(1) opened(1), of 1] opened(2) by auto
  have flushed: "contents (back_end (qemu_fflush g)) = ?head @ images (plan_machine ?hs m)" using file_sink.flushed [OF g(2)] g(3) by simp
  have "\<exists>h. qemu_loadvm_state n n vm m' (qemu_fopen_ops fp None (Some file_get_buffer)) = Inr ((last_error h, m''), h) \<and>
      remaining contents h = rest"
    if fp: "contents fp = contents (back_end (qemu_fflush g)) @ rest" "length (contents fp) \<le> n" for fp n
  proof -
    let ?f = "qemu_fopen_ops fp None (Some file_get_buffer)"
    have len: "length (images (plan_machine ?hs m)) < n" "length ?hs < n"
      using fp flushed sections_le_images [OF bad] by (simp_all add: bytes_be32_def)
    have "remaining contents ?f = bytes_be32 QEMU_VM_FILE_MAGIC @ bytes_be32 QEMU_VM_FILE_VERSION @ images (plan_machine ?hs m) @ rest"
      using fp(1) flushed opened(4) by simp
    then obtain a where a: "qemu_get_be32 ?f = Inr (QEMU_VM_FILE_MAGIC, a)" "reading file_get_buffer contents (\<lambda>_ _. True) a"
        "remaining contents a = bytes_be32 QEMU_VM_FILE_VERSION @ images (plan_machine ?hs m) @ rest"
      using takesE [OF takes_be32 opened(3)] by metis
    obtain b where b: "qemu_get_be32 a = Inr (QEMU_VM_FILE_VERSION, b)" "reading file_get_buffer contents (\<lambda>_ _. True) b"
        "remaining contents b = images (plan_machine ?hs m) @ rest"
      using takesE [OF takes_be32 a(2,3)] .
    obtain h where h: "load_sections n n ?hs [] m' b = Inr ((0, m''), h)" "remaining contents h = rest"
      using load_sections_restore [OF assms(3) len assms(1) find_self [OF assms(2)], of "[]"] b(2,3) unfolding takes_at_def by auto
    have "\<not> qemu_savevm_state_blocked ?hs" using assms(1) by (auto simp: qemu_savevm_state_blocked_def entry_ok_def list_all_iff list_ex_iff)
    then show ?thesis
      using h by (simp add: qemu_loadvm_state_def a(1) b(1) QEMU_VM_FILE_VERSION_def QEMU_VM_FILE_VERSION_COMPAT_def)
  qed
  then show ?thesis using g(1) by (intro exI [of _ g]) simp
qed

text \<open>An instance: two devices of the same kind, at different addresses.\<close>

definition example_vm :: "FILE savevm" where
  "example_vm =
     (case bindE (vmstate_register None (- 1) example_vmsd 4096 \<lparr>savevm_handlers = [], global_section_id = 0\<rparr>)
        (vmstate_register None (- 1) example_vmsd 8192) of
        Inl e \<Rightarrow> \<lparr>savevm_handlers = [], global_section_id = 0\<rparr> | Inr vm \<Rightarrow> vm)"

lemma example_vm_facts:
  "list_all entry_ok (savevm_handlers example_vm)" "unambiguous (savevm_handlers example_vm)"
  "restore (plan_machine (savevm_handlers example_vm) ucast) [] (\<lambda>x. 0) \<noteq> None"
  "map instance_id (savevm_handlers example_vm) = [0, 1]"
  by code_simp+

theorem snapshot_round_trip_witness:
  "\<exists>m g h m''. qemu_savevm_state 1 example_vm (qemu_fopen_ops new_file (Some file_put_buffer) None, ucast) = Inr (0, g, m) \<and>
    qemu_loadvm_state (length (contents (back_end (qemu_fflush g)))) (length (contents (back_end (qemu_fflush g)))) example_vm (\<lambda>x. 0)
      (qemu_fopen_ops (back_end (qemu_fflush g)) None (Some file_get_buffer)) = Inr ((last_error h, m''), h) \<and>
    restore (plan_machine (savevm_handlers example_vm) ucast) [] (\<lambda>x. 0) = Some m''"
proof -
  obtain m'' where m: "restore (plan_machine (savevm_handlers example_vm) ucast) [] (\<lambda>x. 0) = Some m''" using example_vm_facts(3) by blast
  show ?thesis using snapshot_round_trip [OF example_vm_facts(1,2) m] m by fastforce
qed

section \<open>Registration\<close>

text \<open>The numbers given out are new among the parts of the same name, and small.\<close>

lemma new_instance_id:
  assumes "\<And>se. se \<in> set hs \<Longrightarrow> 0 \<le> instance_id se \<and> instance_id se < int n" "n < 2 ^ 31"
  shows "0 \<le> calculate_new_instance_id hs nm" "calculate_new_instance_id hs nm \<le> int n"
    "se \<in> set hs \<Longrightarrow> idstr se = nm \<Longrightarrow> instance_id se < calculate_new_instance_id hs nm"
proof -
  have small: "int32 x = x" if "0 \<le> x" "x \<le> int n" for x
    using that assms(2) by (simp add: int32_def signed_of_int signed_take_bit_int_eq_self)
  have "0 \<le> calculate_new_instance_id hs nm \<and> calculate_new_instance_id hs nm \<le> int n \<and>
      (\<forall>se \<in> set hs. idstr se = nm \<longrightarrow> instance_id se < calculate_new_instance_id hs nm)"
    using assms(1)
  proof (induction hs rule: rev_induct)
    case (snoc h hs)
    have IH: "0 \<le> calculate_new_instance_id hs nm" "calculate_new_instance_id hs nm \<le> int n"
        "\<And>se. se \<in> set hs \<Longrightarrow> idstr se = nm \<Longrightarrow> instance_id se < calculate_new_instance_id hs nm"
      using snoc by auto
    have h: "0 \<le> instance_id h" "instance_id h < int n" using snoc.prems [of h] by simp_all
    then have inc: "int32 (instance_id h + 1) = instance_id h + 1" by (intro small) simp_all
    have "calculate_new_instance_id (hs @ [h]) nm =
        (let c = calculate_new_instance_id hs nm in if nm = idstr h \<and> c \<le> instance_id h then int32 (instance_id h + 1) else c)"
      unfolding calculate_new_instance_id_def Let_def by simp
    then have c: "calculate_new_instance_id (hs @ [h]) nm =
        (if nm = idstr h \<and> calculate_new_instance_id hs nm \<le> instance_id h then instance_id h + 1 else calculate_new_instance_id hs nm)"
      unfolding inc Let_def .
    have "instance_id se < instance_id h + 1" if "se \<in> set hs" "idstr se = nm" "calculate_new_instance_id hs nm \<le> instance_id h" for se
      using IH(3) [OF that(1,2)] that(3) by simp
    then show ?case unfolding c using IH h by auto
  qed (simp add: calculate_new_instance_id_def)
  then show "0 \<le> calculate_new_instance_id hs nm" "calculate_new_instance_id hs nm \<le> int n"
    "se \<in> set hs \<Longrightarrow> idstr se = nm \<Longrightarrow> instance_id se < calculate_new_instance_id hs nm" by auto
qed

lemma new_instance_id_first: "(\<And>se. se \<in> set hs \<Longrightarrow> idstr se \<noteq> nm) \<Longrightarrow> calculate_new_instance_id hs nm = 0"
proof (induction hs rule: rev_induct)
  case (snoc h hs)
  have "calculate_new_instance_id hs nm = 0" "idstr h \<noteq> nm" using snoc by simp_all
  then show ?case by (simp add: calculate_new_instance_id_def)
qed (simp add: calculate_new_instance_id_def)

text \<open>
  The registrations that leave the number of the entry to the registration, with a description or with functions, of
  a device with a path on its bus or without one.
\<close>

datatype 'b registration =
    Described (reg_path: "cstring option") "'b VMStateDescription" (reg_opaque: u64)
  | Functions (reg_path: "cstring option") cstring int "(int \<Rightarrow> int \<Rightarrow> u64 \<Rightarrow> hostmem \<Rightarrow> hostmem) option"
      "(int \<Rightarrow> u64 \<Rightarrow> 'b QEMUFile \<times> hostmem \<Rightarrow> (int \<times> 'b QEMUFile \<times> hostmem) res) option"
      "(u64 \<Rightarrow> 'b QEMUFile \<times> hostmem \<Rightarrow> ('b QEMUFile \<times> hostmem) res) option"
      "(u64 \<Rightarrow> int \<Rightarrow> hostmem \<Rightarrow> 'b loader) option" (reg_opaque: u64)

fun register :: "'b registration \<Rightarrow> 'b savevm \<Rightarrow> 'b savevm res" where
  "register (Described path v opq) = vmstate_register path (- 1) v opq"
| "register (Functions path nm ver params live save load opq) = register_savevm_live path nm (- 1) ver params live save load opq"

fun reg_name :: "'b registration \<Rightarrow> cstring" where
  "reg_name (Described path v opq) = vm_name v"
| "reg_name (Functions path nm ver params live save load opq) = nm"

fun reg_vmsd :: "'b registration \<Rightarrow> 'b VMStateDescription option" where
  "reg_vmsd (Described path v opq) = Some v"
| "reg_vmsd (Functions path nm ver params live save load opq) = None"

definition full_id :: "'b registration \<Rightarrow> cstring" where
  "full_id r = pstrcat 256 (case reg_path r of None \<Rightarrow> [] | Some p \<Rightarrow> pstrcat 256 (pstrcpy 256 p) [47]) (reg_name r)"

text \<open>
  The names tell the registrations apart: a device with a path has an identifier that was not registered before,
  and the identifiers registered after it are not its name without the path, under which it is known to older versions.
\<close>

fun tellable :: "'b registration list \<Rightarrow> bool" where
  "tellable [] \<longleftrightarrow> True"
| "tellable (r # rs) \<longleftrightarrow>
     list_all (\<lambda>x. (reg_path x = None \<or> full_id x \<noteq> full_id r) \<and> (reg_path r = None \<or> full_id x \<noteq> pstrcpy 256 (reg_name r))) rs \<and>
     tellable rs"

definition snapshot_ok :: "'b registration \<Rightarrow> bool" where
  "snapshot_ok r \<longleftrightarrow> \<not> List.member (full_id r) 0 \<and>
     (case reg_vmsd r of None \<Rightarrow> False | Some v \<Rightarrow> int32 (vm_version_id v) = vm_version_id v \<and> \<not> unmigratable v)"

text \<open>What an entry keeps of its registration.\<close>

definition entry_of :: "nat \<Rightarrow> 'b registration \<Rightarrow> 'b SaveStateEntry \<Rightarrow> bool" where
  "entry_of n r se \<longleftrightarrow> idstr se = full_id r \<and> se_vmsd se = reg_vmsd r \<and> se_opaque se = reg_opaque r \<and>
     alias_id se \<le> 0 \<and> 0 \<le> instance_id se \<and> instance_id se < int n \<and>
     (case compat se of None \<Rightarrow> True | Some c \<Rightarrow> reg_path r \<noteq> None \<and> ce_idstr c = pstrcpy 256 (reg_name r)) \<and>
     (n < 2 ^ 31 \<longrightarrow> snapshot_ok r \<longrightarrow> entry_ok se)"

lemma unambiguous_snoc:
  "unambiguous (hs @ [x]) \<longleftrightarrow> unambiguous hs \<and> list_all (\<lambda>se. \<not> answers (idstr x) (instance_id x) se) hs"
  by (induction hs) auto

lemma tellable_snoc:
  "tellable (rs @ [x]) \<longleftrightarrow> tellable rs \<and>
     list_all (\<lambda>r. (reg_path x = None \<or> full_id x \<noteq> full_id r) \<and> (reg_path r = None \<or> full_id x \<noteq> pstrcpy 256 (reg_name r))) rs"
  by (induction rs) auto

lemma length_pstrcat: "length cs < n \<Longrightarrow> length (pstrcat n cs s) < n"
  by (simp add: pstrcat_def pstrcpy_def)

lemma length_full_id: "length (full_id r) < 256"
  unfolding full_id_def by (intro length_pstrcat) (auto simp: pstrcpy_def intro!: length_pstrcat split: option.split)

lemma register_gives:
  assumes "calculate_new_instance_id (savevm_handlers s) (full_id r) = c" "reg_path r = None \<or> c = 0" "0 \<le> c" "c < int n"
  shows "\<exists>se. register r s = Inr (s\<lparr>savevm_handlers := savevm_handlers s @ [se], global_section_id := int32 (global_section_id s + 1)\<rparr>) \<and>
      entry_of n r se \<and> instance_id se = c"
proof -
  have c: "n < 2 ^ 31 \<longrightarrow> int32 c = c" using assms(3,4) by (simp add: int32_def signed_of_int signed_take_bit_int_eq_self)
  show ?thesis
  proof (cases r)
    case (Described path v opq)
    then show ?thesis using assms c length_full_id [of r]
      by (cases path) (auto simp: vmstate_register_def vmstate_register_with_alias_id_def register_entry_def entry_of_def entry_ok_def
          snapshot_ok_def full_id_def Let_def)
  next
    case (Functions path nm ver params live save load opq)
    then show ?thesis using assms
      by (cases path) (auto simp: register_savevm_live_def register_entry_def entry_of_def snapshot_ok_def full_id_def Let_def)
  qed
qed

lemma register_keeps:
  assumes "list_all2 (entry_of n) rs (savevm_handlers s)" "unambiguous (savevm_handlers s)" "tellable (rs @ [r])" "n < 2 ^ 31"
  shows "\<exists>se. register r s = Inr (s\<lparr>savevm_handlers := savevm_handlers s @ [se], global_section_id := int32 (global_section_id s + 1)\<rparr>) \<and>
      entry_of (Suc n) r se \<and> unambiguous (savevm_handlers s @ [se])"
proof -
  let ?hs = "savevm_handlers s" and ?c = "calculate_new_instance_id (savevm_handlers s) (full_id r)"
  have old: "\<exists>x \<in> set rs. entry_of n x se" if "se \<in> set ?hs" for se
    using assms(1) that by (metis in_set_conv_nth list_all2_conv_all_nth)
  have new: "reg_path r = None \<or> full_id r \<noteq> full_id x" "reg_path x = None \<or> full_id r \<noteq> pstrcpy 256 (reg_name x)" if "x \<in> set rs" for x
    using assms(3) that by (auto simp: tellable_snoc list_all_iff)
  have small: "0 \<le> instance_id se \<and> instance_id se < int n" if "se \<in> set ?hs" for se using old [OF that] by (auto simp: entry_of_def)
  have c: "0 \<le> ?c" "?c \<le> int n" "\<And>se. se \<in> set ?hs \<Longrightarrow> idstr se = full_id r \<Longrightarrow> instance_id se < ?c"
    using new_instance_id [of ?hs n, OF small assms(4)] by auto
  have "?c = 0" if "reg_path r \<noteq> None"
    using old new(1) that by (intro new_instance_id_first) (fastforce simp: entry_of_def)
  then obtain se where se: "register r s = Inr (s\<lparr>savevm_handlers := ?hs @ [se], global_section_id := int32 (global_section_id s + 1)\<rparr>)"
      "entry_of (Suc n) r se" "instance_id se = ?c"
    using register_gives [of s r ?c "Suc n"] c(1,2) by fastforce
  have "\<not> answers (idstr se) (instance_id se) h" if h: "h \<in> set ?hs" for h
  proof -
    obtain x where x: "x \<in> set rs" "entry_of n x h" using old [OF h] by blast
    have "idstr se = full_id r" using se(2) by (simp add: entry_of_def)
    then show ?thesis using c(3) [OF h] x(2) new(2) [OF x(1)] se(3)
      by (auto simp: answers_def entry_of_def split: option.splits)
  qed
  then have "unambiguous (?hs @ [se])" using assms(2) by (simp add: unambiguous_snoc list_all_iff)
  then show ?thesis using se by blast
qed

text \<open>
  C11: devices are told apart. However many devices register, by \<open>vmstate_register\<close> or by \<open>register_savevm_live\<close>,
  with a path or without one, each leaving its number to the registration (\<open>-1\<close>): if a device with a path has an identifier (path and
  name) that was not registered before, and nothing registered after it has its plain name for identifier, every registration succeeds, the entries are
  those of the devices in order, and the entry that \<open>find_se\<close> finds for the name and number of an entry is that entry. If moreover
  all devices have descriptions that may be migrated, the entries are fit for a snapshot.
\<close>

theorem registered_devices_found:
  fixes rs :: "'b registration list"
  assumes "tellable rs" "length rs < 2 ^ 31"
  shows "\<exists>vm. foldE register rs \<lparr>savevm_handlers = [], global_section_id = 0\<rparr> = Inr vm \<and>
    map (\<lambda>se. (idstr se, se_vmsd se, se_opaque se)) (savevm_handlers vm) = map (\<lambda>r. (full_id r, reg_vmsd r, reg_opaque r)) rs \<and>
    unambiguous (savevm_handlers vm) \<and>
    (\<forall>se \<in> set (savevm_handlers vm). find_se (savevm_handlers vm) (idstr se) (instance_id se) = Some se) \<and>
    (list_all snapshot_ok rs \<longrightarrow> list_all entry_ok (savevm_handlers vm))"
proof -
  have "\<exists>vm. foldE register rs \<lparr>savevm_handlers = [], global_section_id = 0\<rparr> = Inr vm \<and>
      list_all2 (entry_of (length rs)) rs (savevm_handlers vm) \<and> unambiguous (savevm_handlers vm)"
    using assms
  proof (induction rs rule: rev_induct)
    case (snoc r rs)
    obtain vm where vm: "foldE register rs \<lparr>savevm_handlers = [], global_section_id = 0\<rparr> = Inr vm"
        "list_all2 (entry_of (length rs)) rs (savevm_handlers vm)" "unambiguous (savevm_handlers vm)"
      using snoc by (auto simp: tellable_snoc)
    obtain se where se: "register r vm =
          Inr (vm\<lparr>savevm_handlers := savevm_handlers vm @ [se], global_section_id := int32 (global_section_id vm + 1)\<rparr>)"
        "entry_of (Suc (length rs)) r se" "unambiguous (savevm_handlers vm @ [se])"
      using register_keeps [OF vm(2,3) snoc.prems(1)] snoc.prems(2) by auto
    have "list_all2 (entry_of (Suc (length rs))) rs (savevm_handlers vm)"
      using vm(2) by (rule list_all2_mono) (use snoc.prems(2) in \<open>auto simp: entry_of_def\<close>)
    then show ?case using vm(1) se by (auto simp: foldE_append list_all2_appendI)
  qed simp
  then obtain vm where vm: "foldE register rs \<lparr>savevm_handlers = [], global_section_id = 0\<rparr> = Inr vm"
      "list_all2 (entry_of (length rs)) rs (savevm_handlers vm)" "unambiguous (savevm_handlers vm)" by blast
  have "map (\<lambda>se. (idstr se, se_vmsd se, se_opaque se)) (savevm_handlers vm) = map (\<lambda>r. (full_id r, reg_vmsd r, reg_opaque r)) rs"
    using vm(2) by (auto simp: list_eq_iff_nth_eq list_all2_conv_all_nth entry_of_def)
  moreover have "list_all snapshot_ok rs \<longrightarrow> list_all entry_ok (savevm_handlers vm)"
    using vm(2) assms(2) by (auto simp: list_all2_conv_all_nth list_all_length entry_of_def)
  ultimately show ?thesis using vm find_self by blast
qed

text \<open>Two devices with paths and the same name, and one without a path of another.\<close>

definition example_registrations :: "FILE registration list" where
  "example_registrations =
     [Described (Some [49]) example_vmsd 4096, Described (Some [50]) example_vmsd 8192,
      Functions None [103, 105, 99] 1 None None None None 12288, Functions None [103, 105, 99] 1 None None None None 16384]"

theorem registered_devices_found_witness:
  "\<exists>vm. foldE register example_registrations \<lparr>savevm_handlers = [], global_section_id = 0\<rparr> = Inr vm \<and>
    map se_opaque (savevm_handlers vm) = [4096, 8192, 12288, 16384] \<and> unambiguous (savevm_handlers vm)"
proof -
  have "tellable example_registrations" by code_simp
  from registered_devices_found [OF this] obtain vm where vm:
    "foldE register example_registrations \<lparr>savevm_handlers = [], global_section_id = 0\<rparr> = Inr vm"
    "map (\<lambda>se. (idstr se, se_vmsd se, se_opaque se)) (savevm_handlers vm) =
      map (\<lambda>r. (full_id r, reg_vmsd r, reg_opaque r)) example_registrations"
    "unambiguous (savevm_handlers vm)" by (auto simp: example_registrations_def)
  from vm(2) have "map (snd \<circ> snd) (map (\<lambda>se. (idstr se, se_vmsd se, se_opaque se)) (savevm_handlers vm)) =
      map (snd \<circ> snd) (map (\<lambda>r. (full_id r, reg_vmsd r, reg_opaque r)) example_registrations)" by (rule arg_cong)
  then have "map se_opaque (savevm_handlers vm) = [4096, 8192, 12288, 16384]" by (simp add: example_registrations_def comp_def)
  then show ?thesis using vm(1,3) by (intro exI [of _ vm]) simp
qed

text \<open>The second condition is needed: a device with a path answers for a later one with its plain name.\<close>

lemma path_shadows_plain_name:
  "(case foldE register [Functions (Some [49]) [100] 1 None None None None 4096, Functions None [100] 1 None None None None 8192]
      \<lparr>savevm_handlers = [], global_section_id = 0\<rparr> of
      Inl e \<Rightarrow> False
    | Inr vm \<Rightarrow> (case find_se (savevm_handlers vm) [100] 0 of None \<Rightarrow> False | Some se \<Rightarrow> se_opaque se = 4096))"
  by code_simp

text \<open>
  \<open>register_savevm\<close> leaves the alias number 0: an entry with another number registered before number
  0 of the same name is taken for it.
\<close>

theorem alias_zero_shadows:
  "(case bindE (register_savevm None [100] 1 1 None None 4096 \<lparr>savevm_handlers = [], global_section_id = 0\<rparr>)
      (register_savevm None [100] 0 1 None None 8192) of
      Inl e \<Rightarrow> False
    | Inr vm \<Rightarrow> (case find_se (savevm_handlers vm) [100] 0 of None \<Rightarrow> False | Some se \<Rightarrow> se_opaque se = 4096))"
  by code_simp

end
