(* ===== verification/Spec2Isabelle.thy ===== *)
theory Spec2Isabelle
  imports Stm32_Board Stm32_Rcc Phys_Topology V7m Bitband Memory_Access Arm_Helpers Systick Gic_Save Savevm
begin

text \<open>
  A verification library for the emulation of the STM32L152 Discovery board in QEMU
  (\<open>src/project/Qemu/src\<close>; file names below are relative to it).

  \<^bold>\<open>The program.\<close> The board (\<open>hw/stm32.c\<close>) is a Cortex-M3 processor with flash, RAM, an NVIC with
  its SysTick timer, two bit-band regions, GPIO ports, two LEDs and a button that talk to a user
  interface through character devices. QEMU runs the guest's code by translation; everything else
  is C code that calls itself through tables of functions: a guest access to an address is looked
  up in the map of physical pages (\<open>exec.c\<close>), which leads to host memory or to the functions of a
  device; the map is built from a tree of memory regions (\<open>memory.c\<close>); devices drive lines
  (\<open>hw/irq.c\<close>) that end at other devices or at the interrupt controller (\<open>hw/arm_gic.c\<close>,
  \<open>hw/armv7m_nvic.c\<close>), which raises the interrupt request of the processor; the processor takes the
  exception (\<open>target-arm/helper.c\<close>), acknowledging it on the controller and pushing its registers
  on a stack in guest memory; timers (\<open>qemu-timer.c\<close>) call devices back; and the state of devices
  is saved to and loaded from byte streams (\<open>savevm.c\<close>).

  \<^bold>\<open>How it is modelled.\<close> One function of the library per function of the source, with its name.
  C integers are words of their width; structures are records; a function that changes state takes
  it and returns it updated. A function pointer is a HOL function, a null pointer is \<open>None\<close>. Every
  way to stop, a failed assertion, \<open>hw_error\<close>, \<open>cpu_abort\<close>, an index outside an array, a loop that
  does not end, is a value of \<open>qemu_error\<close>, and a function that may stop returns \<open>'a res\<close>.
  Code that is not modelled is an argument: the back ends of streams and character devices, the
  functions of devices behind the page map, KVM results, semihosting.

  \<^bold>\<open>Theories, in the order of their imports.\<close>

  \<^descr> \<open>Prelude\<close>: word types, errors, \<open>bindE\<close> and \<open>foldE\<close>, bit lemmas, and the locale
  \<open>register_file\<close> of a block of plain registers. \<open>Bytes\<close> (\<open>bswap.h\<close>): numbers as bytes in memory.

  \<^descr> \<open>Irq\<close> (\<open>hw/irq.c\<close>, \<open>hw/irq.h\<close>, pins of \<open>hw/qdev.c\<close>): lines, their inversion, splitting,
  connecting. \<open>Chardev\<close> (\<open>qemu-char.c\<close>): the front end the board uses. \<open>Stm32_Gpio\<close>, \<open>Stm32_Rcc\<close>,
  \<open>Stm32_Board\<close> (\<open>hw/stm32*.c\<close>): the devices of the board and their wiring. Shown: the LEDs
  show the output register of the port, the button reaches the input register, the board is
  wired as intended, the button dead until the guest gives its pin a pull, registers read back what was written (through \<open>register_file\<close>).

  \<^descr> \<open>Int128\<close> (\<open>int128.h\<close>): the two-word integers are integers as long as no result leaves the
  range. \<open>Memory_Flat\<close> (\<open>memory.c\<close>): rendering a tree of regions into a flat view; the view
  resolves every address to the region that an abstract specification by priorities names,
  unless a region begins strictly inside a range of the view. \<open>Memory_Topology\<close> (\<open>memory.c\<close>): the
  operations on regions, transactions and the two passes of an update; the listeners always see
  the rendered view, and the passes issue the calls that turn the old view into the new one.
  \<open>Memory_Access\<close> (\<open>memory.c\<close>): splitting accesses to devices; a write that is split and read back
  in other pieces gives the written value.

  \<^descr> \<open>Phys_Map\<close> (\<open>exec.c\<close>): the two-level table of pages, pages shared by several devices, I/O
  slots, \<open>cpu_register_physical_memory_log\<close>; registering a range changes where its addresses lead
  and nothing else. \<open>Phys_Topology\<close>: \<open>memory.c\<close> on top of \<open>exec.c\<close>; after an update the page map
  leads every address where the view says. \<open>Phys_Mem\<close> (\<open>exec.c\<close>, \<open>cpu-all.h\<close>): RAM blocks, dirty
  flags, \<open>ldl_phys\<close>, \<open>stl_phys\<close>, \<open>cpu_physical_memory_rw\<close>; what is written is read back, nothing
  else changes, no write goes unnoticed by migration or the translator, allocated blocks are
  fresh. The locale \<open>word_memory\<close> is the contract of aligned words that the exception code relies
  on, with the stack of frames proved in it, and is interpreted by RAM and ROM. \<open>Bitband\<close>
  (\<open>hw/armv7m.c\<close>): accesses of every size to the bit-band memory name single bits of memory.

  \<^descr> \<open>Arm_State\<close> (\<open>target-arm/cpu.h\<close>, \<open>target-arm/helper.c\<close>): the state of the processor, status
  registers, banks, special registers, each read back after a write. \<open>Arm_Helpers\<close>
  (\<open>target-arm/op_helper.c\<close>, \<open>op_addsub.h\<close>): saturation, flags, shifts, parallel arithmetic, each
  equal to its meaning on integers.

  \<^descr> \<open>Gic\<close> (\<open>hw/arm_gic.c\<close> in its NVIC configuration): priorities, acknowledging, completing, the
  distributor's registers; the active interrupts form a stack in every state reached without writing
  the priority of an active interrupt (locale \<open>interrupt_stack\<close>), the scan chooses the most urgent
  interrupt, completing ends. \<open>Nvic\<close> (\<open>hw/armv7m_nvic.c\<close>): exception numbers, system registers, SysTick,
  as an inductive step relation of the machine; the interrupt request of the processor is raised
  exactly when the most urgent interrupt passes the mask and preempts, in every state reached without such a write and without
  enabling a fault that is pending; a raised exception that is enabled, not masked and more urgent than the others is delivered. \<open>V7m\<close> (\<open>target-arm/helper.c\<close>): exception entry
  and return over \<open>Nvic\<close> and \<open>Phys_Mem\<close>; the interrupted code resumes as it was.

  \<^descr> \<open>Qemu_Timer\<close> (\<open>qemu-timer.c\<close>): queues sorted by time (locale \<open>timer_queue\<close>), due timers run in
  order of expiry, each once, and none stays due, also when callbacks arm timers for later. \<open>Systick\<close>: the SysTick timer on these queues catches up and ends in the
  future. \<open>Qemu_File\<close> (\<open>savevm.c\<close>): buffered streams over back ends that keep the laws of the locales
  \<open>stream_sink\<close> and \<open>stream_source\<close>, interpreted by files and stdio; what is put is got back.
  \<open>Stream_Steps\<close>: how savers and loaders compose, and looking ahead in a stream (locale
  \<open>eager_source\<close>, which extends \<open>stream_source\<close>). \<open>Gic_Save\<close>: the interrupt controller's state
  survives saving and loading.

  \<^descr> \<open>Vmstate\<close> (\<open>savevm.c\<close>, \<open>hw/hw.h\<close>): the interpreter of the descriptions of device state, on host
  memory: kinds of fields, arrays, pointers, nested structures, subsections, hooks.
  \<open>Vmstate_Restore\<close>: the specification of what a saved structure does to the memory it is loaded
  into (\<open>plan_state\<close>, \<open>restore\<close>), and the refinement theorem that saving to a file and loading it is
  just that; two cases in which the state does not come back. \<open>Savevm\<close> (\<open>savevm.c\<close>): registration,
  the stages of saving and the loader of a whole machine; registered devices, with a path or without, are
  told apart, and a snapshot restores all of them.

  \<^bold>\<open>Loops that may not end\<close> have a bound on their rounds and return \<open>no_termination\<close> beyond it. The
  bounds are enough: \<open>gic_complete_irq\<close> with \<open>GIC_NIRQ\<close> rounds, since the active interrupts are
  distinct (\<open>complete_removes\<close>; with a changed priority the list may be cyclic, and then no bound is
  enough, \<open>complete_may_not_end\<close>); rendering with the depth of the tree (a rank that decreases along
  the pointers); registering a range with the number of its pages; an access through a shared page
  with two levels, as a shared page never leads to another; buffers with one round more than
  bytes; the subsections of a structure and the sections of a file with the number of bytes in the
  file; SysTick with one round more than the periods that have passed (with the period 0 no bound
  is enough, \<open>systick_never_ends\<close>). \<open>cpu_physical_memory_rw\<close> and the rest are total functions.

  \<^bold>\<open>Not modelled:\<close> the translator, TCG and the execution loop (generated host code, left by
  \<open>longjmp\<close>), so instructions between exceptions are arbitrary state changes; the MMU, coprocessors
  and floating point, which a Cortex-M3 does not have; KVM, Xen, threads, signals, sockets and the
  other host services; live migration of RAM and disks; the qdev object model but for pins; kernel
  loading; and the devices, boards, processors, image formats and user interfaces that are not part
  of this board.
\<close>

end
